(* ===== verification/Folly_Prelude.thy ===== *)
theory Folly_Prelude
  imports Main "HOL-Library.Word" "HOL-Library.Monad_Syntax"
begin

text \<open>
  Shared vocabulary of the development: machine integers, byte buffers with an output
  cursor, and the generic lemmas on lists and words the component theories use.

  A C++ output pointer \<open>char* o\<close> into a caller-supplied buffer is modelled as a pair of
  the buffer's contents and the offset of \<open>o\<close>. A store past the end of the buffer is
  undefined behaviour in C++ and \<^term>\<open>None\<close> here, so that a theorem \<open>f x s = Some s'\<close>
  also says that \<open>f\<close> stays inside the buffer.
\<close>

unbundle bit_operations_syntax

type_synonym u8 = "8 word"
type_synonym u16 = "16 word"
type_synonym u32 = "32 word"
type_synonym u64 = "64 word"

type_synonym cursor = "u8 list \<times> nat"

named_theorems cursor_simps \<open>algebra of writes through an output cursor\<close>

section \<open>Output cursors\<close>

text \<open>\<open>*o++ = x\<close>\<close>

definition put :: "u8 \<Rightarrow> cursor \<Rightarrow> cursor option" where
  "put x s = (case s of (b, i) \<Rightarrow> if i < length b then Some (b[i := x], Suc i) else None)"

text \<open>\<open>memcpy(o, xs, n); o += k\<close>: the copy covers all of \<open>xs\<close>, the cursor moves by \<open>k\<close>.\<close>

definition memcpy_advance :: "u8 list \<Rightarrow> nat \<Rightarrow> cursor \<Rightarrow> cursor option" where
  "memcpy_advance xs k s = (case s of (b, i) \<Rightarrow>
     if i + length xs \<le> length b
     then Some (take i b @ xs @ drop (i + length xs) b, i + k) else None)"

text \<open>The specification of a run of stores: \<open>xs\<close> lands at the cursor, or does not fit.\<close>

definition write_bytes :: "u8 list \<Rightarrow> cursor \<Rightarrow> cursor option" where
  "write_bytes xs s = (case s of (b, i) \<Rightarrow>
     if i + length xs \<le> length b
     then Some (take i b @ xs @ drop (i + length xs) b, i + length xs) else None)"

section \<open>Bit length\<close>

text \<open>The position of the highest set bit, counted from 1; 0 for 0.\<close>

fun bit_length :: "nat \<Rightarrow> nat" where
  "bit_length n = (if n = 0 then 0 else Suc (bit_length (n div 2)))"

declare bit_length.simps [simp del]

text \<open>\<open>__builtin_clzll\<close>: leading zeros of a nonzero 64-bit value.\<close>

definition builtin_clzll :: "u64 \<Rightarrow> nat" where
  "builtin_clzll w = 64 - bit_length (unat w)"

section \<open>Lemmas on cursors\<close>

lemma put_eq_write [cursor_simps]: "put x = write_bytes [x]"
  by (rule ext) (auto simp: put_def write_bytes_def upd_conv_take_nth_drop split: prod.splits)

lemma write_bytes_Nil: "snd s \<le> length (fst s) \<Longrightarrow> write_bytes [] s = Some s"
  by (cases s) (auto simp: write_bytes_def)

lemma write_bytes_bind [cursor_simps]:
  "Option.bind (write_bytes xs s) (write_bytes ys) = write_bytes (xs @ ys) s"
  by (cases s) (auto simp: write_bytes_def add.commute add.left_commute split: prod.splits)

lemma write_bytes_bind' [cursor_simps]:
  "Option.bind (write_bytes xs s) (\<lambda>t. Option.bind (write_bytes ys t) g)
   = Option.bind (write_bytes (xs @ ys) s) g"
  by (simp add: write_bytes_bind [symmetric] Option.bind_assoc)

lemma memcpy_advance_write_bytes:
  assumes "k \<le> length xs" and "length xs \<le> k + length ys"
  shows "Option.bind (memcpy_advance xs k s) (write_bytes ys) = write_bytes (take k xs @ ys) s"
  using assms
  by (cases s) (auto simp: memcpy_advance_def write_bytes_def min_def ac_simps)

lemma write_bytes_exact:
  "length b = length xs \<Longrightarrow> write_bytes xs (b, 0) = Some (xs, length xs)"
  by (simp add: write_bytes_def)

lemma write_bytes_SomeD:
  assumes "write_bytes xs (b, i) = Some (b', i')"
  shows "length b' = length b" "i' = i + length xs" "take i' b' = take i b @ xs"
    "drop i' b' = drop i' b" "i' \<le> length b"
  using assms by (auto simp: write_bytes_def split: if_splits)

lemma write_bytes_bindI:
  assumes "\<And>t. snd t \<le> length (fst t) \<Longrightarrow> g t = write_bytes ys t"
  shows "Option.bind (write_bytes xs s) g = write_bytes (xs @ ys) s"
proof (cases "write_bytes xs s")
  case None
  then show ?thesis
    by (cases s) (auto simp: write_bytes_def split: if_splits)
next
  case (Some t)
  then have "snd t \<le> length (fst t)"
    by (cases s) (auto simp: write_bytes_def split: if_splits)
  with Some show ?thesis
    using write_bytes_bind [of xs s ys] by (simp add: assms)
qed

lemma bind_Some_map: "Option.bind x (\<lambda>t. Some (h t)) = map_option h x"
  by (cases x) simp_all

lemma write_bytes_bind_map:
  "Option.bind (write_bytes xs s) (\<lambda>t. map_option h (write_bytes ys t))
   = map_option h (write_bytes (xs @ ys) s)"
  unfolding write_bytes_bind [symmetric] by (cases "write_bytes xs s") simp_all

lemma write_bytes_Some_iff:
  "(\<exists>t. write_bytes xs (b, i) = Some t) \<longleftrightarrow> i + length xs \<le> length b"
  by (simp add: write_bytes_def)

lemma div_mult_step:
  fixes n :: nat
  shows "0 < k \<Longrightarrow> (k + n) div k * m = n div k * m + m"
  by (simp add: div_add_self1)

section \<open>Lemmas on indices of a ring\<close>

lemma mod_shift_neq:
  fixes i :: nat
  assumes "a < n" and "b < n" and "a \<noteq> b"
  shows "(i + a) mod n \<noteq> (i + b) mod n"
proof
  assume "(i + a) mod n = (i + b) mod n"
  then have "int ((i + a) mod n) = int ((i + b) mod n)" by simp
  then have "int n dvd int a - int b"
    by (simp add: zmod_int mod_eq_dvd_iff)
  moreover have "\<bar>int a - int b\<bar> < int n" "int a - int b \<noteq> 0"
    using assms by auto
  ultimately show False
    using dvd_imp_le_int [of "int a - int b" "int n"] by simp
qed

section \<open>Lemmas on words\<close>

lemma low_bits_push_drop:
  fixes w :: "'a::len word"
  shows "push_bit s (w AND mask k) OR push_bit (s + k) (drop_bit k w) = push_bit s w"
proof (rule bit_word_eqI)
  fix n
  assume "n < LENGTH('a)"
  then show "bit (push_bit s (w AND mask k) OR push_bit (s + k) (drop_bit k w)) n
    \<longleftrightarrow> bit (push_bit s w) n"
    by (cases "s + k \<le> n") (auto simp: bit_simps)
qed

lemma mask_7_u64: "(0x7f :: u64) = mask 7" and mask_7_u8: "(0x7f :: u8) = mask 7"
  by (simp_all add: mask_numeral)

lemma unat_drop_bit_less:
  fixes w :: "'a::len word"
  assumes "0 < n" and "w \<noteq> 0"
  shows "unat (drop_bit n w) < unat w"
proof -
  have "unat w div 2 ^ n < unat w"
    using assms one_less_power [of "2::nat" n]
    by (intro div_less_dividend) (auto simp: unat_gt_0)
  then show ?thesis
    unfolding unat_drop_bit_eq by (simp add: drop_bit_eq_div)
qed

lemma u8_eq_iff:
  "(x :: u8) = y \<longleftrightarrow> (bit x 0 = bit y 0 \<and> bit x 1 = bit y 1 \<and> bit x 2 = bit y 2 \<and> bit x 3 = bit y 3
    \<and> bit x 4 = bit y 4 \<and> bit x 5 = bit y 5 \<and> bit x 6 = bit y 6 \<and> bit x 7 = bit y 7)"
proof -
  have "x = y \<longleftrightarrow> (\<forall>n \<in> {0, 1, 2, 3, 4, 5, 6, 7}. bit x n = bit y n)"
  proof
    assume *: "\<forall>n \<in> {0, 1, 2, 3, 4, 5, 6, 7}. bit x n = bit y n"
    show "x = y"
    proof (rule bit_word_eqI)
      fix n
      assume "n < LENGTH(8)"
      then have "n \<in> {0, 1, 2, 3, 4, 5, 6, 7}" by auto
      with * show "bit x n = bit y n" by blast
    qed
  qed simp
  then show ?thesis by simp
qed

lemma unat_ucast_up:
  "LENGTH('a) \<le> LENGTH('b) \<Longrightarrow> unat (ucast (x :: 'a::len word) :: 'b::len word) = unat x"
proof -
  assume "LENGTH('a) \<le> LENGTH('b)"
  then have "(2::nat) ^ LENGTH('a) \<le> 2 ^ LENGTH('b)" by (intro power_increasing) simp_all
  then have "unat x < 2 ^ LENGTH('b)" using unsigned_less [of x] by (meson less_le_trans)
  then show ?thesis by (simp add: unsigned_ucast_eq take_bit_nat_eq_self)
qed

lemma bit_length_le_iff: "bit_length n \<le> k \<longleftrightarrow> n < 2 ^ k"
proof (induction k arbitrary: n)
  case 0
  then show ?case by (subst bit_length.simps) simp
next
  case (Suc k)
  show ?case
  proof (cases "n = 0")
    case True
    then show ?thesis by (subst bit_length.simps) simp
  next
    case False
    then have "bit_length n \<le> Suc k \<longleftrightarrow> n div 2 < 2 ^ k"
      using Suc.IH [of "n div 2"] by (subst bit_length.simps) simp
    then show ?thesis by auto
  qed
qed

lemma bit_length_unat_le: "bit_length (unat (w :: 'a::len word)) \<le> LENGTH('a)"
  by (simp add: bit_length_le_iff)

lemma clz_bit_length: "64 - builtin_clzll w = bit_length (unat w)"
  using bit_length_unat_le [of w] by (simp add: builtin_clzll_def)

end
