(* ===== verification/Codec.thy ===== *)
theory Codec
  imports Main
begin

text \<open>
  The contracts a pair of an encoder and a decoder can meet, stated once and interpreted
  for every codec of the library.
  \<^item> \<open>prefix_codec\<close>: the decoder reads back one encoded value from the front of a buffer
    and returns the rest; encodings are then prefix free.
  \<^item> \<open>canonical_codec\<close>: in addition the decoder accepts nothing but the encoder's output.
  \<^item> \<open>block_codec\<close>: the decoder reads a whole buffer.
\<close>

section \<open>Prefix codecs\<close>

locale prefix_codec =
  fixes enc :: "'a \<Rightarrow> 'b list"
    and dec :: "'b list \<Rightarrow> 'e + 'a \<times> 'b list"
    and valid :: "'a \<Rightarrow> bool"
  assumes dec_enc: "valid x \<Longrightarrow> dec (enc x @ r) = Inr (x, r)"
begin

lemma prefix_free:
  assumes "valid x" and "valid y" and "enc x @ r = enc y @ s"
  shows "x = y \<and> r = s"
proof -
  have "Inr (x, r) = dec (enc x @ r)"
    by (simp only: dec_enc [OF assms(1)])
  also have "\<dots> = Inr (y, s)"
    by (simp only: assms(3) dec_enc [OF assms(2)])
  finally show ?thesis by simp
qed

lemma enc_inj: "valid x \<Longrightarrow> valid y \<Longrightarrow> enc x = enc y \<Longrightarrow> x = y"
  using prefix_free [of x y "[]" "[]"] by simp

end

section \<open>Canonical codecs\<close>

locale canonical_codec = prefix_codec +
  assumes enc_dec: "dec bs = Inr (x, r) \<Longrightarrow> valid x \<and> bs = enc x @ r"
begin

lemma dec_iff: "dec bs = Inr (x, r) \<longleftrightarrow> valid x \<and> bs = enc x @ r"
  using dec_enc enc_dec by blast

end

section \<open>Block codecs\<close>

locale block_codec =
  fixes enc :: "'a list \<Rightarrow> 'b list"
    and dec :: "'b list \<Rightarrow> 'a list option"
  assumes block_dec_enc: "dec (enc xs) = Some xs"
begin

lemma block_enc_inj: "enc xs = enc ys \<longleftrightarrow> xs = ys"
  using block_dec_enc by (metis option.inject)

end

locale canonical_block_codec = block_codec +
  assumes block_enc_dec: "dec bs = Some xs \<Longrightarrow> bs = enc xs"
begin

lemma block_dec_iff: "dec bs = Some xs \<longleftrightarrow> bs = enc xs"
  using block_dec_enc block_enc_dec by blast

end

end
