(* ===== verification/Varint.thy ===== *)
theory Varint
  imports Folly_Prelude Codec
begin

text \<open>
  Variable-length integers, \<open>folly/Varint.h\<close>: ZigZag mapping, the encoder, the size
  computation (both the count-leading-zeros branch and the portable loop) and the decoder
  with its unrolled fast path and its slow path.
\<close>

section \<open>Definitions\<close>

text \<open>Constants of the header.\<close>

definition kMaxVarintLength32 :: nat where "kMaxVarintLength32 = 5"

definition kMaxVarintLength64 :: nat where "kMaxVarintLength64 = 10"

text \<open>
  \<open>encodeZigZag\<close>: the argument is an \<open>int64_t\<close>, kept as its two's complement bit
  pattern; \<open>val >> 63\<close> on a signed value is the arithmetic shift.
\<close>

definition encodeZigZag :: "u64 \<Rightarrow> u64" where
  "encodeZigZag val = push_bit 1 val XOR signed_drop_bit 63 val"

definition decodeZigZag :: "u64 \<Rightarrow> u64" where
  "decodeZigZag val = drop_bit 1 val XOR (- (val AND 1))"

text \<open>\<open>encodeVarint\<close> stores through \<open>p\<close>; the returned size is the distance the cursor moved.\<close>

function encodeVarint :: "u64 \<Rightarrow> cursor \<Rightarrow> cursor option" where
  "encodeVarint val p =
     (if 128 \<le> val then
        do { p \<leftarrow> put (ucast (0x80 OR (val AND 0x7f))) p;
             encodeVarint (drop_bit 7 val) p }
      else put (ucast val) p)"
  by pat_completeness auto
termination
  by (relation "measure (\<lambda>(val, p). unat val)") (auto intro!: unat_drop_bit_less)

text \<open>
  \<open>encodeVarintSize\<close>: the count-leading-zeros branch is taken when \<open>kIsArchAmd64\<close>, the
  loop elsewhere.
\<close>

function encodeVarintSize_loop :: "u64 \<Rightarrow> nat \<Rightarrow> nat" where
  "encodeVarintSize_loop val s =
     (if 128 \<le> val then encodeVarintSize_loop (drop_bit 7 val) (Suc s) else s)"
  by pat_completeness auto
termination
  by (relation "measure (\<lambda>(val, s). unat val)") (auto intro!: unat_drop_bit_less)

definition encodeVarintSize :: "bool \<Rightarrow> u64 \<Rightarrow> nat" where
  "encodeVarintSize kIsArchAmd64 val =
     (if kIsArchAmd64 then
        (let highBit = 64 - builtin_clzll (val OR 1) in (highBit + 6) div 7)
      else encodeVarintSize_loop val 1)"

datatype DecodeVarintError = TooManyBytes | TooFewBytes

text \<open>
  The bytes are read as \<open>int8_t\<close>, so \<open>b >= 0\<close> is \<open>0 \<le>s b\<close> on the sign-extended value.
  The unrolled statements of the fast path differ only in their shift; they are the steps
  of a recursion over the list of shifts, with the tenth byte (which contributes one bit)
  in the base case. The caller guarantees ten bytes, so the empty input is never read.
\<close>

fun decodeVarint_fast :: "nat list \<Rightarrow> u64 \<Rightarrow> u8 list \<Rightarrow> (DecodeVarintError + u64 \<times> u8 list) option" where
  "decodeVarint_fast shifts val [] = None"
| "decodeVarint_fast [] val (x # p) =
     (let b = scast x :: u64;
          val = val OR push_bit 63 (b AND 0x01)
      in if 0 \<le>s b then Some (Inr (val, p)) else Some (Inl TooManyBytes))"
| "decodeVarint_fast (sh # shifts) val (x # p) =
     (let b = scast x :: u64;
          val = val OR push_bit sh (b AND 0x7f)
      in if 0 \<le>s b then Some (Inr (val, p)) else decodeVarint_fast shifts val p)"

fun decodeVarint_slow :: "nat \<Rightarrow> u64 \<Rightarrow> u8 list \<Rightarrow> DecodeVarintError + u64 \<times> u8 list" where
  "decodeVarint_slow shift val [] = Inl TooFewBytes"
| "decodeVarint_slow shift val (x # p) =
     (if x <s 0 then decodeVarint_slow (shift + 7) (val OR push_bit shift (ucast (x AND 0x7f))) p
      else Inr (val OR push_bit shift (scast x), p))"

definition tryDecodeVarint :: "u8 list \<Rightarrow> (DecodeVarintError + u64 \<times> u8 list) option" where
  "tryDecodeVarint data =
     (if kMaxVarintLength64 \<le> length data
      then decodeVarint_fast [0, 7, 14, 21, 28, 35, 42, 49, 56] 0 data
      else Some (decodeVarint_slow 0 0 data))"

text \<open>\<open>decodeVarint\<close> throws \<open>std::invalid_argument\<close> with one of two messages.\<close>

definition decodeVarint :: "u8 list \<Rightarrow> (string + u64 \<times> u8 list) option" where
  "decodeVarint data = map_option
     (\<lambda>expected. case expected of
        Inl e \<Rightarrow> Inl (if e = TooManyBytes then ''Invalid varint value: too many bytes.''
                      else ''Invalid varint value: too few bytes.'')
      | Inr r \<Rightarrow> Inr r)
     (tryDecodeVarint data)"

section \<open>Reference definitions\<close>

text \<open>The bytes of an encoding, and the value of a run of groups (little endian, base 128).\<close>

function varintBytes :: "u64 \<Rightarrow> u8 list" where
  "varintBytes val =
     (if 128 \<le> val then (0x80 OR ucast (val AND 0x7f)) # varintBytes (drop_bit 7 val)
      else [ucast val])"
  by pat_completeness auto
termination
  by (relation "measure unat") (auto intro!: unat_drop_bit_less)

definition varintValue :: "u8 list \<Rightarrow> u64" where
  "varintValue bs = foldr (\<lambda>b v. (ucast b AND 0x7f) OR push_bit 7 v) bs 0"

text \<open>Continuation bytes have their most significant bit set.\<close>

abbreviation continues :: "u8 \<Rightarrow> bool" where
  "continues b \<equiv> bit b 7"

definition varintSpec :: "u8 list \<Rightarrow> DecodeVarintError + u64 \<times> u8 list" where
  "varintSpec data =
     (let n = length (takeWhile (\<lambda>b. bit b 7) data) in
      if n < length data \<and> n < 10 then Inr (varintValue (take (Suc n) data), drop (Suc n) data)
      else Inl (if length data < 10 then TooFewBytes else TooManyBytes))"

declare encodeVarint.simps [simp del] encodeVarintSize_loop.simps [simp del]
  varintBytes.simps [simp del]

section \<open>Bytes and groups\<close>

lemma sless_0_continues: "(x :: u8) <s 0 \<longleftrightarrow> continues x"
  using bit_last_iff [of x] by (simp add: word_sless_alt)

lemma scast_sle_0_continues: "0 \<le>s (scast (x :: u8) :: u64) \<longleftrightarrow> \<not> continues x"
  using bit_last_iff [of "scast x :: u64"]
  by (simp add: word_sle_eq bit_simps not_le [symmetric])

lemma scast_group: "(scast (x :: u8) :: u64) AND 0x7f = ucast x AND 0x7f"
  unfolding mask_7_u64 by (rule bit_word_eqI) (auto simp: bit_simps)

lemma ucast_group: "(ucast (x AND 0x7f :: u8) :: u64) = ucast x AND 0x7f"
  unfolding mask_7_u64 mask_7_u8 by (rule bit_word_eqI) (auto simp: bit_simps)

lemma scast_final: "\<not> continues x \<Longrightarrow> (scast (x :: u8) :: u64) = ucast x AND 0x7f"
  unfolding mask_7_u64
  by (rule bit_word_eqI) (auto simp: bit_simps less_Suc_eq numeral_eq_Suc)

lemma varintValue_simps [simp]:
  "varintValue [] = 0"
  "varintValue (b # bs) = (ucast b AND 0x7f) OR push_bit 7 (varintValue bs)"
  by (simp_all add: varintValue_def)

section \<open>Both decoding paths compute the reference value\<close>

lemma push_group:
  "push_bit s (x OR push_bit 7 y) = push_bit s x OR push_bit (s + 7) (y :: u64)"
  by (simp add: push_bit_or add.commute)

lemma decodeVarint_slow_run:
  "list_all continues pre \<Longrightarrow> \<not> continues x \<Longrightarrow>
   decodeVarint_slow s v (pre @ x # r) = Inr (v OR push_bit s (varintValue (pre @ [x])), r)"
  by (induction pre arbitrary: s v)
    (simp_all add: sless_0_continues ucast_group scast_final push_group or.assoc)

lemma decodeVarint_slow_short:
  "list_all continues bs \<Longrightarrow> decodeVarint_slow s v bs = Inl TooFewBytes"
  by (induction bs arbitrary: s v) (simp_all add: sless_0_continues)

lemma push_bit_63_odd: "push_bit 63 (a :: u64) = push_bit 63 b" if "odd a = odd b"
proof (rule bit_word_eqI)
  fix n
  assume "n < LENGTH(64)"
  then show "bit (push_bit 63 a) n \<longleftrightarrow> bit (push_bit 63 b) n"
    using that by (cases "n = 63") (simp_all add: bit_simps bit_0)
qed

lemma last_group: "push_bit 63 ((scast (x :: u8) :: u64) AND 0x01) = push_bit 63 (ucast x AND 0x7f)"
  by (rule push_bit_63_odd) (simp add: bit_simps flip: bit_0)

lemma decodeVarint_fast_run:
  assumes "list_all continues pre" and "\<not> continues x" and "length pre + i \<le> 9"
  shows "decodeVarint_fast (map (\<lambda>k. 7 * k) [i..<9]) v (pre @ x # r)
    = Some (Inr (v OR push_bit (7 * i) (varintValue (pre @ [x])), r))"
  using assms
proof (induction pre arbitrary: i v)
  case Nil
  show ?case
  proof (cases "i = 9")
    case True
    then show ?thesis
      using Nil.prems by (simp add: scast_sle_0_continues last_group del: push_bit_and)
  next
    case False
    then have "[i..<9] = i # [Suc i..<9]"
      using Nil.prems by (simp add: upt_conv_Cons)
    then show ?thesis
      using Nil.prems by (simp add: scast_sle_0_continues scast_group del: push_bit_and)
  qed
next
  case (Cons b pre)
  have "[i..<9] = i # [Suc i..<9]"
    using Cons.prems by (simp add: upt_conv_Cons)
  then show ?case
    using Cons.prems Cons.IH [of "Suc i"]
    by (simp add: scast_sle_0_continues scast_group push_group or.assoc add.commute
        del: push_bit_and)
qed

lemma decodeVarint_fast_long:
  assumes "list_all continues bs" and "length bs + i = 10" and "i \<le> 9"
  shows "decodeVarint_fast (map (\<lambda>k. 7 * k) [i..<9]) v (bs @ r) = Some (Inl TooManyBytes)"
  using assms
proof (induction bs arbitrary: i v)
  case (Cons b bs)
  show ?case
  proof (cases "i = 9")
    case True
    then show ?thesis using Cons.prems by (simp add: scast_sle_0_continues)
  next
    case False
    then have "[i..<9] = i # [Suc i..<9]"
      using Cons.prems by (simp add: upt_conv_Cons)
    then show ?thesis
      using Cons.prems Cons.IH [of "Suc i"] False by (simp add: scast_sle_0_continues)
  qed
qed simp

lemma fast_shifts: "[0, 7, 14, 21, 28, 35, 42, 49, 56] = map (\<lambda>k. 7 * k) [0..<9::nat]"
  by (simp add: upt_conv_Cons)

lemma takeWhile_split:
  assumes "length (takeWhile P xs) < length xs"
  obtains x r where "xs = takeWhile P xs @ x # r" and "\<not> P x"
    and "x = xs ! length (takeWhile P xs)" and "r = drop (Suc (length (takeWhile P xs))) xs"
proof -
  obtain x r where d: "dropWhile P xs = x # r"
    using assms by (metis length_0_conv length_append less_not_refl neq_Nil_conv
      self_append_conv takeWhile_dropWhile_id)
  have xs: "xs = takeWhile P xs @ x # r"
    using takeWhile_dropWhile_id [of P xs] d by simp
  moreover have "\<not> P x"
    using d by (metis dropWhile_eq_Cons_conv)
  moreover have "drop (Suc (length (takeWhile P xs))) xs = r"
    by (subst (2) xs) simp
  moreover have "xs ! length (takeWhile P xs) = x"
    by (subst xs) simp
  ultimately show ?thesis using that by metis
qed

lemma list_all_takeWhile: "list_all P (takeWhile P xs)"
  by (auto simp: list_all_iff dest: set_takeWhileD)

lemma tryDecodeVarint_complete:
  assumes "list_all continues pre" and "\<not> continues x" and "length pre < 10"
  shows "tryDecodeVarint (pre @ x # r) = Some (Inr (varintValue (pre @ [x]), r))"
  unfolding tryDecodeVarint_def fast_shifts
  using decodeVarint_fast_run [OF assms(1,2), of 0 0 r]
    decodeVarint_slow_run [OF assms(1,2), of 0 0 r] assms(3)
  by simp

lemma tryDecodeVarint_short:
  "list_all continues bs \<Longrightarrow> length bs < 10 \<Longrightarrow> tryDecodeVarint bs = Some (Inl TooFewBytes)"
  by (simp add: tryDecodeVarint_def kMaxVarintLength64_def decodeVarint_slow_short)

lemma tryDecodeVarint_long:
  assumes "list_all continues pre" and "10 \<le> length pre"
  shows "tryDecodeVarint (pre @ r) = Some (Inl TooManyBytes)"
proof -
  have "list_all continues (take 10 pre)"
    using assms by (auto simp: list_all_iff dest: in_set_takeD)
  then have "decodeVarint_fast (map (\<lambda>k. 7 * k) [0..<9]) 0 (take 10 pre @ drop 10 pre @ r)
      = Some (Inl TooManyBytes)"
    using assms by (intro decodeVarint_fast_long) simp_all
  then show ?thesis
    unfolding tryDecodeVarint_def fast_shifts
    using assms by (simp add: kMaxVarintLength64_def flip: append_assoc)
qed

lemma tryDecodeVarint_spec: "tryDecodeVarint data = Some (varintSpec data)"
proof -
  define pre where "pre = takeWhile (\<lambda>b. continues b) data"
  have all: "list_all continues pre"
    by (simp add: pre_def list_all_takeWhile)
  consider (stop) x r where "data = pre @ x # r" "\<not> continues x" | (run) "data = pre"
  proof (cases "length pre < length data")
    case True
    then show ?thesis unfolding pre_def by (rule takeWhile_split) (metis pre_def stop)
  next
    case False
    then show ?thesis
      unfolding pre_def by (metis length_takeWhile_le not_le pre_def run takeWhile_eq_take take_all)
  qed
  then show ?thesis
  proof cases
    case stop
    have "takeWhile (\<lambda>b. continues b) data = pre" by (simp add: pre_def)
    with stop all show ?thesis
      using tryDecodeVarint_complete [OF all stop(2), of r] tryDecodeVarint_long [OF all, of "x # r"]
      by (auto simp: varintSpec_def Let_def not_less)
  next
    case run
    then have tw: "length (takeWhile (\<lambda>b. continues b) data) = length data"
      by (simp add: pre_def)
    show ?thesis
      unfolding varintSpec_def Let_def tw
      using all run tryDecodeVarint_short [of data] tryDecodeVarint_long [of data "[]"]
      by (auto simp: not_less)
  qed
qed

section \<open>The encoder\<close>

lemma encodeVarint_write: "encodeVarint v s = write_bytes (varintBytes v) s"
proof (induction v s rule: encodeVarint.induct)
  case (1 v s)
  show ?case
  proof (cases "128 \<le> v")
    case True
    have "ucast (0x80 OR (v AND 0x7f)) = 0x80 OR (ucast (v AND 0x7f) :: u8)"
      by (rule bit_word_eqI) (simp add: bit_simps)
    with True show ?thesis
      using "1.IH" by (subst encodeVarint.simps, subst varintBytes.simps)
        (simp add: put_eq_write write_bytes_bind cong: Option.bind_cong)
  next
    case False
    then show ?thesis
      by (subst encodeVarint.simps, subst varintBytes.simps) (simp add: put_eq_write)
  qed
qed

lemma group_byte: "ucast (0x80 OR ucast (v AND 0x7f) :: u8) AND 0x7f = (v AND 0x7f :: u64)"
  unfolding mask_7_u64 by (rule bit_word_eqI) (auto simp: bit_simps numeral_eq_Suc less_Suc_eq)

lemma final_byte: "v < 128 \<Longrightarrow> ucast (ucast v :: u8) AND 0x7f = (v :: u64)"
proof -
  assume "v < 128"
  then have v: "v AND mask 7 = v" by (intro less_mask_eq) simp
  have "ucast (ucast v :: u8) AND mask 7 = v AND mask 7"
    by (rule bit_word_eqI) (auto simp: bit_simps)
  then show ?thesis by (simp only: mask_7_u64 v)
qed

lemma varintBytes_stop: "v < 128 \<Longrightarrow> varintBytes v = [ucast v]"
  by (subst varintBytes.simps) (auto dest: leD)

lemma varintBytes_step:
  "128 \<le> v \<Longrightarrow> varintBytes v = (0x80 OR ucast (v AND 0x7f)) # varintBytes (drop_bit 7 v)"
  by (subst varintBytes.simps) simp

lemma varintBytes_cases [case_names stop step]:
  assumes "\<And>v :: u64. v < 128 \<Longrightarrow> P v" and "\<And>v. 128 \<le> v \<Longrightarrow> P (drop_bit 7 v) \<Longrightarrow> P v"
  shows "P v"
  using assms by (induction v rule: varintBytes.induct) (meson not_le)

lemma varintBytes_run:
  "\<exists>pre x. varintBytes v = pre @ [x] \<and> list_all continues pre \<and> \<not> continues x"
proof (induction v rule: varintBytes_cases)
  case (stop v)
  then have "bit v 7 = bit (v AND mask 7) 7"
    by (subst less_mask_eq) simp_all
  then have "\<not> bit v 7" by (simp add: bit_simps)
  with stop show ?case by (auto simp: varintBytes_stop bit_simps)
next
  case (step v)
  then obtain pre x where "varintBytes (drop_bit 7 v) = pre @ [x]" "list_all continues pre" "\<not> continues x"
    by blast
  with step show ?case
    by (intro exI [of _ "(0x80 OR ucast (v AND 0x7f)) # pre"] exI [of _ x])
      (simp add: varintBytes_step bit_simps)
qed

lemma varintValue_varintBytes: "varintValue (varintBytes v) = v"
proof (induction v rule: varintBytes_cases)
  case (stop v)
  then show ?case by (simp add: varintBytes_stop final_byte)
next
  case (step v)
  then show ?case
    using low_bits_push_drop [of 0 v 7, folded mask_7_u64]
    by (simp add: varintBytes_step group_byte)
qed

section \<open>Sizes\<close>

lemma varintBytes_not_Nil [simp]: "varintBytes v \<noteq> []"
  by (subst varintBytes.simps) simp

lemma length_varintBytes_le_iff:
  "1 \<le> k \<Longrightarrow> length (varintBytes v) \<le> k \<longleftrightarrow> unat v < 2 ^ (7 * k)"
proof (induction v arbitrary: k rule: varintBytes_cases)
  case (stop v)
  have "(128 :: nat) = 2 ^ 7" by simp
  also have "\<dots> \<le> 2 ^ (7 * k)"
    using stop.prems by (intro power_increasing) simp_all
  finally show ?case
    using stop by (simp add: varintBytes_stop word_less_nat_alt)
next
  case (step v)
  show ?case
  proof (cases "k = 1")
    case True
    then show ?thesis
      using step.hyps by (simp add: varintBytes_step word_le_nat_alt)
  next
    case False
    with step.prems obtain j where k: "k = Suc j" and "1 \<le> j"
      by (metis One_nat_def Suc_le_D le_antisym not_less_eq_eq)
    then have "length (varintBytes v) \<le> k \<longleftrightarrow> unat (drop_bit 7 v) < 2 ^ (7 * j)"
      using step by (simp add: varintBytes_step)
    also have "\<dots> \<longleftrightarrow> unat v < 2 ^ (7 * k)"
      unfolding unat_drop_bit_eq k
      by (simp add: drop_bit_eq_div div_less_iff_less_mult power_add mult.commute)
    finally show ?thesis .
  qed
qed

lemma encodeVarintSize_loop_length:
  "encodeVarintSize_loop v (Suc s) = s + length (varintBytes v)"
proof (induction v arbitrary: s rule: varintBytes_cases)
  case (stop v)
  then show ?case
    by (subst encodeVarintSize_loop.simps) (auto simp: varintBytes_stop dest: leD)
next
  case (step v)
  then show ?case
    by (subst encodeVarintSize_loop.simps) (simp add: varintBytes_step)
qed

lemma unat_or_1_less_iff:
  assumes "1 \<le> k"
  shows "unat (v OR 1 :: u64) < 2 ^ k \<longleftrightarrow> unat v < 2 ^ k"
proof -
  have pow: "even ((2::nat) ^ k)" using assms by simp
  have "unat (v OR 1) = unat v + of_bool (even (unat v))"
    unfolding unsigned_or_eq using or_one_eq [of "unat v"] by simp
  moreover have "Suc (unat v) \<noteq> 2 ^ k" if "even (unat v)"
    using pow that by (metis even_Suc)
  ultimately show ?thesis by (cases "even (unat v)") auto
qed

lemma same_upper_bounds: "(\<And>k. 1 \<le> k \<Longrightarrow> a \<le> k \<longleftrightarrow> b \<le> k) \<Longrightarrow> 1 \<le> a \<Longrightarrow> 1 \<le> b \<Longrightarrow> a = (b::nat)"
  by (metis le_antisym le_refl)

lemma encodeVarintSize_length: "encodeVarintSize arch v = length (varintBytes v)"
proof (cases arch)
  case True
  define n where "n = bit_length (unat (v OR 1))"
  have "unat (v OR 1) \<noteq> 0"
    by (simp add: unat_eq_0 or_eq_0_iff)
  then have "1 \<le> n" unfolding n_def by (subst bit_length.simps) simp
  have "(n + 6) div 7 = length (varintBytes v)"
  proof (rule same_upper_bounds)
    fix k :: nat
    assume "1 \<le> k"
    have "(n + 6) div 7 \<le> k \<longleftrightarrow> n \<le> 7 * k" by auto
    also have "\<dots> \<longleftrightarrow> unat v < 2 ^ (7 * k)"
      unfolding n_def bit_length_le_iff using \<open>1 \<le> k\<close> by (intro unat_or_1_less_iff) simp
    also have "\<dots> \<longleftrightarrow> length (varintBytes v) \<le> k"
      using \<open>1 \<le> k\<close> by (simp add: length_varintBytes_le_iff)
    finally show "(n + 6) div 7 \<le> k \<longleftrightarrow> length (varintBytes v) \<le> k" .
  next
    show "1 \<le> (n + 6) div 7" using \<open>1 \<le> n\<close> by simp
  qed (simp add: Suc_le_eq)
  with True show ?thesis
    by (simp add: encodeVarintSize_def clz_bit_length n_def Let_def)
next
  case False
  then show ?thesis
    using encodeVarintSize_loop_length [of v 0] by (simp add: encodeVarintSize_def)
qed

section \<open>ZigZag\<close>

lemma bit_encodeZigZag:
  "n < 64 \<Longrightarrow> bit (encodeZigZag v) n \<longleftrightarrow> bit v 63 \<noteq> (0 < n \<and> bit v (n - 1))"
  unfolding encodeZigZag_def bit_xor_iff bit_push_bit_iff bit_signed_drop_bit_iff
  by (auto simp: Suc_le_eq)

lemma bit_minus_and_1: "bit (- (u AND 1) :: u64) n \<longleftrightarrow> n < 64 \<and> bit u 0"
  by (cases "bit u 0") (simp_all add: and_one_eq mod_2_eq_odd bit_0 bit_minus_1_iff)

lemma bit_decodeZigZag:
  "n < 64 \<Longrightarrow> bit (decodeZigZag u) n \<longleftrightarrow> bit u 0 \<noteq> bit u (Suc n)"
  unfolding decodeZigZag_def bit_xor_iff bit_drop_bit_eq bit_minus_and_1 by auto

lemma decode_encode_zigzag: "decodeZigZag (encodeZigZag v) = v"
proof (rule bit_word_eqI)
  fix n
  assume "n < LENGTH(64)"
  then show "bit (decodeZigZag (encodeZigZag v)) n \<longleftrightarrow> bit v n"
    by (cases "n = 63") (auto simp: bit_decodeZigZag bit_encodeZigZag dest: bit_imp_le_length)
qed

lemma encode_decode_zigzag: "encodeZigZag (decodeZigZag u) = u"
proof (rule bit_word_eqI)
  fix n
  assume "n < LENGTH(64)"
  then show "bit (encodeZigZag (decodeZigZag u)) n \<longleftrightarrow> bit u n"
    by (cases n) (auto simp: bit_decodeZigZag bit_encodeZigZag dest: bit_imp_le_length)
qed

lemma encodeZigZag_arith:
  "encodeZigZag v = word_of_int (if 0 \<le> sint v then 2 * sint v else - 2 * sint v - 1)"
proof -
  have sgn: "bit v 63 \<longleftrightarrow> sint v < 0" using bit_last_iff [of v] by simp
  have "encodeZigZag v = (if bit v 63 then NOT (push_bit 1 v) else push_bit 1 v)"
    by (rule bit_word_eqI) (auto simp: bit_encodeZigZag bit_not_iff bit_push_bit_iff Suc_le_eq
      simp del: push_bit_Suc)
  also have "\<dots> = (if 0 \<le> sint v then 2 * v else - 2 * v - 1)"
    unfolding sgn by (auto simp: push_bit_eq_mult not_eq_complement)
  also have "\<dots> = word_of_int (if 0 \<le> sint v then 2 * sint v else - 2 * sint v - 1)"
    by (simp add: of_int_sint)
  finally show ?thesis .
qed

lemma uint_encodeZigZag:
  "uint (encodeZigZag v) = (if 0 \<le> sint v then 2 * sint v else - 2 * sint v - 1)"
proof -
  have "sint v < 2 ^ 63" "- (2 ^ 63) \<le> sint v"
    using sint_lt [of v] sint_ge [of v] by simp_all
  then show ?thesis
    unfolding encodeZigZag_arith by (simp add: uint_word_of_int_eq take_bit_int_eq_self)
qed

section \<open>The codec contract\<close>

abbreviation readVarint :: "u8 list \<Rightarrow> DecodeVarintError + u64 \<times> u8 list" where
  "readVarint bs \<equiv> the (tryDecodeVarint bs)"

lemma length_varintBytes_le_10: "length (varintBytes v) \<le> 10"
proof -
  have "unat v < 2 ^ LENGTH(64)" by (rule unsigned_less)
  also have "\<dots> \<le> 2 ^ (7 * 10)" by simp
  finally show ?thesis by (simp only: length_varintBytes_le_iff)
qed

lemma tryDecodeVarint_varintBytes: "tryDecodeVarint (varintBytes v @ r) = Some (Inr (v, r))"
proof -
  obtain pre x where b: "varintBytes v = pre @ [x]" and "list_all continues pre" "\<not> continues x"
    using varintBytes_run by blast
  moreover have "length pre < 10"
    using length_varintBytes_le_10 [of v] by (simp add: b)
  ultimately show ?thesis
    using tryDecodeVarint_complete [of pre x r] varintValue_varintBytes [of v] by simp
qed

interpretation varint: prefix_codec varintBytes readVarint "\<lambda>_. True"
  by unfold_locales (simp add: tryDecodeVarint_varintBytes)

section \<open>Properties\<close>

text \<open>
  C8. \<open>encodeVarint\<close> into a buffer of at least \<open>kMaxVarintLength64\<close> bytes stays inside it,
  writes exactly \<open>encodeVarintSize\<close> bytes and leaves the rest of the buffer alone, and
  \<open>tryDecodeVarint\<close> on those bytes, whatever follows them, returns the value and advances
  to what follows.
\<close>

theorem varint_roundtrip:
  assumes "kMaxVarintLength64 \<le> length buf"
  shows "\<exists>buf' n. encodeVarint v (buf, 0) = Some (buf', n)
    \<and> n = encodeVarintSize arch v \<and> length buf' = length buf \<and> drop n buf' = drop n buf
    \<and> tryDecodeVarint (take n buf' @ rest) = Some (Inr (v, rest))"
proof -
  have "length (varintBytes v) \<le> length buf"
    using assms length_varintBytes_le_10 [of v] by (simp add: kMaxVarintLength64_def)
  then obtain buf' n where w: "write_bytes (varintBytes v) (buf, 0) = Some (buf', n)"
    by (simp add: write_bytes_def)
  note d = write_bytes_SomeD [OF w]
  show ?thesis
    using w d tryDecodeVarint_varintBytes [of v rest]
    by (intro exI [of _ buf'] exI [of _ n]) (simp add: encodeVarint_write encodeVarintSize_length)
qed

theorem varint_roundtrip_witness:
  "kMaxVarintLength64 \<le> length (replicate 10 (0::u8)) \<and>
   (\<exists>buf' n. encodeVarint 300 (replicate 10 0, 0) = Some (buf', n)
    \<and> n = encodeVarintSize True 300 \<and> length buf' = length (replicate 10 (0::u8))
    \<and> drop n buf' = drop n (replicate 10 0)
    \<and> tryDecodeVarint (take n buf' @ [7]) = Some (Inr (300, [7])))"
proof -
  have h: "kMaxVarintLength64 \<le> length (replicate 10 (0::u8))"
    by (simp add: kMaxVarintLength64_def)
  show ?thesis
    using h varint_roundtrip [OF h, of 300 True "[7]"] by blast
qed

text \<open>
  C18. On every input, \<open>tryDecodeVarint\<close> (the unrolled fast path for ten or more bytes and
  the loop for fewer) agrees with the reference reading: the bytes up to and including the
  first one without the continuation bit give the value in base 128, little endian, and are
  consumed; with no such byte among the first ten the error is \<open>TooManyBytes\<close>, or
  \<open>TooFewBytes\<close> when fewer than ten bytes are there. No byte outside the range is read.
\<close>

theorem varint_decode_spec: "tryDecodeVarint data = Some (varintSpec data)"
  by (rule tryDecodeVarint_spec)

text \<open>
  The two implementations of \<open>encodeVarintSize\<close> agree, the result is the number of
  7-bit groups of the value (at least one), and it is at most \<open>kMaxVarintLength64\<close>, or
  \<open>kMaxVarintLength32\<close> for a 32-bit value.
\<close>

theorem varint_size_bounds:
  "encodeVarintSize True v = encodeVarintSize False v
   \<and> 1 \<le> encodeVarintSize arch v \<and> encodeVarintSize arch v \<le> kMaxVarintLength64
   \<and> (unat v < 2 ^ 32 \<longrightarrow> encodeVarintSize arch v \<le> kMaxVarintLength32)
   \<and> (\<forall>k \<ge> 1. encodeVarintSize arch v \<le> k \<longleftrightarrow> unat v < 2 ^ (7 * k))"
  using length_varintBytes_le_10 [of v] length_varintBytes_le_iff [of 5 v]
  by (auto simp: encodeVarintSize_length kMaxVarintLength64_def kMaxVarintLength32_def
      length_varintBytes_le_iff Suc_le_eq)

theorem varint_size_bounds_witness:
  "unat (300 :: u64) < 2 ^ 32 \<and> encodeVarintSize True 300 \<le> kMaxVarintLength32
   \<and> (encodeVarintSize True 300 \<le> 2 \<longleftrightarrow> unat (300 :: u64) < 2 ^ (7 * 2))"
proof -
  have h: "unat (300 :: u64) < 2 ^ 32" by simp
  have k: "1 \<le> (2 :: nat)" by simp
  show ?thesis using h k varint_size_bounds [of 300 True] by blast
qed

text \<open>
  ZigZag maps signed to unsigned values and back without loss in both directions, and
  the unsigned image of \<open>x\<close> is \<open>2 * x\<close> for \<open>x >= 0\<close> and \<open>-2 * x - 1\<close> for \<open>x < 0\<close>, as the
  header's comment states.
\<close>

theorem zigzag_bijection:
  "decodeZigZag (encodeZigZag v) = v \<and> encodeZigZag (decodeZigZag u) = u
   \<and> uint (encodeZigZag v) = (if 0 \<le> sint v then 2 * sint v else - 2 * sint v - 1)"
  by (simp only: decode_encode_zigzag encode_decode_zigzag uint_encodeZigZag simp_thms)

end
