(* ===== verification/Unicode.thy ===== *)
theory Unicode
  imports Folly_Prelude Codec
begin

text \<open>
  UTF-8 and UTF-16 surrogates, \<open>folly/Unicode.h\<close> and \<open>folly/Unicode.cpp\<close>: encoding a
  code point, decoding one code point with or without error skipping, and combining a
  surrogate pair.
\<close>

section \<open>Definitions\<close>

definition utf16_code_unit_is_bmp :: "u16 \<Rightarrow> bool" where
  "utf16_code_unit_is_bmp c \<longleftrightarrow> c < 0xd800 \<or> c \<ge> 0xe000"

definition utf16_code_unit_is_high_surrogate :: "u16 \<Rightarrow> bool" where
  "utf16_code_unit_is_high_surrogate c \<longleftrightarrow> c \<ge> 0xd800 \<and> c < 0xdc00"

definition utf16_code_unit_is_low_surrogate :: "u16 \<Rightarrow> bool" where
  "utf16_code_unit_is_low_surrogate c \<longleftrightarrow> c \<ge> 0xdc00 \<and> c < 0xe000"

text \<open>The error value is the message of the \<open>unicode_error\<close> thrown.\<close>

definition unicode_code_point_from_utf16_surrogate_pair :: "u16 \<Rightarrow> u16 \<Rightarrow> string + u32" where
  "unicode_code_point_from_utf16_surrogate_pair high low =
     (if \<not> utf16_code_unit_is_high_surrogate high then Inl ''invalid high surrogate''
      else if \<not> utf16_code_unit_is_low_surrogate low then Inl ''invalid low surrogate''
      else Inr (0x10000 + push_bit 10 (ucast high AND 0x3ff) + (ucast low AND 0x3ff)))"

text \<open>
  \<open>codePointToUtf8Impl\<close> calls its argument with the bytes, or not at all for a value above
  the last code point.
\<close>

definition codePointToUtf8Impl :: "u32 \<Rightarrow> (u8 list \<Rightarrow> 'a \<Rightarrow> 'a) \<Rightarrow> 'a \<Rightarrow> 'a" where
  "codePointToUtf8Impl cp f s =
     (if cp \<le> 0x7f then f [ucast cp] s
      else if cp \<le> 0x7FF then
        f [ucast (0xC0 OR drop_bit 6 cp), ucast (0x80 OR (0x3f AND cp))] s
      else if cp \<le> 0xFFFF then
        f [ucast (0xE0 OR drop_bit 12 cp), ucast (0x80 OR (0x3f AND drop_bit 6 cp)),
           ucast (0x80 OR (0x3f AND cp))] s
      else if cp \<le> 0x10FFFF then
        f [ucast (0xF0 OR drop_bit 18 cp), ucast (0x80 OR (0x3f AND drop_bit 12 cp)),
           ucast (0x80 OR (0x3f AND drop_bit 6 cp)), ucast (0x80 OR (0x3f AND cp))] s
      else s)"

definition codePointToUtf8 :: "u32 \<Rightarrow> u8 list" where
  "codePointToUtf8 cp = codePointToUtf8Impl cp (\<lambda>data result. data) []"

definition appendCodePointToUtf8 :: "u32 \<Rightarrow> u8 list \<Rightarrow> u8 list" where
  "appendCodePointToUtf8 cp out = codePointToUtf8Impl cp (\<lambda>data out. out @ data) out"

text \<open>
  \<open>utf8ToCodePoint\<close>: the range is a byte list and \<open>p\<close> an index into it (\<open>e\<close> is its
  length). An error names the message thrown with the numbers it prints.
\<close>

datatype Utf8Error =
    Utf8Empty
  | Utf8Lead u32
  | Utf8Continuation nat u32
  | Utf8Code nat u32
  | Utf8TooLarge
  | Utf8MaxedOut

text \<open>Every error site either skips one byte, returning U+FFFD, or throws.\<close>

definition skipOrThrow :: "bool \<Rightarrow> nat \<Rightarrow> Utf8Error \<Rightarrow> Utf8Error + u32 \<times> nat" where
  "skipOrThrow skipOnError p err = (if skipOnError then Inr (0xfffd, p + 1) else Inl err)"

definition bitMask :: "u32 list" where
  "bitMask = [push_bit 7 1 - 1, push_bit 11 1 - 1, push_bit 16 1 - 1, push_bit 21 1 - 1]"

function utf8ToCodePoint_loop ::
  "u8 list \<Rightarrow> nat \<Rightarrow> bool \<Rightarrow> nat \<Rightarrow> u32 \<Rightarrow> u8 \<Rightarrow> Utf8Error + u32 \<times> nat" where
  "utf8ToCodePoint_loop s p skipOnError i d fstb =
     (if i \<noteq> 4 \<and> p + i < length s then
        (let tmp = s ! (p + i) in
         if tmp AND 0xC0 \<noteq> 0x80 then skipOrThrow skipOnError p (Utf8Continuation i (ucast tmp))
         else
           (let d = push_bit 6 d OR ucast (tmp AND 0x3F);
                fstb = push_bit 1 fstb in
            if fstb AND 0x80 = 0 then
              (let d = d AND bitMask ! i in
               if d AND NOT (bitMask ! (i - 1)) = 0 then skipOrThrow skipOnError p (Utf8Code i d)
               else if i = 2 \<and> d \<ge> 0xD800 \<and> d \<le> 0xDFFF
                 then skipOrThrow skipOnError p (Utf8Code i d)
               else if d > 0x10FFFF then skipOrThrow skipOnError p Utf8TooLarge
               else Inr (d, p + i + 1))
            else utf8ToCodePoint_loop s p skipOnError (i + 1) d fstb))
      else skipOrThrow skipOnError p Utf8MaxedOut)"
  by pat_completeness auto
termination
  by (relation "measure (\<lambda>(s, p, skipOnError, i, d, fstb). length s - i)") auto

definition utf8ToCodePoint :: "u8 list \<Rightarrow> nat \<Rightarrow> bool \<Rightarrow> Utf8Error + u32 \<times> nat" where
  "utf8ToCodePoint s p skipOnError =
     (if p \<ge> length s then skipOrThrow skipOnError p Utf8Empty
      else
        (let fstb = s ! p in
         if fstb AND 0x80 = 0 then Inr (ucast fstb, p + 1)
         else if fstb AND 0xC0 \<noteq> 0xC0 then skipOrThrow skipOnError p (Utf8Lead (ucast fstb))
         else utf8ToCodePoint_loop s p skipOnError 1 (ucast fstb) (push_bit 1 fstb)))"

section \<open>Reference definitions\<close>

text \<open>Unicode scalar values: code points that are not surrogates.\<close>

definition scalarValue :: "u32 \<Rightarrow> bool" where
  "scalarValue cp \<longleftrightarrow> cp \<le> 0x10FFFF \<and> \<not> (0xD800 \<le> cp \<and> cp \<le> 0xDFFF)"

text \<open>Reading one code point from the front of a byte list.\<close>

definition readUtf8 :: "u8 list \<Rightarrow> Utf8Error + u32 \<times> u8 list" where
  "readUtf8 s = (case utf8ToCodePoint s 0 False of
     Inl e \<Rightarrow> Inl e | Inr (cp, p) \<Rightarrow> Inr (cp, drop p s))"

declare utf8ToCodePoint_loop.simps [simp del]

section \<open>Bits of the constants\<close>

lemma bit_utf8_consts:
  "bit (0x3f :: int) n \<longleftrightarrow> n < 6"
  "bit (0x80 :: int) n \<longleftrightarrow> n = 7" "bit (0xC0 :: int) n \<longleftrightarrow> 6 \<le> n \<and> n < 8"
  "bit (0xE0 :: int) n \<longleftrightarrow> 5 \<le> n \<and> n < 8" "bit (0xF0 :: int) n \<longleftrightarrow> 4 \<le> n \<and> n < 8"
proof -
  have eqs: "(0x3f :: int) = mask 6" "(0x80 :: int) = push_bit 7 (mask 1)"
    "(0xC0 :: int) = push_bit 6 (mask 2)" "(0xE0 :: int) = push_bit 5 (mask 3)"
    "(0xF0 :: int) = push_bit 4 (mask 4)"
    by (simp_all add: mask_numeral)
  show "bit (0x3f :: int) n \<longleftrightarrow> n < 6"
    "bit (0x80 :: int) n \<longleftrightarrow> n = 7" "bit (0xC0 :: int) n \<longleftrightarrow> 6 \<le> n \<and> n < 8"
    "bit (0xE0 :: int) n \<longleftrightarrow> 5 \<le> n \<and> n < 8" "bit (0xF0 :: int) n \<longleftrightarrow> 4 \<le> n \<and> n < 8"
    unfolding eqs bit_push_bit_iff bit_mask_iff by auto
qed

lemma bitMask_nth:
  "bitMask ! 0 = mask 7" "bitMask ! 1 = mask 11" "bitMask ! 2 = mask 16" "bitMask ! 3 = mask 21"
  by (simp_all add: bitMask_def mask_numeral)

lemma continuation_iff: "(x :: u8) AND 0xC0 = 0x80 \<longleftrightarrow> bit x 7 \<and> \<not> bit x 6"
  unfolding u8_eq_iff by (auto simp: bit_and_iff)

lemma lead_iff: "(x :: u8) AND 0xC0 = 0xC0 \<longleftrightarrow> bit x 7 \<and> bit x 6"
  unfolding u8_eq_iff by (auto simp: bit_and_iff)

lemma and_0x80_iff: "(x :: u8) AND 0x80 = 0 \<longleftrightarrow> \<not> bit x 7"
  unfolding u8_eq_iff by (auto simp: bit_and_iff)

lemma not_bit_of_less:
  "x < 2 ^ k \<Longrightarrow> k \<le> n \<Longrightarrow> \<not> bit (x :: 'a::len word) n"
  using less_mask_eq [of x k] by (metis bit_and_iff bit_mask_iff not_le)

lemma and_not_mask_eq_0_iff:
  assumes "k < LENGTH('a)"
  shows "(x :: 'a::len word) AND NOT (mask k) = 0 \<longleftrightarrow> x < 2 ^ k"
proof
  assume *: "x AND NOT (mask k) = 0"
  have "x = x AND mask k"
  proof (rule bit_word_eqI)
    fix n
    assume "n < LENGTH('a)"
    then show "bit x n = bit (x AND mask k) n"
      using arg_cong [OF *, of "\<lambda>w. bit w n"] by (auto simp: bit_simps)
  qed
  then show "x < 2 ^ k"
    using and_mask_less' [OF assms, of x] by simp
next
  assume "x < 2 ^ k"
  then show "x AND NOT (mask k) = 0"
    by (intro bit_word_eqI) (auto simp: bit_simps, meson leI not_bit_of_less)
qed

section \<open>What the decoder accepts\<close>

abbreviation trailing :: "u8 \<Rightarrow> bool" where
  "trailing x \<equiv> bit x 7 \<and> \<not> bit x 6"

text \<open>The checks on the last byte of an encoding of \<open>i + 1\<close> bytes, and the step to the next byte.\<close>

definition utf8_finish :: "bool \<Rightarrow> nat \<Rightarrow> nat \<Rightarrow> u32 \<Rightarrow> Utf8Error + u32 \<times> nat" where
  "utf8_finish skipOnError p i d =
     (if d AND NOT (bitMask ! (i - 1)) = 0 then skipOrThrow skipOnError p (Utf8Code i d)
      else if i = 2 \<and> d \<ge> 0xD800 \<and> d \<le> 0xDFFF then skipOrThrow skipOnError p (Utf8Code i d)
      else if d > 0x10FFFF then skipOrThrow skipOnError p Utf8TooLarge
      else Inr (d, p + i + 1))"

definition utf8_group :: "u32 \<Rightarrow> u8 \<Rightarrow> u32" where
  "utf8_group d x = push_bit 6 d OR ucast (x AND 0x3F)"

lemma utf8_loop_step:
  assumes "1 \<le> i" and "i \<le> 3"
  shows "utf8ToCodePoint_loop s p sk i d (push_bit i f) =
    (if p + i < length s then
       if trailing (s ! (p + i)) then
         if bit f (6 - i)
         then utf8ToCodePoint_loop s p sk (Suc i) (utf8_group d (s ! (p + i))) (push_bit (Suc i) f)
         else utf8_finish sk p i (utf8_group d (s ! (p + i)) AND bitMask ! i)
       else skipOrThrow sk p (Utf8Continuation i (ucast (s ! (p + i))))
     else skipOrThrow sk p Utf8MaxedOut)"
proof -
  have "push_bit 1 (push_bit i f) = push_bit (Suc i) f"
    by (simp only: push_bit_push_bit plus_1_eq_Suc)
  moreover have "bit (push_bit (Suc i) f) 7 = bit f (6 - i)"
    unfolding bit_push_bit_iff using assms by auto
  ultimately show ?thesis
    using assms
    by (subst utf8ToCodePoint_loop.simps)
      (simp add: and_0x80_iff continuation_iff Let_def utf8_finish_def utf8_group_def
        del: push_bit_Suc)
qed

lemma utf8_loop_4: "utf8ToCodePoint_loop s p sk 4 d f = skipOrThrow sk p Utf8MaxedOut"
  by (subst utf8ToCodePoint_loop.simps) simp

definition utf8_decode2 :: "u8 \<Rightarrow> u8 \<Rightarrow> u32" where
  "utf8_decode2 a b = utf8_group (ucast a) b AND mask 11"

definition utf8_decode3 :: "u8 \<Rightarrow> u8 \<Rightarrow> u8 \<Rightarrow> u32" where
  "utf8_decode3 a b c = utf8_group (utf8_group (ucast a) b) c AND mask 16"

definition utf8_decode4 :: "u8 \<Rightarrow> u8 \<Rightarrow> u8 \<Rightarrow> u8 \<Rightarrow> u32" where
  "utf8_decode4 a b c d = utf8_group (utf8_group (utf8_group (ucast a) b) c) d AND mask 21"

lemmas utf8_decode_defs = utf8_decode2_def utf8_decode3_def utf8_decode4_def utf8_group_def

lemma codePointToUtf8_cases:
  "cp \<le> 0x7f \<Longrightarrow> codePointToUtf8 cp = [ucast cp]"
  "0x7f < cp \<Longrightarrow> cp \<le> 0x7ff \<Longrightarrow>
   codePointToUtf8 cp = [ucast (0xC0 OR drop_bit 6 cp), ucast (0x80 OR (0x3f AND cp))]"
  "0x7ff < cp \<Longrightarrow> cp \<le> 0xffff \<Longrightarrow>
   codePointToUtf8 cp = [ucast (0xE0 OR drop_bit 12 cp), ucast (0x80 OR (0x3f AND drop_bit 6 cp)),
     ucast (0x80 OR (0x3f AND cp))]"
  "0xffff < cp \<Longrightarrow> cp \<le> 0x10ffff \<Longrightarrow>
   codePointToUtf8 cp = [ucast (0xF0 OR drop_bit 18 cp), ucast (0x80 OR (0x3f AND drop_bit 12 cp)),
     ucast (0x80 OR (0x3f AND drop_bit 6 cp)), ucast (0x80 OR (0x3f AND cp))]"
  by (auto simp: codePointToUtf8_def codePointToUtf8Impl_def word_le_nat_alt word_less_nat_alt)

subsection \<open>Bytes from the decoded value\<close>

lemma encode_decode2:
  assumes "bit a 7" "bit a 6" "\<not> bit a 5" "trailing b" and "0x7f < utf8_decode2 a b"
  shows "codePointToUtf8 (utf8_decode2 a b) = [a, b]"
proof -
  have "utf8_decode2 a b \<le> 0x7ff"
    using and_mask_less' [of 11 "utf8_group (ucast a) b"]
    by (simp add: utf8_decode2_def word_less_nat_alt word_le_nat_alt)
  then show ?thesis
    using assms
    by (simp only: codePointToUtf8_cases(2) u8_eq_iff list.inject simp_thms)
      (auto simp: utf8_decode_defs bit_simps)
qed

lemma encode_decode3:
  assumes "bit a 7" "bit a 6" "bit a 5" "\<not> bit a 4" "trailing b" "trailing c"
    and "0x7ff < utf8_decode3 a b c"
  shows "codePointToUtf8 (utf8_decode3 a b c) = [a, b, c]"
proof -
  have "utf8_decode3 a b c \<le> 0xffff"
    using and_mask_less' [of 16 "utf8_group (utf8_group (ucast a) b) c"]
    by (simp add: utf8_decode3_def word_less_nat_alt word_le_nat_alt)
  then show ?thesis
    using assms
    by (simp only: codePointToUtf8_cases(3) u8_eq_iff list.inject simp_thms)
      (auto simp: utf8_decode_defs bit_simps)
qed

lemma encode_decode4:
  assumes "bit a 7" "bit a 6" "bit a 5" "bit a 4" "\<not> bit a 3" "trailing b" "trailing c" "trailing d"
    and "0xffff < utf8_decode4 a b c d" and "utf8_decode4 a b c d \<le> 0x10ffff"
  shows "codePointToUtf8 (utf8_decode4 a b c d) = [a, b, c, d]"
  using assms
  by (simp only: codePointToUtf8_cases(4) u8_eq_iff list.inject simp_thms)
    (auto simp: utf8_decode_defs bit_simps)

subsection \<open>The decoded value from the bytes\<close>

lemma decode_encode2:
  assumes "cp \<le> 0x7ff"
  shows "utf8_decode2 (ucast (0xC0 OR drop_bit 6 cp)) (ucast (0x80 OR (0x3f AND cp))) = cp"
proof (rule bit_word_eqI)
  fix n
  assume "n < LENGTH(32)"
  have small: "\<not> bit cp n" if "11 \<le> n"
    using assms that by (intro not_bit_of_less [of _ 11]) (simp_all add: word_le_nat_alt word_less_nat_alt)
  show "bit (utf8_decode2 (ucast (0xC0 OR drop_bit 6 cp)) (ucast (0x80 OR (0x3f AND cp)))) n = bit cp n"
    using small
    by (cases "n < 6"; cases "n < 11") (auto simp: utf8_decode_defs bit_utf8_consts bit_simps)
qed

lemma decode_encode3:
  assumes "cp \<le> 0xffff"
  shows "utf8_decode3 (ucast (0xE0 OR drop_bit 12 cp)) (ucast (0x80 OR (0x3f AND drop_bit 6 cp)))
    (ucast (0x80 OR (0x3f AND cp))) = cp" (is "?d = cp")
proof (rule bit_word_eqI)
  fix n
  assume "n < LENGTH(32)"
  have small: "\<not> bit cp n" if "16 \<le> n"
    using assms that by (intro not_bit_of_less [of _ 16]) (simp_all add: word_le_nat_alt word_less_nat_alt)
  show "bit ?d n = bit cp n"
    using small
    by (cases "n < 6"; cases "n < 12"; cases "n < 16")
      (auto simp: utf8_decode_defs bit_utf8_consts bit_simps)
qed

lemma decode_encode4:
  assumes "cp \<le> 0x10ffff"
  shows "utf8_decode4 (ucast (0xF0 OR drop_bit 18 cp)) (ucast (0x80 OR (0x3f AND drop_bit 12 cp)))
    (ucast (0x80 OR (0x3f AND drop_bit 6 cp))) (ucast (0x80 OR (0x3f AND cp))) = cp" (is "?d = cp")
proof (rule bit_word_eqI)
  fix n
  assume "n < LENGTH(32)"
  have small: "\<not> bit cp n" if "21 \<le> n"
    using assms that by (intro not_bit_of_less [of _ 21]) (simp_all add: word_le_nat_alt word_less_nat_alt)
  show "bit ?d n = bit cp n"
    using small
    by (cases "n < 6"; cases "n < 12"; cases "n < 18"; cases "n < 21")
      (auto simp: utf8_decode_defs bit_utf8_consts bit_simps)
qed

section \<open>UTF-8 is a canonical codec\<close>

lemma utf8_finish_iff:
  "utf8_finish sk p 1 d = (if 0x7f < d \<and> d \<le> 0x10ffff then Inr (d, p + 2)
     else if d \<le> 0x7f then skipOrThrow sk p (Utf8Code 1 d) else skipOrThrow sk p Utf8TooLarge)"
  "utf8_finish sk p 2 d = (if 0x7ff < d \<and> scalarValue d then Inr (d, p + 3)
     else if d \<le> 0x7ff \<or> (0xD800 \<le> d \<and> d \<le> 0xDFFF) then skipOrThrow sk p (Utf8Code 2 d)
     else skipOrThrow sk p Utf8TooLarge)"
  "utf8_finish sk p 3 d = (if 0xffff < d \<and> d \<le> 0x10ffff then Inr (d, p + 4)
     else if d \<le> 0xffff then skipOrThrow sk p (Utf8Code 3 d) else skipOrThrow sk p Utf8TooLarge)"
proof -
  have small: "d < 2 ^ 7 \<longleftrightarrow> d \<le> 0x7f" "d < 2 ^ 11 \<longleftrightarrow> d \<le> 0x7ff" "d < 2 ^ 16 \<longleftrightarrow> d \<le> 0xffff"
    by (auto simp: word_le_nat_alt word_less_nat_alt)
  show "utf8_finish sk p 1 d = (if 0x7f < d \<and> d \<le> 0x10ffff then Inr (d, p + 2)
     else if d \<le> 0x7f then skipOrThrow sk p (Utf8Code 1 d) else skipOrThrow sk p Utf8TooLarge)"
    using and_not_mask_eq_0_iff [of 7 d] unfolding small
    by (auto simp: utf8_finish_def bitMask_nth not_less)
  show "utf8_finish sk p 2 d = (if 0x7ff < d \<and> scalarValue d then Inr (d, p + 3)
     else if d \<le> 0x7ff \<or> (0xD800 \<le> d \<and> d \<le> 0xDFFF) then skipOrThrow sk p (Utf8Code 2 d)
     else skipOrThrow sk p Utf8TooLarge)"
    using and_not_mask_eq_0_iff [of 11 d] unfolding small
    by (auto simp: utf8_finish_def bitMask_nth [simplified] not_less scalarValue_def not_le)
  show "utf8_finish sk p 3 d = (if 0xffff < d \<and> d \<le> 0x10ffff then Inr (d, p + 4)
     else if d \<le> 0xffff then skipOrThrow sk p (Utf8Code 3 d) else skipOrThrow sk p Utf8TooLarge)"
    using and_not_mask_eq_0_iff [of 16 d] unfolding small
    by (auto simp: utf8_finish_def bitMask_nth [simplified] not_less not_le)
qed

text \<open>The whole decoder as a decision on the lead byte.\<close>

lemma utf8ToCodePoint_lead:
  assumes "p < length s" and "f = s ! p"
  shows "utf8ToCodePoint s p sk =
    (if \<not> bit f 7 then Inr (ucast f, p + 1)
     else if \<not> bit f 6 then skipOrThrow sk p (Utf8Lead (ucast f))
     else utf8ToCodePoint_loop s p sk 1 (ucast f) (push_bit 1 f))"
  using assms lead_iff [of f] by (simp add: utf8ToCodePoint_def Let_def and_0x80_iff)

lemma utf8_loop_1: "utf8ToCodePoint_loop s p sk 1 d (push_bit 1 f) =
    (if p + 1 < length s then
       if trailing (s ! (p + 1)) then
         if bit f 5
         then utf8ToCodePoint_loop s p sk 2 (utf8_group d (s ! (p + 1))) (push_bit 2 f)
         else utf8_finish sk p 1 (utf8_group d (s ! (p + 1)) AND mask 11)
       else skipOrThrow sk p (Utf8Continuation 1 (ucast (s ! (p + 1))))
     else skipOrThrow sk p Utf8MaxedOut)"
  using utf8_loop_step [of 1 s p sk d f] 
  by (simp only: bitMask_nth) (simp add: numeral_2_eq_2 del: push_bit_Suc)

lemma utf8_loop_2: "utf8ToCodePoint_loop s p sk 2 d (push_bit 2 f) =
    (if p + 2 < length s then
       if trailing (s ! (p + 2)) then
         if bit f 4
         then utf8ToCodePoint_loop s p sk 3 (utf8_group d (s ! (p + 2))) (push_bit 3 f)
         else utf8_finish sk p 2 (utf8_group d (s ! (p + 2)) AND mask 16)
       else skipOrThrow sk p (Utf8Continuation 2 (ucast (s ! (p + 2))))
     else skipOrThrow sk p Utf8MaxedOut)"
  using utf8_loop_step [of 2 s p sk d f] by (simp only: bitMask_nth) simp

lemma utf8_loop_3: "utf8ToCodePoint_loop s p sk 3 d (push_bit 3 f) =
    (if p + 3 < length s then
       if trailing (s ! (p + 3)) then
         if bit f 3 then skipOrThrow sk p Utf8MaxedOut
         else utf8_finish sk p 3 (utf8_group d (s ! (p + 3)) AND mask 21)
       else skipOrThrow sk p (Utf8Continuation 3 (ucast (s ! (p + 3))))
     else skipOrThrow sk p Utf8MaxedOut)"
  using utf8_loop_step [of 3 s p sk d f] by (simp only: bitMask_nth) (simp add: utf8_loop_4)

lemma utf8_loop_1_success:
  assumes "utf8ToCodePoint_loop s p False 1 d (push_bit 1 f) = Inr r"
  shows "p + 1 < length s \<and> trailing (s ! (p + 1)) \<and>
    (if bit f 5 then utf8ToCodePoint_loop s p False 2 (utf8_group d (s ! (p + 1))) (push_bit 2 f)
     else utf8_finish False p 1 (utf8_group d (s ! (p + 1)) AND mask 11)) = Inr r"
  using assms unfolding utf8_loop_1 skipOrThrow_def by (simp only: sum.distinct if_False split: if_splits) simp_all

lemma utf8_loop_2_success:
  assumes "utf8ToCodePoint_loop s p False 2 d (push_bit 2 f) = Inr r"
  shows "p + 2 < length s \<and> trailing (s ! (p + 2)) \<and>
    (if bit f 4 then utf8ToCodePoint_loop s p False 3 (utf8_group d (s ! (p + 2))) (push_bit 3 f)
     else utf8_finish False p 2 (utf8_group d (s ! (p + 2)) AND mask 16)) = Inr r"
  using assms unfolding utf8_loop_2 skipOrThrow_def by (simp only: sum.distinct if_False split: if_splits) simp_all

lemma utf8_loop_3_success:
  assumes "utf8ToCodePoint_loop s p False 3 d (push_bit 3 f) = Inr r"
  shows "p + 3 < length s \<and> trailing (s ! (p + 3)) \<and> \<not> bit f 3 \<and>
    utf8_finish False p 3 (utf8_group d (s ! (p + 3)) AND mask 21) = Inr r"
  using assms unfolding utf8_loop_3 skipOrThrow_def by (simp only: sum.distinct if_False split: if_splits) simp_all

lemma utf8_finish_success:
  assumes "utf8_finish False p i d = Inr (cp, q)"
  shows "cp = d \<and> q = p + i + 1 \<and> cp \<le> 0x10ffff"
    "i = 1 \<Longrightarrow> 0x7f < cp" "i = 2 \<Longrightarrow> 0x7ff < cp \<and> scalarValue cp" "i = 3 \<Longrightarrow> 0xffff < cp"
  using assms utf8_finish_iff [of False p d]
  by (auto simp: utf8_finish_def skipOrThrow_def split: if_splits)

text \<open>A successful read, by the number of bytes consumed.\<close>

lemma utf8_success_cases:
  assumes "utf8ToCodePoint s p False = Inr (cp, q)"
  obtains (one) a where "p < length s" "a = s ! p" "\<not> bit a 7" "cp = ucast a" "q = p + 1"
  | (two) a b where "p + 1 < length s" "a = s ! p" "b = s ! (p + 1)" "bit a 7" "bit a 6" "\<not> bit a 5"
      "trailing b" "cp = utf8_decode2 a b" "0x7f < cp" "q = p + 2"
  | (three) a b c where "p + 2 < length s" "a = s ! p" "b = s ! (p + 1)" "c = s ! (p + 2)"
      "bit a 7" "bit a 6" "bit a 5" "\<not> bit a 4" "trailing b" "trailing c"
      "cp = utf8_decode3 a b c" "0x7ff < cp" "scalarValue cp" "q = p + 3"
  | (four) a b c d where "p + 3 < length s" "a = s ! p" "b = s ! (p + 1)" "c = s ! (p + 2)"
      "d = s ! (p + 3)" "bit a 7" "bit a 6" "bit a 5" "bit a 4" "\<not> bit a 3"
      "trailing b" "trailing c" "trailing d"
      "cp = utf8_decode4 a b c d" "0xffff < cp" "cp \<le> 0x10ffff" "q = p + 4"
proof -
  have p: "p < length s"
    using assms by (auto simp: utf8ToCodePoint_def skipOrThrow_def split: if_splits)
  note lead = assms [unfolded utf8ToCodePoint_lead [OF p refl] skipOrThrow_def]
  show ?thesis
  proof (cases "bit (s ! p) 7")
    case False
    then show ?thesis using lead one [OF p refl] by simp
  next
    case b7: True
    then have b6: "bit (s ! p) 6" using lead by (simp split: if_splits)
    have "utf8ToCodePoint_loop s p False 1 (ucast (s ! p)) (push_bit 1 (s ! p)) = Inr (cp, q)"
      using lead b7 b6 by simp
    note l1 = utf8_loop_1_success [OF this]
    show ?thesis
    proof (cases "bit (s ! p) 5")
      case False
      then have "utf8_finish False p 1 (utf8_decode2 (s ! p) (s ! (p + 1))) = Inr (cp, q)"
        using l1 by (simp add: utf8_decode2_def)
      note f = utf8_finish_success [OF this]
      show ?thesis
        using two [OF _ refl refl b7 b6 False] l1 f(1) f(2) by simp
    next
      case b5: True
      with l1 have "utf8ToCodePoint_loop s p False 2
        (utf8_group (ucast (s ! p)) (s ! (p + 1))) (push_bit 2 (s ! p)) = Inr (cp, q)" by simp
      note l2 = utf8_loop_2_success [OF this]
      show ?thesis
      proof (cases "bit (s ! p) 4")
        case False
        then have "utf8_finish False p 2 (utf8_decode3 (s ! p) (s ! (p + 1)) (s ! (p + 2))) = Inr (cp, q)"
          using l2 by (simp add: utf8_decode3_def)
        note f = utf8_finish_success [OF this]
        show ?thesis
          using three [OF _ refl refl refl b7 b6 b5 False] l1 l2 f(1) f(3) by simp
      next
        case b4: True
        with l2 have "utf8ToCodePoint_loop s p False 3
          (utf8_group (utf8_group (ucast (s ! p)) (s ! (p + 1))) (s ! (p + 2)))
          (push_bit 3 (s ! p)) = Inr (cp, q)" by simp
        note l3 = utf8_loop_3_success [OF this]
        then have "utf8_finish False p 3
          (utf8_decode4 (s ! p) (s ! (p + 1)) (s ! (p + 2)) (s ! (p + 3))) = Inr (cp, q)"
          by (simp add: utf8_decode4_def)
        note f = utf8_finish_success [OF this]
        show ?thesis
          using four [OF _ refl refl refl refl b7 b6 b5 b4] l1 l2 l3 f(1) f(4) by auto
      qed
    qed
  qed
qed

lemma nth_prefix:
  "p < length s \<Longrightarrow> drop p s = s ! p # drop (p + 1) s"
  "p + 1 < length s \<Longrightarrow> drop p s = s ! p # s ! (p + 1) # drop (p + 2) s"
  "p + 2 < length s \<Longrightarrow> drop p s = s ! p # s ! (p + 1) # s ! (p + 2) # drop (p + 3) s"
  "p + 3 < length s \<Longrightarrow>
   drop p s = s ! p # s ! (p + 1) # s ! (p + 2) # s ! (p + 3) # drop (p + 4) s"
  by (simp_all add: Cons_nth_drop_Suc eval_nat_numeral)

lemma scalarValue_small: "cp \<le> 0x7ff \<Longrightarrow> scalarValue cp"
  by (simp add: scalarValue_def word_le_nat_alt)

lemma ascii_byte: "\<not> bit (a :: u8) 7 \<Longrightarrow> (ucast a :: u32) \<le> 0x7f"
proof -
  assume "\<not> bit a 7"
  then have "a = a AND mask 7"
    by (simp add: u8_eq_iff bit_simps)
  then have "a < 128" using and_mask_less' [of 7 a] by simp
  then show ?thesis by (simp add: word_le_nat_alt word_less_nat_alt unat_ucast_up)
qed

lemma ucast_u8_u32 [simp]: "(ucast (ucast (a :: u8) :: u32) :: u8) = a"
  by (rule bit_word_eqI) (simp add: bit_simps)

lemma utf8_success_encoding:
  assumes "utf8ToCodePoint s p False = Inr (cp, q)"
  shows "scalarValue cp \<and> p < q \<and> q \<le> length s \<and> drop p s = codePointToUtf8 cp @ drop q s"
  using assms
proof (cases rule: utf8_success_cases)
  case (one a)
  then have "cp \<le> 0x7f" using ascii_byte by simp
  moreover from this have "scalarValue cp"
    by (intro scalarValue_small) (simp add: word_le_nat_alt)
  ultimately show ?thesis
    using one by (simp add: codePointToUtf8_cases nth_prefix(1))
next
  case (two a b)
  then have "cp \<le> 0x7ff"
    using and_mask_less' [of 11 "utf8_group (ucast a) b"]
    by (simp add: utf8_decode2_def word_less_nat_alt word_le_nat_alt)
  with two show ?thesis
    using encode_decode2 [of a b] nth_prefix(2) [of p s] scalarValue_small by simp
next
  case (three a b c)
  then show ?thesis
    using encode_decode3 [of a b c] nth_prefix(3) [of p s] by simp
next
  case (four a b c d)
  then have "scalarValue cp" by (simp add: scalarValue_def word_le_nat_alt word_less_nat_alt)
  with four show ?thesis
    using encode_decode4 [of a b c d] nth_prefix(4) [of p s] by simp
qed

lemma drop_append_nth:
  assumes "drop p s = xs @ r" and "i < length xs"
  shows "p + i < length s" "s ! (p + i) = xs ! i"
proof -
  have "length s - p = length xs + length r"
    using arg_cong [OF assms(1), of length] by simp
  with assms(2) show *: "p + i < length s" by simp
  have "s ! (p + i) = drop p s ! i" using * by simp
  then show "s ! (p + i) = xs ! i" using assms by (simp add: nth_append)
qed

lemma utf8_encoding_1:
  assumes "cp \<le> 0x7f" and "drop p s = ucast cp # r"
  shows "utf8ToCodePoint s p sk = Inr (cp, p + 1)"
proof -
  have cp: "cp < 2 ^ 7" using assms(1) by (simp add: word_le_nat_alt word_less_nat_alt)
  then have "ucast (ucast cp :: u8) = cp"
  proof (intro bit_word_eqI)
    fix n
    assume "n < LENGTH(32)"
    then show "bit (ucast (ucast cp :: u8) :: u32) n = bit cp n"
      using not_bit_of_less [OF cp, of n] by (cases "n < 7") (simp_all add: bit_simps)
  qed
  moreover have "\<not> bit (ucast cp :: u8) 7"
    using not_bit_of_less [OF cp, of 7] by (simp add: bit_simps)
  moreover have "p < length s" "s ! p = ucast cp"
    using drop_append_nth [of p s "[ucast cp]" r 0] assms(2) by simp_all
  ultimately show ?thesis by (simp add: utf8ToCodePoint_lead)
qed

lemma utf8_encoding_2:
  assumes "drop p s = a # b # r" "bit a 7" "bit a 6" "\<not> bit a 5" "trailing b"
  shows "utf8ToCodePoint s p sk = utf8_finish sk p 1 (utf8_decode2 a b)"
  using assms drop_append_nth [of p s "[a, b]" r 0] drop_append_nth [of p s "[a, b]" r 1]
  by (simp add: utf8ToCodePoint_lead utf8_loop_1 [simplified] utf8_decode2_def)

lemma utf8_encoding_3:
  assumes "drop p s = a # b # c # r" "bit a 7" "bit a 6" "bit a 5" "\<not> bit a 4"
    "trailing b" "trailing c"
  shows "utf8ToCodePoint s p sk = utf8_finish sk p 2 (utf8_decode3 a b c)"
  using assms drop_append_nth [of p s "[a, b, c]" r 0] drop_append_nth [of p s "[a, b, c]" r 1]
    drop_append_nth [of p s "[a, b, c]" r 2]
  by (simp add: utf8ToCodePoint_lead utf8_loop_1 [simplified] utf8_loop_2 [simplified] utf8_decode3_def)

lemma utf8_encoding_4:
  assumes "drop p s = a # b # c # d # r" "bit a 7" "bit a 6" "bit a 5" "bit a 4" "\<not> bit a 3"
    "trailing b" "trailing c" "trailing d"
  shows "utf8ToCodePoint s p sk = utf8_finish sk p 3 (utf8_decode4 a b c d)"
  using assms drop_append_nth [of p s "[a, b, c, d]" r 0] drop_append_nth [of p s "[a, b, c, d]" r 1]
    drop_append_nth [of p s "[a, b, c, d]" r 2] drop_append_nth [of p s "[a, b, c, d]" r 3]
  by (simp add: utf8ToCodePoint_lead utf8_loop_1 [simplified] utf8_loop_2 [simplified]
      utf8_loop_3 [simplified] utf8_decode4_def)

lemma utf8_encoding_success:
  assumes "scalarValue cp" and "drop p s = codePointToUtf8 cp @ r"
  shows "utf8ToCodePoint s p sk = Inr (cp, p + length (codePointToUtf8 cp))"
proof -
  have max: "cp \<le> 0x10ffff" using assms(1) by (simp add: scalarValue_def)
  consider "cp \<le> 0x7f" | "0x7f < cp" "cp \<le> 0x7ff" | "0x7ff < cp" "cp \<le> 0xffff"
    | "0xffff < cp" "cp \<le> 0x10ffff"
    using max by fastforce
  then show ?thesis
  proof cases
    case 1
    then show ?thesis
      using utf8_encoding_1 [of cp p s r] assms(2) by (simp add: codePointToUtf8_cases)
  next
    case 2
    then have "\<not> bit cp 11" 
      using not_bit_of_less [of cp 11 11] by (simp add: word_le_nat_alt word_less_nat_alt)
    then show ?thesis
      using 2 assms(2) decode_encode2 [OF 2(2)]
      by (simp add: codePointToUtf8_cases(2) bit_simps utf8_encoding_2 utf8_finish_iff [simplified] max)
  next
    case 3
    then have "\<not> bit cp 16" 
      using not_bit_of_less [of cp 16 16] by (simp add: word_le_nat_alt word_less_nat_alt)
    then show ?thesis
      using 3 assms decode_encode3 [OF 3(2)]
      by (simp add: codePointToUtf8_cases(3) bit_simps utf8_encoding_3 utf8_finish_iff [simplified] max)
  next
    case 4
    then have "\<not> bit cp 21"
      using not_bit_of_less [of cp 21 21] by (simp add: word_le_nat_alt word_less_nat_alt)
    then show ?thesis
      using 4 assms decode_encode4 [OF 4(2)]
      by (simp add: codePointToUtf8_cases(4) bit_simps utf8_encoding_4 utf8_finish_iff [simplified] max)
  qed
qed

interpretation utf8: canonical_codec codePointToUtf8 readUtf8 scalarValue
proof unfold_locales
  fix cp r
  assume "scalarValue cp"
  then show "readUtf8 (codePointToUtf8 cp @ r) = Inr (cp, r)"
    using utf8_encoding_success [of cp 0 "codePointToUtf8 cp @ r" r False]
    by (simp add: readUtf8_def)
next
  fix s cp r
  assume "readUtf8 s = Inr (cp, r)"
  then show "scalarValue cp \<and> s = codePointToUtf8 cp @ r"
    using utf8_success_encoding [of s 0 cp]
    by (auto simp: readUtf8_def split: sum.splits)
qed

text \<open>A skipping read takes the same successful path, and its only other outcome is the replacement.\<close>

lemma utf8_skip_eq:
  "utf8ToCodePoint s p True =
    (case utf8ToCodePoint s p False of Inl e \<Rightarrow> Inr (0xfffd, p + 1) | Inr r \<Rightarrow> Inr r)"
proof (cases "p < length s")
  case False
  then show ?thesis by (simp add: utf8ToCodePoint_def skipOrThrow_def)
next
  case True
  have fin: "utf8_finish True p i d =
      (case utf8_finish False p i d of Inl e \<Rightarrow> Inr (0xfffd, p + 1) | Inr r \<Rightarrow> Inr r)" for i d
    by (simp add: utf8_finish_def skipOrThrow_def)
  have l3: "utf8ToCodePoint_loop s p True 3 d (push_bit 3 f) =
      (case utf8ToCodePoint_loop s p False 3 d (push_bit 3 f) of
         Inl e \<Rightarrow> Inr (0xfffd, p + 1) | Inr r \<Rightarrow> Inr r)" for d f
    unfolding utf8_loop_3 fin by (simp add: skipOrThrow_def)
  have l2: "utf8ToCodePoint_loop s p True 2 d (push_bit 2 f) =
      (case utf8ToCodePoint_loop s p False 2 d (push_bit 2 f) of
         Inl e \<Rightarrow> Inr (0xfffd, p + 1) | Inr r \<Rightarrow> Inr r)" for d f
    unfolding utf8_loop_2 fin l3 by (simp add: skipOrThrow_def)
  have l1: "utf8ToCodePoint_loop s p True 1 d (push_bit 1 f) =
      (case utf8ToCodePoint_loop s p False 1 d (push_bit 1 f) of
         Inl e \<Rightarrow> Inr (0xfffd, p + 1) | Inr r \<Rightarrow> Inr r)" for d f
    unfolding utf8_loop_1 fin l2 by (simp add: skipOrThrow_def)
  show ?thesis
    unfolding utf8ToCodePoint_lead [OF True refl] l1 by (simp add: skipOrThrow_def)
qed

lemma surrogate_payload: "unat ((ucast (c :: u16) :: u32) AND 0x3ff) = unat c mod 0x400"
proof -
  have m: "(0x3ff :: u32) = mask 10" by (simp add: mask_numeral)
  show ?thesis
    unfolding m take_bit_eq_mask [symmetric] unsigned_take_bit_eq
    by (simp add: unat_ucast_up take_bit_eq_mod)
qed

lemma surrogate_pair_unat:
  assumes "0xd800 \<le> unat h" "unat h < 0xdc00" "0xdc00 \<le> unat l" "unat l < 0xe000"
  shows "unat (0x10000 + push_bit 10 (ucast (h :: u16) AND 0x3ff) + (ucast (l :: u16) AND 0x3ff) :: u32)
    = 0x10000 + (unat h - 0xd800) * 0x400 + (unat l - 0xdc00)"
proof -
  define a b where "a = unat h - 0xd800" and "b = unat l - 0xdc00"
  have ab: "a < 0x400" "b < 0x400" and hl: "unat h = 0xd800 + a" "unat l = 0xdc00 + b"
    using assms by (auto simp: a_def b_def)
  have mods: "(0xd800 + a) mod 0x400 = a" "(0xdc00 + b) mod 0x400 = b"
    using ab mod_mult_self4 [of "0x400" "0x36" a] mod_mult_self4 [of "0x400" "0x37" b] by simp_all
  have "ucast h AND 0x3ff = (of_nat a :: u32)" "ucast l AND 0x3ff = (of_nat b :: u32)"
    using surrogate_payload [of h] surrogate_payload [of l] ab
    by (simp_all add: hl mods word_unat_eq_iff unsigned_of_nat take_bit_nat_eq_self)
  then have "0x10000 + push_bit 10 (ucast h AND 0x3ff) + (ucast l AND 0x3ff)
      = (of_nat (0x10000 + a * 0x400 + b) :: u32)"
    by (simp add: push_bit_eq_mult)
  moreover have "0x10000 + a * 0x400 + b < 2 ^ LENGTH(32)" using ab by simp
  ultimately show ?thesis
    unfolding a_def [symmetric] b_def [symmetric] 
    by (simp only: unsigned_of_nat take_bit_nat_eq_self of_nat_id)
qed

section \<open>Properties\<close>

text \<open>
  C14. UTF-8 encoding and decoding are inverse on Unicode scalar values, in the strong
  sense: at any position of any byte string, with error skipping or not, the decoder
  returns a scalar value and the position after its encoding wherever the encoding of that
  scalar value starts.
\<close>

theorem utf8_decode_encode:
  assumes "scalarValue cp" and "drop p s = codePointToUtf8 cp @ rest"
  shows "utf8ToCodePoint s p skipOnError = Inr (cp, p + length (codePointToUtf8 cp))"
  using assms by (rule utf8_encoding_success)

theorem utf8_decode_encode_witness:
  "scalarValue 0x20AC \<and> drop 1 [0x41, 0xE2, 0x82, 0xAC, 0x42] = codePointToUtf8 0x20AC @ [0x42]
   \<and> utf8ToCodePoint [0x41, 0xE2, 0x82, 0xAC, 0x42] 1 False
       = Inr (0x20AC, 1 + length (codePointToUtf8 0x20AC))"
proof -
  have h: "scalarValue 0x20AC" by (simp add: scalarValue_def)
  have d: "drop 1 [0x41, 0xE2, 0x82, 0xAC, 0x42] = codePointToUtf8 0x20AC @ [0x42]"
    by (simp add: codePointToUtf8_def codePointToUtf8Impl_def)
  show ?thesis using h d utf8_decode_encode [OF h d, of False] by blast
qed

text \<open>
  C21. The throwing decoder is strict: whenever it returns, the value is a scalar value (no
  surrogate, nothing above U+10FFFF) and the bytes it consumed are exactly the canonical
  encoding of that value, so overlong forms, stray or missing continuation bytes and
  five- or six-byte forms are all rejected; it never reads past the end of the string.
\<close>

theorem utf8_decode_strict:
  assumes "utf8ToCodePoint s p False = Inr (cp, q)"
  shows "scalarValue cp \<and> p < q \<and> q \<le> length s \<and> drop p s = codePointToUtf8 cp @ drop q s"
  using assms by (rule utf8_success_encoding)

theorem utf8_decode_strict_witness:
  "utf8ToCodePoint [0xC3, 0xA9, 0x42] 0 False = Inr (0xE9, 2)
   \<and> drop 0 [0xC3, 0xA9, 0x42] = codePointToUtf8 0xE9 @ drop 2 [0xC3, 0xA9, 0x42]"
proof -
  have h: "utf8ToCodePoint [0xC3, 0xA9, 0x42] 0 False = Inr (0xE9, 2)"
    by (simp add: utf8ToCodePoint_def utf8ToCodePoint_loop.simps bitMask_def Let_def)
  show ?thesis using h utf8_decode_strict [OF h] by blast
qed

text \<open>
  With \<open>skipOnError\<close> the decoder never throws: it returns what the throwing decoder
  returns, or U+FFFD having skipped one byte where that one throws. The value returned is
  always a scalar value and the position always advances, so a loop over a string ends;
  the new position is inside the string unless the read started at or past its end, where
  \<open>p\<close> is moved one past it all the same.
\<close>

theorem utf8_skip_total:
  "\<exists>cp q. utf8ToCodePoint s p True = Inr (cp, q) \<and> scalarValue cp \<and> p < q
     \<and> (if p < length s then q \<le> length s else q = p + 1)
     \<and> (if utf8ToCodePoint s p False = Inr (cp, q) then True
        else cp = 0xfffd \<and> q = p + 1)"
proof (cases "utf8ToCodePoint s p False")
  case (Inl e)
  then show ?thesis
    by (simp add: utf8_skip_eq scalarValue_def)
next
  case (Inr r)
  then obtain cp q where r: "utf8ToCodePoint s p False = Inr (cp, q)" by (cases r) simp
  note utf8_success_encoding [OF r]
  with r show ?thesis by (auto simp: utf8_skip_eq)
qed

text \<open>
  A surrogate pair is combined into a supplementary code point: the function returns a
  value exactly when the two code units are a high and a low surrogate, and that value is
  the UTF-16 reading of the pair, a scalar value from U+10000 to U+10FFFF.
\<close>

theorem surrogate_pair_value:
  "(case unicode_code_point_from_utf16_surrogate_pair h l of
      Inl _ \<Rightarrow> \<not> (0xd800 \<le> unat h \<and> unat h < 0xdc00 \<and> 0xdc00 \<le> unat l \<and> unat l < 0xe000)
    | Inr cp \<Rightarrow> 0xd800 \<le> unat h \<and> unat h < 0xdc00 \<and> 0xdc00 \<le> unat l \<and> unat l < 0xe000
        \<and> unat cp = 0x10000 + (unat h - 0xd800) * 0x400 + (unat l - 0xdc00)
        \<and> 0x10000 \<le> unat cp \<and> scalarValue cp)"
  using surrogate_pair_unat [of h l]
  by (auto simp: unicode_code_point_from_utf16_surrogate_pair_def scalarValue_def
      utf16_code_unit_is_high_surrogate_def utf16_code_unit_is_low_surrogate_def
      word_le_nat_alt word_less_nat_alt)

end
