(* ===== verification/Base64.thy ===== *)
theory Base64
  imports Folly_Prelude Codec
begin

text \<open>
  Base64, the portable scalar code: alphabets and decode tables
  (\<open>Base64Constants.h\<close>), size computations (\<open>Base64Common.h\<close>), and the scalar encoder and
  decoders for the standard and the URL alphabet (\<open>Base64Scalar.h\<close>), all under
  \<open>folly/detail/base64_detail\<close>.

  An input range \<open>[f, l)\<close> is the list of its bytes; a read past its end is \<^term>\<open>None\<close>, as is
  a store past the end of the output buffer. The \<open>uint8_t\<close> arithmetic is 8-bit: the
  promotions to \<open>int\<close> in the source are cut back by the assignment.
\<close>

section \<open>Definitions\<close>

subsection \<open>Base64Constants.h\<close>

definition kBase64Charset :: "u8 list" where
  "kBase64Charset =
     map of_char ''ABCDEFGHIJKLMNOPQRSTUVWXYZabcdefghijklmnopqrstuvwxyz0123456789+/''"

definition kBase64URLCharset :: "u8 list" where
  "kBase64URLCharset =
     map of_char ''ABCDEFGHIJKLMNOPQRSTUVWXYZabcdefghijklmnopqrstuvwxyz0123456789-_''"

definition kDecodeErrorMarker :: u8 where
  "kDecodeErrorMarker = 0xff"

definition base64DecodeRule :: "u8 \<Rightarrow> u8" where
  "base64DecodeRule x =
     (if of_char CHR ''A'' \<le> x \<and> x \<le> of_char CHR ''Z'' then x - of_char CHR ''A''
      else if of_char CHR ''a'' \<le> x \<and> x \<le> of_char CHR ''z'' then x - of_char CHR ''a'' + 26
      else if of_char CHR ''0'' \<le> x \<and> x \<le> of_char CHR ''9'' then x - of_char CHR ''0'' + 26 * 2
      else if x = of_char CHR ''+'' then 62
      else if x = of_char CHR ''/'' then 63
      else kDecodeErrorMarker)"

definition base64URLDecodeRule :: "u8 \<Rightarrow> u8" where
  "base64URLDecodeRule x =
     (if x = of_char CHR ''-'' then 62
      else if x = of_char CHR ''_'' then 63
      else base64DecodeRule x)"

definition buildDecodeTable :: "(u8 \<Rightarrow> u8) \<Rightarrow> u8 list" where
  "buildDecodeTable decodeChar = map (\<lambda>i. decodeChar (of_nat i)) [0..<256]"

definition kBase64DecodeTable :: "u8 list" where
  "kBase64DecodeTable = buildDecodeTable base64DecodeRule"

definition kBase64URLDecodeTable :: "u8 list" where
  "kBase64URLDecodeTable = buildDecodeTable base64URLDecodeRule"

subsection \<open>Base64Common.h\<close>

definition base64EncodedSize :: "nat \<Rightarrow> nat" where
  "base64EncodedSize inSize = ((inSize + 2) div 3) * 4"

definition base64URLEncodedSize :: "nat \<Rightarrow> nat" where
  "base64URLEncodedSize inSize =
     (inSize div 3) * 4 + inSize mod 3 + (if inSize mod 3 > 0 then 1 else 0)"

text \<open>The pointer argument \<open>l\<close> is used to read the last two bytes before it.\<close>

definition base64PaddingToSubtract :: "u8 list \<Rightarrow> nat" where
  "base64PaddingToSubtract s =
     (let isL_1Padding = s ! (length s - 1) = of_char CHR ''='';
          isL_2Padding = s ! (length s - 2) = of_char CHR ''=''
      in of_bool isL_1Padding + of_bool (isL_1Padding \<and> isL_2Padding))"

definition base64DecodedSize :: "u8 list \<Rightarrow> nat" where
  "base64DecodedSize s =
     (let n = length s in
      if n < 4 then 0 else n div 4 * 3 - base64PaddingToSubtract s)"

definition base64URLDecodedSize :: "u8 list \<Rightarrow> nat" where
  "base64URLDecodedSize s =
     (let n = length s in
      if n < 2 then 0
      else
        (let res = n div 4 * 3;
             res = (if n mod 4 = 0 then res - base64PaddingToSubtract s else res);
             extra = (if n mod 4 > 0 then n mod 4 - 1 else 0)
         in res + extra))"

subsection \<open>Base64Scalar.h\<close>

definition base64DecodePack4To3 :: "u8 \<Rightarrow> u8 \<Rightarrow> u8 \<Rightarrow> u8 \<Rightarrow> u8 list" where
  "base64DecodePack4To3 aaa bbb ccc ddd =
     (let aaab = push_bit 2 aaa OR drop_bit 4 bbb;
          bbcc = push_bit 4 bbb OR drop_bit 2 ccc;
          cddd = push_bit 6 ccc OR ddd
      in [aaab, bbcc, cddd])"

definition kCharset :: "bool \<Rightarrow> u8 list" where
  "kCharset isURL = (if isURL then kBase64URLCharset else kBase64Charset)"

definition kDecodeTable :: "bool \<Rightarrow> u8 list" where
  "kDecodeTable isURL = (if isURL then kBase64URLDecodeTable else kBase64DecodeTable)"

definition encodeTail :: "bool \<Rightarrow> u8 list \<Rightarrow> cursor \<Rightarrow> cursor option" where
  "encodeTail isURL f o1 =
     (if f = [] then Some o1
      else
        (let aaab = f ! 0; aaa = drop_bit 2 aaab in
         do { o1 \<leftarrow> put (kCharset isURL ! unat aaa) o1;
              if length f = 1 then
                (let b00 = push_bit 4 aaab AND 0x3f in
                 do { o1 \<leftarrow> put (kCharset isURL ! unat b00) o1;
                      if \<not> isURL then
                        do { o1 \<leftarrow> put (of_char CHR ''='') o1; put (of_char CHR ''='') o1 }
                      else Some o1 })
              else
                (let bbcc = f ! 1;
                     bbb = (push_bit 4 aaab OR drop_bit 4 bbcc) AND 0x3f;
                     cc0 = push_bit 2 bbcc AND 0x3f in
                 do { o1 \<leftarrow> put (kCharset isURL ! unat bbb) o1;
                      o1 \<leftarrow> put (kCharset isURL ! unat cc0) o1;
                      if \<not> isURL then put (of_char CHR ''='') o1 else Some o1 }) }))"

fun base64ScalarImpl_encode :: "bool \<Rightarrow> u8 list \<Rightarrow> cursor \<Rightarrow> cursor option" where
  "base64ScalarImpl_encode isURL (aaab # bbcc # cddd # f) o1 =
     (let aaa = drop_bit 2 aaab;
          bbb = (push_bit 4 aaab OR drop_bit 4 bbcc) AND 0x3f;
          ccc = (push_bit 2 bbcc OR drop_bit 6 cddd) AND 0x3f;
          ddd = cddd AND 0x3f in
      do { o1 \<leftarrow> put (kCharset isURL ! unat aaa) o1;
           o1 \<leftarrow> put (kCharset isURL ! unat bbb) o1;
           o1 \<leftarrow> put (kCharset isURL ! unat ccc) o1;
           o1 \<leftarrow> put (kCharset isURL ! unat ddd) o1;
           base64ScalarImpl_encode isURL f o1 })"
| "base64ScalarImpl_encode isURL f o1 = encodeTail isURL f o1"

text \<open>Returns the error accumulator, the input left and the output cursor.\<close>

fun decodeMainLoop ::
  "bool \<Rightarrow> nat \<Rightarrow> u8 \<Rightarrow> u8 list \<Rightarrow> cursor \<Rightarrow> (u8 \<times> u8 list \<times> cursor) option" where
  "decodeMainLoop isURL 0 errorAccumulator f o1 = Some (errorAccumulator, f, o1)"
| "decodeMainLoop isURL (Suc fullSteps) errorAccumulator (c0 # c1 # c2 # c3 # f) o1 =
     (let aaa = kDecodeTable isURL ! unat c0;
          bbb = kDecodeTable isURL ! unat c1;
          ccc = kDecodeTable isURL ! unat c2;
          ddd = kDecodeTable isURL ! unat c3;
          errorAccumulator = errorAccumulator OR (aaa OR bbb OR ccc OR ddd);
          packed = base64DecodePack4To3 aaa bbb ccc ddd in
      do { o1 \<leftarrow> put (packed ! 0) o1;
           o1 \<leftarrow> put (packed ! 1) o1;
           o1 \<leftarrow> put (packed ! 2) o1;
           decodeMainLoop isURL fullSteps errorAccumulator f o1 })"
| "decodeMainLoop isURL (Suc fullSteps) errorAccumulator f o1 = None"

definition base64EncodeScalar :: "u8 list \<Rightarrow> cursor \<Rightarrow> cursor option" where
  "base64EncodeScalar f o1 = base64ScalarImpl_encode False f o1"

definition base64URLEncodeScalar :: "u8 list \<Rightarrow> cursor \<Rightarrow> cursor option" where
  "base64URLEncodeScalar f o1 = base64ScalarImpl_encode True f o1"

fun base64DecodeTailScalar :: "u8 list \<Rightarrow> cursor \<Rightarrow> u8 \<Rightarrow> (cursor \<times> u8) option" where
  "base64DecodeTailScalar (c0 # c1 # c2 # c3 # _) o1 errorAccumulator =
     (let aaa = kBase64DecodeTable ! unat c0;
          bbb = kBase64DecodeTable ! unat c1 in
      do { o1 \<leftarrow> put (push_bit 2 aaa OR drop_bit 4 bbb) o1;
           let errorAccumulator = errorAccumulator OR (aaa OR bbb);
           if c2 = of_char CHR ''='' \<and> c3 = of_char CHR ''='' then
             Some (o1, if bbb AND 0xf \<noteq> 0 then kDecodeErrorMarker else errorAccumulator)
           else
             (let ccc = kBase64DecodeTable ! unat c2 in
              do { o1 \<leftarrow> put (push_bit 4 bbb OR drop_bit 2 ccc) o1;
                   let errorAccumulator = errorAccumulator OR ccc;
                   if c3 = of_char CHR ''='' then
                     Some (o1, if ccc AND 0x3 \<noteq> 0 then kDecodeErrorMarker else errorAccumulator)
                   else
                     (let ddd = kBase64DecodeTable ! unat c3 in
                      do { o1 \<leftarrow> put (push_bit 6 ccc OR ddd) o1;
                           Some (o1, errorAccumulator OR ddd) }) }) })"
| "base64DecodeTailScalar _ o1 errorAccumulator = None"

text \<open>\<open>Base64DecodeResult\<close>: the success flag and the cursor.\<close>

type_synonym Base64DecodeResult = "bool \<times> cursor"

definition base64DecodeScalar :: "u8 list \<Rightarrow> cursor \<Rightarrow> Base64DecodeResult option" where
  "base64DecodeScalar f o1 =
     (if f = [] then Some (True, o1)
      else if length f mod 4 \<noteq> 0 then Some (False, o1)
      else
        (let fullSteps = length f div 4 - 1 in
         do { (errorAccumulator, f, o1) \<leftarrow> decodeMainLoop False fullSteps 0 f o1;
              (o1, errorAccumulator) \<leftarrow> base64DecodeTailScalar f o1 errorAccumulator;
              Some (errorAccumulator \<noteq> kDecodeErrorMarker, o1) }))"

text \<open>The range \<open>[f, l)\<close> after \<open>l\<close> was moved back over valid padding.\<close>

definition base64URLDecodeStripValidPadding :: "u8 list \<Rightarrow> u8 list" where
  "base64URLDecodeStripValidPadding f =
     (if length f \<noteq> 4 then f
      else
        (let f = (if f ! (length f - 1) = of_char CHR ''='' then butlast f else f);
             f = (if f ! (length f - 1) = of_char CHR ''='' then butlast f else f)
         in f))"

text \<open>
  Reads \<open>f[0]\<close> and \<open>f[1]\<close> of the range before padding was stripped; the caller checks that
  there are two.
\<close>

fun base64URLDecodeScalarLast4Bytes :: "u8 list \<Rightarrow> cursor \<Rightarrow> u8 \<Rightarrow> (cursor \<times> u8) option" where
  "base64URLDecodeScalarLast4Bytes (c0 # c1 # r) o1 errorAccumulator =
     (let f = base64URLDecodeStripValidPadding (c0 # c1 # r);
          aaa = kBase64URLDecodeTable ! unat c0;
          bbb = kBase64URLDecodeTable ! unat c1 in
      do { o1 \<leftarrow> put (push_bit 2 aaa OR drop_bit 4 bbb) o1;
           let errorAccumulator = errorAccumulator OR (aaa OR bbb);
           if length f = 2 then Some (o1, errorAccumulator)
           else
             (let ccc = kBase64URLDecodeTable ! unat (f ! 2) in
              do { o1 \<leftarrow> put (push_bit 4 bbb OR drop_bit 2 ccc) o1;
                   let errorAccumulator = errorAccumulator OR ccc;
                   if length f = 3 then Some (o1, errorAccumulator)
                   else
                     (let ddd = kBase64URLDecodeTable ! unat (f ! 3) in
                      do { o1 \<leftarrow> put (push_bit 6 ccc OR ddd) o1;
                           Some (o1, errorAccumulator OR ddd) }) }) })"
| "base64URLDecodeScalarLast4Bytes _ o1 errorAccumulator = None"

definition base64URLDecodeScalar :: "u8 list \<Rightarrow> cursor \<Rightarrow> Base64DecodeResult option" where
  "base64URLDecodeScalar f o1 =
     (if f = [] then Some (True, o1)
      else
        (let rem = length f mod 4;
             fullSteps = length f div 4 - of_bool (rem = 0) in
         do { (errorAccumulator, f, o1) \<leftarrow> decodeMainLoop True fullSteps 0 f o1;
              if length f < 2 then Some (False, o1)
              else
                do { (o1, errorAccumulator) \<leftarrow> base64URLDecodeScalarLast4Bytes f o1 errorAccumulator;
                     Some (errorAccumulator \<noteq> kDecodeErrorMarker, o1) } }))"

section \<open>The alphabets\<close>

lemma kBase64Charset_codes:
  "kBase64Charset = map of_nat ([65..<91] @ [97..<123] @ [48..<58] @ [43, 47])"
  by (simp add: kBase64Charset_def upt_rec_numeral)

lemma kBase64URLCharset_codes:
  "kBase64URLCharset = map of_nat ([65..<91] @ [97..<123] @ [48..<58] @ [45, 95])"
  by (simp add: kBase64URLCharset_def upt_rec_numeral)

text \<open>The code of the symbol for a 6-bit value, with the codes for 62 and 63 as parameters.\<close>

definition symbolCode :: "nat \<Rightarrow> nat \<Rightarrow> nat \<Rightarrow> nat" where
  "symbolCode p q i = (if i < 26 then 65 + i else if i < 52 then 71 + i else if i < 62 then i - 4
     else if i = 62 then p else q)"

lemma codes_nth:
  assumes "i < 64"
  shows "([65..<91] @ [97..<123] @ [48..<58] @ [p, q]) ! i = symbolCode p q i"
proof -
  consider "i < 26" | "26 \<le> i" "i < 52" | "52 \<le> i" "i < 62" | "i = 62" | "i = 63"
    using assms by linarith
  then show ?thesis
    by cases (auto simp: nth_append symbolCode_def simp del: upt_rec_numeral)
qed

lemma charset_nth:
  assumes "i < 64"
  shows "kBase64Charset ! i = of_nat (symbolCode 43 47 i)"
    "kBase64URLCharset ! i = of_nat (symbolCode 45 95 i)"
proof -
  have len: "length ([65..<91] @ [97..<123] @ [48..<58] @ [p, q]) = 64" for p q :: nat
    by simp
  show "kBase64Charset ! i = of_nat (symbolCode 43 47 i)"
    unfolding kBase64Charset_codes using assms by (subst nth_map) (simp_all only: len codes_nth)
  show "kBase64URLCharset ! i = of_nat (symbolCode 45 95 i)"
    unfolding kBase64URLCharset_codes using assms by (subst nth_map) (simp_all only: len codes_nth)
qed

text \<open>The decode rule in terms of codes.\<close>

definition ruleCode :: "nat \<Rightarrow> nat" where
  "ruleCode n = (if 65 \<le> n \<and> n \<le> 90 then n - 65 else if 97 \<le> n \<and> n \<le> 122 then n - 71
     else if 48 \<le> n \<and> n \<le> 57 then n + 4 else if n = 43 then 62 else if n = 47 then 63 else 255)"

lemma unat_of_nat_u8: "n < 256 \<Longrightarrow> unat (of_nat n :: u8) = n"
  by (simp add: unsigned_of_nat take_bit_nat_eq_self)

lemma base64DecodeRule_code: "unat (base64DecodeRule x) = ruleCode (unat x)"
proof -
  have sub: "k \<le> unat x \<Longrightarrow> k < 256 \<Longrightarrow> unat (x - of_nat k) = unat x - k" for k
    using unat_sub [of "of_nat k" x] by (simp add: word_le_nat_alt unat_of_nat_u8)
  have add: "unat y + k < 256 \<Longrightarrow> unat (y + of_nat k) = unat y + k" for y :: u8 and k
    by (simp add: unat_word_ariths(1) unat_of_nat_u8)
  have "65 \<le> unat x \<Longrightarrow> unat (x - 65) = unat x - 65" "71 \<le> unat x \<Longrightarrow> unat (x - 71) = unat x - 71"
    "unat x \<le> 57 \<Longrightarrow> unat (4 + x) = unat x + 4"
    using sub [of 65] sub [of 71] add [of x 4] by (simp_all add: add.commute)
  then show ?thesis
    by (simp add: base64DecodeRule_def kDecodeErrorMarker_def ruleCode_def word_le_nat_alt
        word_unat_eq_iff [of x])
qed

lemma base64URLDecodeRule_code:
  "unat (base64URLDecodeRule x) =
    (if unat x = 45 then 62 else if unat x = 95 then 63 else ruleCode (unat x))"
  by (auto simp: base64URLDecodeRule_def base64DecodeRule_code word_unat_eq_iff [of x])

lemma ruleCode_symbolCode: "i < 64 \<Longrightarrow> ruleCode (symbolCode 43 47 i) = i"
  by (auto simp: ruleCode_def symbolCode_def)

lemma ruleCode_cases:
  obtains "65 \<le> n" "n \<le> 90" "ruleCode n = n - 65" | "97 \<le> n" "n \<le> 122" "ruleCode n = n - 71"
  | "48 \<le> n" "n \<le> 57" "ruleCode n = n + 4" | "n = 43" "ruleCode n = 62" | "n = 47" "ruleCode n = 63"
  | "ruleCode n = 255"
  by (metis ruleCode_def)

lemma symbolCode_ruleCode:
  assumes "ruleCode n \<noteq> 255"
  shows "symbolCode 43 47 (ruleCode n) = n \<and> ruleCode n < 64"
  using assms by (cases n rule: ruleCode_cases) (auto simp: symbolCode_def)

lemma symbolCode_less: "symbolCode 43 47 i < 256" "symbolCode 45 95 i < 256" if "i < 64"
  using that by (auto simp: symbolCode_def)

lemma buildDecodeTable_nth: "buildDecodeTable r ! unat x = r x"
proof -
  have "unat x < 256" using unsigned_less [of x] by simp
  then have "buildDecodeTable r ! unat x = r (of_nat ([0..<256] ! unat x))"
    unfolding buildDecodeTable_def by (subst nth_map) (simp_all del: upt_rec_numeral)
  also have "\<dots> = r x"
    using \<open>unat x < 256\<close> by (simp del: upt_rec_numeral)
  finally show ?thesis .
qed

lemma decode_tables:
  "kBase64DecodeTable ! unat c = base64DecodeRule c"
  "kBase64URLDecodeTable ! unat c = base64URLDecodeRule c"
  "kDecodeTable u ! unat c = (if u then base64URLDecodeRule c else base64DecodeRule c)"
  by (simp_all add: kBase64DecodeTable_def kBase64URLDecodeTable_def kDecodeTable_def
      buildDecodeTable_nth)

text \<open>Six-bit values, and the symbol of a value.\<close>

abbreviation sextet :: "u8 \<Rightarrow> bool" where
  "sextet v \<equiv> unat v < 64"

lemma rule_of_symbol:
  assumes "sextet v"
  shows "base64DecodeRule (kBase64Charset ! unat v) = v"
    "base64URLDecodeRule (kBase64Charset ! unat v) = v"
    "base64URLDecodeRule (kBase64URLCharset ! unat v) = v"
proof -
  note codes = charset_nth [OF assms] symbolCode_less [OF assms] ruleCode_symbolCode [OF assms]
  show "base64DecodeRule (kBase64Charset ! unat v) = v"
    by (simp add: word_unat_eq_iff base64DecodeRule_code codes unat_of_nat_u8)
  have "symbolCode 43 47 (unat v) \<noteq> 45" "symbolCode 43 47 (unat v) \<noteq> 95"
    using assms by (auto simp: symbolCode_def)
  then show "base64URLDecodeRule (kBase64Charset ! unat v) = v"
    by (simp add: word_unat_eq_iff base64URLDecodeRule_code codes unat_of_nat_u8)
  have "(if symbolCode 45 95 (unat v) = 45 then 62 else if symbolCode 45 95 (unat v) = 95 then 63
      else ruleCode (symbolCode 45 95 (unat v))) = unat v"
    using assms by (auto simp: symbolCode_def ruleCode_def)
  then show "base64URLDecodeRule (kBase64URLCharset ! unat v) = v"
    by (auto simp: word_unat_eq_iff base64URLDecodeRule_code codes unat_of_nat_u8 split: if_splits)
qed

lemma symbol_of_rule:
  assumes "base64DecodeRule c \<noteq> kDecodeErrorMarker"
  shows "sextet (base64DecodeRule c)" "kBase64Charset ! unat (base64DecodeRule c) = c"
proof -
  have "ruleCode (unat c) \<noteq> 255"
    using assms by (simp add: word_unat_eq_iff base64DecodeRule_code kDecodeErrorMarker_def)
  note codes = symbolCode_ruleCode [OF this]
  then show "sextet (base64DecodeRule c)"
    by (simp add: base64DecodeRule_code)
  with codes show "kBase64Charset ! unat (base64DecodeRule c) = c"
    by (simp add: charset_nth base64DecodeRule_code)
qed

lemma url_rule_sextet:
  "base64URLDecodeRule c \<noteq> kDecodeErrorMarker \<Longrightarrow> sextet (base64URLDecodeRule c)"
  using symbol_of_rule(1) [of c] by (simp add: base64URLDecodeRule_def split: if_splits)

lemma padding_rule:
  "base64DecodeRule (of_char CHR ''='') = kDecodeErrorMarker"
  "base64URLDecodeRule (of_char CHR ''='') = kDecodeErrorMarker"
  by (simp_all add: base64URLDecodeRule_def base64DecodeRule_def)

section \<open>Regrouping bits\<close>

lemma bit_word_high: "LENGTH('a) \<le> n \<Longrightarrow> \<not> bit (w :: 'a::len word) n"
  using bit_imp_le_length [of w n] by auto

lemma sextet_bits: "sextet v \<longleftrightarrow> \<not> bit v 7 \<and> \<not> bit v 6"
proof -
  have "sextet v \<longleftrightarrow> v = v AND 0x3f"
  proof
    assume "sextet v"
    then have "v < 2 ^ 6" by (simp add: word_less_nat_alt)
    then have "v AND mask 6 = v" by (rule less_mask_eq)
    then show "v = v AND 0x3f" by (simp add: mask_numeral)
  next
    assume "v = v AND 0x3f"
    also have "\<dots> = v AND mask 6" by (simp add: mask_numeral)
    also have "\<dots> < 2 ^ 6" by (rule and_mask_less') simp
    finally show "sextet v" by (simp add: word_less_nat_alt)
  qed
  also have "\<dots> \<longleftrightarrow> \<not> bit v 7 \<and> \<not> bit v 6"
    by (auto simp: u8_eq_iff bit_and_iff)
  finally show ?thesis .
qed

section \<open>Reference encoder\<close>

text \<open>The text of RFC 4648 for a list of bytes; the URL variant has no padding.\<close>

abbreviation symbol :: "bool \<Rightarrow> u8 \<Rightarrow> u8" where
  "symbol u v \<equiv> kCharset u ! unat v"

fun refEncode :: "bool \<Rightarrow> u8 list \<Rightarrow> u8 list" where
  "refEncode u (a # b # c # r) =
     [symbol u (drop_bit 2 a), symbol u ((push_bit 4 a OR drop_bit 4 b) AND 0x3f),
      symbol u ((push_bit 2 b OR drop_bit 6 c) AND 0x3f), symbol u (c AND 0x3f)] @ refEncode u r"
| "refEncode u [a, b] =
     [symbol u (drop_bit 2 a), symbol u ((push_bit 4 a OR drop_bit 4 b) AND 0x3f),
      symbol u (push_bit 2 b AND 0x3f)] @ (if u then [] else [of_char CHR ''=''])"
| "refEncode u [a] =
     [symbol u (drop_bit 2 a), symbol u (push_bit 4 a AND 0x3f)]
     @ (if u then [] else [of_char CHR ''='', of_char CHR ''=''])"
| "refEncode u [] = []"

lemma encode_refines:
  "snd s \<le> length (fst s) \<Longrightarrow> base64ScalarImpl_encode u f s = write_bytes (refEncode u f) s"
proof (induction u f arbitrary: s rule: refEncode.induct)
  case (1 u a b c r)
  show ?case
    by (simp add: Let_def cursor_simps write_bytes_bindI [OF "1.IH"])
qed (simp_all add: encodeTail_def Let_def cursor_simps write_bytes_Nil)

lemma length_refEncode:
  "length (refEncode u f)
   = (if u then base64URLEncodedSize (length f) else base64EncodedSize (length f))"
proof (induction u f rule: refEncode.induct)
  case (1 u a b c r)
  then show ?case
    using div_mult_step [of 3 "length r" 4] div_mult_step [of 3 "length r + 2" 4]
    by (auto simp: base64URLEncodedSize_def base64EncodedSize_def mod_Suc)
qed (simp_all add: base64URLEncodedSize_def base64EncodedSize_def)

section \<open>Reference decoder\<close>

definition decodeRule :: "bool \<Rightarrow> u8 \<Rightarrow> u8" where
  "decodeRule u c = (if u then base64URLDecodeRule c else base64DecodeRule c)"

definition validSymbol :: "bool \<Rightarrow> u8 \<Rightarrow> bool" where
  "validSymbol u c \<longleftrightarrow> decodeRule u c \<noteq> kDecodeErrorMarker"

text \<open>
  The last group: the success flag and the bytes. In the standard variant the bits of the last
  symbol that no byte uses must be zero.
\<close>

definition trailingBits :: "bool \<Rightarrow> u8 list \<Rightarrow> bool" where
  "trailingBits u g \<longleftrightarrow> \<not> u
     \<and> (length g = 2 \<and> decodeRule u (g ! 1) AND 0xf \<noteq> 0
        \<or> length g = 3 \<and> decodeRule u (g ! 2) AND 0x3 \<noteq> 0)"

definition refTail :: "bool \<Rightarrow> u8 list \<Rightarrow> bool \<times> u8 list" where
  "refTail u f =
     (let g = base64URLDecodeStripValidPadding f;
          v = (\<lambda>i. decodeRule u (g ! i)) in
      (2 \<le> length g \<and> list_all (validSymbol u) g \<and> \<not> trailingBits u g,
       if length g = 2 then [push_bit 2 (v 0) OR drop_bit 4 (v 1)]
       else if length g = 3 then
         [push_bit 2 (v 0) OR drop_bit 4 (v 1), push_bit 4 (v 1) OR drop_bit 2 (v 2)]
       else if length g = 4 then base64DecodePack4To3 (v 0) (v 1) (v 2) (v 3)
       else []))"

fun packAll :: "u8 list \<Rightarrow> u8 list" where
  "packAll (a # b # c # d # r) = base64DecodePack4To3 a b c d @ packAll r"
| "packAll _ = []"

text \<open>The number of groups before the last one.\<close>

definition fullGroups :: "'a list \<Rightarrow> nat" where
  "fullGroups f = (length f - 1) div 4"

definition refDecode :: "bool \<Rightarrow> u8 list \<Rightarrow> bool \<times> u8 list" where
  "refDecode u f =
     (if f = [] then (True, [])
      else
        (let k = 4 * fullGroups f; (ok, bs) = refTail u (drop k f) in
         (list_all (validSymbol u) (take k f) \<and> ok,
          packAll (map (decodeRule u) (take k f)) @ bs)))"

lemma length_packAll: "length (packAll xs) = length xs div 4 * 3"
proof (induction xs rule: packAll.induct)
  case (1 a b c d r)
  then show ?case
    using div_mult_step [of 4 "length r" 3] by (simp add: base64DecodePack4To3_def Let_def)
qed simp_all

lemma base64URLDecodeStripValidPadding_simps [simp]:
  "base64URLDecodeStripValidPadding [] = []"
  "base64URLDecodeStripValidPadding [a] = [a]"
  "base64URLDecodeStripValidPadding [a, b] = [a, b]"
  "base64URLDecodeStripValidPadding [a, b, c] = [a, b, c]"
  "base64URLDecodeStripValidPadding [a, b, c, d] =
     (if d = of_char CHR ''='' then if c = of_char CHR ''='' then [a, b] else [a, b, c]
      else [a, b, c, d])"
  by (simp_all add: base64URLDecodeStripValidPadding_def Let_def)

subsection \<open>The error accumulator\<close>

text \<open>Table entries are six-bit values or the marker, so that one OR collects the errors.\<close>

definition flagged :: "u8 \<Rightarrow> bool" where
  "flagged x \<longleftrightarrow> x = kDecodeErrorMarker \<or> sextet x"

lemma flagged_or:
  assumes "flagged x" and "flagged y"
  shows "flagged (x OR y)"
    "x OR y = kDecodeErrorMarker \<longleftrightarrow> x = kDecodeErrorMarker \<or> y = kDecodeErrorMarker"
proof -
  have ff: "kDecodeErrorMarker OR z = kDecodeErrorMarker" "z OR kDecodeErrorMarker = kDecodeErrorMarker"
    "\<not> sextet kDecodeErrorMarker" for z
    by (simp_all add: kDecodeErrorMarker_def u8_eq_iff bit_or_iff)
  have "sextet x \<Longrightarrow> sextet y \<Longrightarrow> sextet (x OR y)"
    by (simp add: sextet_bits bit_or_iff)
  with assms ff show "flagged (x OR y)"
    "x OR y = kDecodeErrorMarker \<longleftrightarrow> x = kDecodeErrorMarker \<or> y = kDecodeErrorMarker"
    by (auto simp: flagged_def)
qed

lemma flagged_decodeRule [simp]: "flagged (decodeRule u c)"
  using symbol_of_rule(1) [of c] url_rule_sextet [of c] by (auto simp: decodeRule_def flagged_def)

lemma flagged_zero [simp]: "flagged 0" "kDecodeErrorMarker \<noteq> 0" "flagged kDecodeErrorMarker"
  by (simp_all add: flagged_def kDecodeErrorMarker_def)

lemma decodeTable_rule:
  "kDecodeTable u ! unat c = decodeRule u c"
  "kBase64DecodeTable ! unat c = decodeRule False c"
  "kBase64URLDecodeTable ! unat c = decodeRule True c"
  by (simp_all add: decode_tables decodeRule_def)

definition accumulate :: "bool \<Rightarrow> u8 list \<Rightarrow> u8 \<Rightarrow> u8" where
  "accumulate u f acc = fold (\<lambda>c a. a OR decodeRule u c) f acc"

lemma accumulate_flagged:
  assumes "flagged acc"
  shows "flagged (accumulate u f acc)"
    "accumulate u f acc = kDecodeErrorMarker
     \<longleftrightarrow> acc = kDecodeErrorMarker \<or> \<not> list_all (validSymbol u) f"
proof -
  have "flagged (accumulate u f acc) \<and> (accumulate u f acc = kDecodeErrorMarker
     \<longleftrightarrow> acc = kDecodeErrorMarker \<or> \<not> list_all (validSymbol u) f)"
    using assms
    by (induction f arbitrary: acc)
      (simp_all add: accumulate_def flagged_or validSymbol_def)
  then show "flagged (accumulate u f acc)"
    "accumulate u f acc = kDecodeErrorMarker
     \<longleftrightarrow> acc = kDecodeErrorMarker \<or> \<not> list_all (validSymbol u) f" by blast+
qed

subsection \<open>The scalar decoders refine the reference\<close>

lemma four_more:
  assumes "4 * Suc n \<le> length f"
  obtains c0 c1 c2 c3 r where "f = c0 # c1 # c2 # c3 # r" and "4 * n \<le> length r"
proof -
  obtain c0 f1 where 1: "f = c0 # f1" using assms by (cases f) auto
  obtain c1 f2 where 2: "f1 = c1 # f2" using assms 1 by (cases f1) auto
  obtain c2 f3 where 3: "f2 = c2 # f3" using assms 1 2 by (cases f2) auto
  obtain c3 f4 where 4: "f3 = c3 # f4" using assms 1 2 3 by (cases f3) auto
  show thesis using that [of c0 c1 c2 c3 f4] assms 1 2 3 4 by simp
qed

lemma map_option_bind_write:
  assumes "\<And>t. snd t \<le> length (fst t) \<Longrightarrow> g t = map_option h (write_bytes ys t)"
  shows "Option.bind (write_bytes xs s) g = map_option h (write_bytes (xs @ ys) s)"
proof -
  have "Option.bind (write_bytes xs s) g = Option.bind (write_bytes xs s) (\<lambda>t. map_option h (write_bytes ys t))"
    using write_bytes_SomeD(5) [of xs "fst s" "snd s"] write_bytes_SomeD(1) [of xs "fst s" "snd s"]
    by (intro Option.bind_cong refl assms) force
  then show ?thesis
    by (simp only: write_bytes_bind_map)
qed

lemma take_drop_group:
  "take (4 * Suc n) (c0 # c1 # c2 # c3 # r) = c0 # c1 # c2 # c3 # take (4 * n) r"
  "drop (4 * Suc n) (c0 # c1 # c2 # c3 # r) = drop (4 * n) r"
  by (simp_all add: eval_nat_numeral)

lemma decodeMainLoop_refines:
  assumes "4 * n \<le> length f" and "snd s \<le> length (fst s)"
  shows "decodeMainLoop u n acc f s =
    map_option (\<lambda>t. (accumulate u (take (4 * n) f) acc, drop (4 * n) f, t))
      (write_bytes (packAll (map (decodeRule u) (take (4 * n) f))) s)"
  using assms
proof (induction n arbitrary: f s acc)
  case 0
  then show ?case by (simp add: accumulate_def write_bytes_Nil)
next
  case (Suc n)
  obtain c0 c1 c2 c3 r where f: "f = c0 # c1 # c2 # c3 # r" and r: "4 * n \<le> length r"
    using four_more [OF Suc.prems(1)] .
  let ?acc = "acc OR (decodeRule u c0 OR decodeRule u c1 OR decodeRule u c2 OR decodeRule u c3)"
  have "accumulate u (take (4 * Suc n) f) acc = accumulate u (take (4 * n) r) ?acc"
    by (simp add: f take_drop_group accumulate_def or.assoc del: mult_Suc_right)
  then show ?case
    using Suc.IH [OF r, of _ ?acc]
    by (simp add: f take_drop_group decodeTable_rule base64DecodePack4To3_def Let_def cursor_simps
        map_option_bind_write del: mult_Suc_right)
qed

text \<open>The last group has between one and four characters.\<close>

lemma last_quad:
  fixes f :: "u8 list"
  assumes "f \<noteq> []"
  obtains (one) c0 where "drop (4 * fullGroups f) f = [c0]" and "length f mod 4 = 1"
  | (two) c0 c1 where "drop (4 * fullGroups f) f = [c0, c1]" and "length f mod 4 = 2"
  | (three) c0 c1 c2 where "drop (4 * fullGroups f) f = [c0, c1, c2]" and "length f mod 4 = 3"
  | (four) c0 c1 c2 c3 where "drop (4 * fullGroups f) f = [c0, c1, c2, c3]" and "length f mod 4 = 0"
proof -
  let ?g = "drop (4 * fullGroups f) f"
  have len: "length ?g = (length f - 1) mod 4 + 1"
    using assms mult_div_mod_eq [of 4 "length f - 1"] length_greater_0_conv [of f]
    unfolding fullGroups_def length_drop by linarith
  have "length f mod 4 = length ?g mod 4"
    using assms len by (cases f) (auto simp: mod_Suc)
  moreover have "length ?g \<le> 4" "?g \<noteq> []"
    using len by auto
  ultimately show thesis
    using that by (cases ?g rule: packAll.cases) auto
qed

lemma fullGroups_le: "4 * fullGroups f \<le> length f"
  by (simp add: fullGroups_def)

lemmas decode_simps = decodeTable_rule Let_def cursor_simps bind_Some_map write_bytes_bind_map refTail_def trailingBits_def
  base64DecodePack4To3_def accumulate_def or.assoc

text \<open>The accumulator after the last group.\<close>

definition tailError :: "bool \<Rightarrow> u8 list \<Rightarrow> u8 \<Rightarrow> u8" where
  "tailError u f acc =
     (let g = base64URLDecodeStripValidPadding f in
      if trailingBits u g then kDecodeErrorMarker else accumulate u g acc)"

lemma tail_refines:
  "base64DecodeTailScalar [c0, c1, c2, c3] s acc
   = map_option (\<lambda>t. (t, tailError False [c0, c1, c2, c3] acc))
       (write_bytes (snd (refTail False [c0, c1, c2, c3])) s)"
  by (simp add: decode_simps tailError_def)

lemma group_cases:
  fixes g :: "u8 list"
  assumes "2 \<le> length g" and "length g \<le> 4"
  obtains c0 c1 where "g = [c0, c1]" | c0 c1 c2 where "g = [c0, c1, c2]"
  | c0 c1 c2 c3 where "g = [c0, c1, c2, c3]"
  using assms by (cases g rule: packAll.cases) auto

lemma url_tail_refines:
  assumes "2 \<le> length g" and "length g \<le> 4"
  shows "base64URLDecodeScalarLast4Bytes g s acc
    = map_option (\<lambda>t. (t, tailError True g acc)) (write_bytes (snd (refTail True g)) s)"
  using assms by (cases g rule: group_cases) (simp_all add: decode_simps tailError_def)

lemma tailError_iff:
  assumes "2 \<le> length g"
  shows "tailError u g (accumulate u h 0) = kDecodeErrorMarker
    \<longleftrightarrow> \<not> (list_all (validSymbol u) h \<and> fst (refTail u g))"
proof -
  have "2 \<le> length (base64URLDecodeStripValidPadding g)"
    using assms by (simp add: base64URLDecodeStripValidPadding_def Let_def)
  then show ?thesis
    by (auto simp: tailError_def refTail_def Let_def accumulate_flagged)
qed

lemma fullGroups_steps:
  "f \<noteq> [] \<Longrightarrow> length f div 4 - of_bool (length f mod 4 = 0) = fullGroups f"
  by (cases f) (auto simp: fullGroups_def div_Suc mod_Suc)

text \<open>The main loop followed by a tail that writes \<open>snd (refTail u g)\<close>.\<close>

lemma main_then_tail:
  assumes "snd s \<le> length (fst s)"
    and "f \<noteq> []" and "g = drop (4 * fullGroups f) f" and "2 \<le> length g"
    and tail: "\<And>t acc. tail g t acc
      = map_option (\<lambda>t. (t, tailError u g acc)) (write_bytes (snd (refTail u g)) t)"
  shows "Option.bind (decodeMainLoop u (fullGroups f) 0 f s)
      (\<lambda>(acc, f, t). Option.bind (tail f t acc) (\<lambda>(t, e). Some (e \<noteq> kDecodeErrorMarker, t)))
    = map_option (Pair (fst (refDecode u f))) (write_bytes (snd (refDecode u f)) s)"
proof -
  let ?k = "4 * fullGroups f"
  have "Option.bind (decodeMainLoop u (fullGroups f) 0 f s)
      (\<lambda>(acc, f, t). Option.bind (tail f t acc) (\<lambda>(t, e). Some (e \<noteq> kDecodeErrorMarker, t)))
    = Option.bind (write_bytes (packAll (map (decodeRule u) (take ?k f))) s)
        (\<lambda>t. map_option (Pair (tailError u g (accumulate u (take ?k f) 0) \<noteq> kDecodeErrorMarker))
          (write_bytes (snd (refTail u g)) t))"
    by (simp only: decodeMainLoop_refines [OF fullGroups_le assms(1)] assms(3) [symmetric] tail
        bind_map_option o_def prod.case bind_Some_map)
  also have "\<dots> = map_option (Pair (fst (refDecode u f))) (write_bytes (snd (refDecode u f)) s)"
    using assms(2) tailError_iff [OF assms(4)]
    by (simp add: write_bytes_bind_map refDecode_def Let_def case_prod_beta assms(3))
  finally show ?thesis .
qed

theorem base64DecodeScalar_refines:
  assumes "length f mod 4 = 0" and "snd s \<le> length (fst s)"
  shows "base64DecodeScalar f s =
    map_option (Pair (fst (refDecode False f))) (write_bytes (snd (refDecode False f)) s)"
proof (cases "f = []")
  case True
  with assms show ?thesis
    by (simp add: base64DecodeScalar_def refDecode_def write_bytes_Nil)
next
  case False
  then show ?thesis
  proof (cases f rule: last_quad)
    case (four c0 c1 c2 c3)
    then show ?thesis
      using False assms fullGroups_steps [OF False]
        main_then_tail [of s f "[c0, c1, c2, c3]" base64DecodeTailScalar False]
      by (simp add: base64DecodeScalar_def tail_refines case_prod_beta Let_def
          del: base64DecodeTailScalar.simps)
  qed (use assms in simp_all)
qed

theorem base64URLDecodeScalar_refines:
  assumes "snd s \<le> length (fst s)"
  shows "base64URLDecodeScalar f s =
    map_option (Pair (fst (refDecode True f))) (write_bytes (snd (refDecode True f)) s)"
proof (cases "f = []")
  case True
  with assms show ?thesis
    by (simp add: base64URLDecodeScalar_def refDecode_def write_bytes_Nil)
next
  case False
  let ?g = "drop (4 * fullGroups f) f"
  have main: "base64URLDecodeScalar f s =
    Option.bind (write_bytes (packAll (map (decodeRule True) (take (4 * fullGroups f) f))) s)
      (\<lambda>t. if length ?g < 2 then Some (False, t)
        else Option.bind (base64URLDecodeScalarLast4Bytes ?g t (accumulate True (take (4 * fullGroups f) f) 0))
          (\<lambda>(t, e). Some (e \<noteq> kDecodeErrorMarker, t)))"
    using False
    by (simp only: base64URLDecodeScalar_def Let_def fullGroups_steps [OF False] if_False
        decodeMainLoop_refines [OF fullGroups_le assms] bind_map_option o_def prod.case)
  show ?thesis
  proof (cases "length f mod 4 = 1")
    case True
    obtain c0 where "?g = [c0]"
      by (rule last_quad [OF False]) (use True in simp_all)
    with False show ?thesis
      by (simp add: main Let_def refDecode_def refTail_def bind_Some_map)
  next
    case rem: False
    have g: "2 \<le> length ?g \<and> length ?g \<le> 4"
      by (rule last_quad [OF False]) (use rem in simp_all)
    then have "\<not> length ?g < 2" by linarith
    then have "base64URLDecodeScalar f s = Option.bind (decodeMainLoop True (fullGroups f) 0 f s)
      (\<lambda>(acc, f, t). Option.bind (base64URLDecodeScalarLast4Bytes f t acc)
        (\<lambda>(t, e). Some (e \<noteq> kDecodeErrorMarker, t)))"
      by (simp only: main decodeMainLoop_refines [OF fullGroups_le assms] bind_map_option o_def
          prod.case if_False)
    also have "\<dots> = map_option (Pair (fst (refDecode True f))) (write_bytes (snd (refDecode True f)) s)"
    proof (rule main_then_tail [OF assms False refl])
      show "2 \<le> length ?g" using g by blast
      show "base64URLDecodeScalarLast4Bytes ?g t acc = map_option (\<lambda>t. (t, tailError True ?g acc))
          (write_bytes (snd (refTail True ?g)) t)" for t acc
        using g by (intro url_tail_refines) blast+
    qed
    finally show ?thesis .
  qed
qed

section \<open>The reference decoder inverts the reference encoder\<close>

lemma refDecode_last:
  "f \<noteq> [] \<Longrightarrow> length f \<le> 4 \<Longrightarrow> refDecode u f = refTail u f"
  by (cases f) (simp_all add: refDecode_def fullGroups_def div_less)

lemma refDecode_group:
  assumes "r \<noteq> []"
  shows "refDecode u (c0 # c1 # c2 # c3 # r) =
    (list_all (validSymbol u) [c0, c1, c2, c3] \<and> fst (refDecode u r),
     base64DecodePack4To3 (decodeRule u c0) (decodeRule u c1) (decodeRule u c2) (decodeRule u c3)
       @ snd (refDecode u r))"
proof -
  have "fullGroups (c0 # c1 # c2 # c3 # r) = Suc (fullGroups r)"
    using assms div_add_self1 [of 4 "length r - 1"] by (cases r) (simp_all add: fullGroups_def)
  then show ?thesis
    using assms
    by (simp add: refDecode_def take_drop_group case_prod_beta Let_def del: mult_Suc_right)
qed

lemma sextet_fields [simp]:
  "sextet (drop_bit 2 a)" "sextet (x AND 0x3f)"
  by (simp_all add: sextet_bits bit_simps bit_word_high)

lemma decode_symbol:
  assumes "sextet v" and "u \<longrightarrow> u'"
  shows "decodeRule u' (symbol u v) = v" "validSymbol u' (symbol u v)" "symbol u v \<noteq> 0x3d"
proof -
  show rule: "decodeRule u' (symbol u v) = v"
    using assms rule_of_symbol [OF assms(1)] by (simp add: decodeRule_def kCharset_def)
  have "v \<noteq> kDecodeErrorMarker"
    using assms(1) by (auto simp: kDecodeErrorMarker_def)
  then show "validSymbol u' (symbol u v)"
    by (simp add: validSymbol_def rule)
  show "symbol u v \<noteq> 0x3d"
    using rule \<open>v \<noteq> kDecodeErrorMarker\<close> padding_rule by (auto simp: decodeRule_def split: if_splits)
qed

lemma pack_fields:
  fixes a b c :: u8
  shows "push_bit 2 (drop_bit 2 a) OR drop_bit 4 ((push_bit 4 a OR drop_bit 4 b) AND 0x3f) = a"
    "push_bit 4 ((push_bit 4 a OR drop_bit 4 b) AND 0x3f)
       OR drop_bit 2 ((push_bit 2 b OR drop_bit 6 c) AND 0x3f) = b"
    "push_bit 6 ((push_bit 2 b OR drop_bit 6 c) AND 0x3f) OR (c AND 0x3f) = c"
    "push_bit 2 (drop_bit 2 a) OR drop_bit 4 (push_bit 4 a AND 0x3f) = a"
    "push_bit 4 ((push_bit 4 a OR drop_bit 4 b) AND 0x3f) OR drop_bit 2 (push_bit 2 b AND 0x3f) = b"
    "(push_bit 4 a AND 0x3f) AND 0xf = 0" "(push_bit 2 b AND 0x3f) AND 0x3 = 0"
  by (simp_all add: u8_eq_iff bit_simps)

lemma refDecode_refEncode:
  assumes "u \<longrightarrow> u'"
  shows "refDecode u' (refEncode u xs) = (True, xs)"
  using assms
proof (induction u xs rule: refEncode.induct)
  case (1 u a b c r)
  show ?case
  proof (cases "refEncode u r = []")
    case True
    with 1 have "r = []" by (auto simp: refDecode_def)
    with 1 show ?thesis
      by (simp add: refDecode_last refTail_def Let_def trailingBits_def decode_symbol
          base64DecodePack4To3_def pack_fields del: push_bit_and drop_bit_and push_bit_or drop_bit_or)
  next
    case False
    with 1 show ?thesis
      by (simp add: refDecode_group decode_symbol base64DecodePack4To3_def pack_fields
          del: push_bit_and drop_bit_and push_bit_or drop_bit_or)
  qed
qed (simp_all add: refDecode_last refTail_def Let_def trailingBits_def decode_symbol pack_fields
    refDecode_def [of _ "[]"] del: push_bit_and drop_bit_and push_bit_or drop_bit_or)

lemma unpack_fields:
  fixes a b c d :: u8
  shows "sextet a \<Longrightarrow> sextet b \<Longrightarrow> drop_bit 2 (push_bit 2 a OR drop_bit 4 b) = a"
    "sextet a \<Longrightarrow> sextet b \<Longrightarrow> sextet c \<Longrightarrow>
     (push_bit 4 (push_bit 2 a OR drop_bit 4 b) OR drop_bit 4 (push_bit 4 b OR drop_bit 2 c)) AND 0x3f = b"
    "sextet b \<Longrightarrow> sextet c \<Longrightarrow> sextet d \<Longrightarrow>
     (push_bit 2 (push_bit 4 b OR drop_bit 2 c) OR drop_bit 6 (push_bit 6 c OR d)) AND 0x3f = c"
    "sextet d \<Longrightarrow> (push_bit 6 c OR d) AND 0x3f = d"
    "sextet a \<Longrightarrow> sextet b \<Longrightarrow> b AND 0xf = 0 \<Longrightarrow>
     push_bit 4 (push_bit 2 a OR drop_bit 4 b) AND 0x3f = b"
    "sextet b \<Longrightarrow> sextet c \<Longrightarrow> c AND 0x3 = 0 \<Longrightarrow>
     push_bit 2 (push_bit 4 b OR drop_bit 2 c) AND 0x3f = c"
  by (simp_all add: sextet_bits u8_eq_iff bit_simps bit_word_high)

lemma symbol_decodeRule:
  assumes "validSymbol False c"
  shows "sextet (decodeRule False c)" "symbol False (decodeRule False c) = c"
  using assms symbol_of_rule [of c] by (simp_all add: validSymbol_def decodeRule_def kCharset_def)

lemma padding_not_valid: "\<not> validSymbol u 0x3d"
  using padding_rule by (simp add: validSymbol_def decodeRule_def)

lemma refTail_strict:
  assumes "fst (refTail False [c0, c1, c2, c3])"
  shows "refEncode False (snd (refTail False [c0, c1, c2, c3])) = [c0, c1, c2, c3]"
proof -
  note fields = symbol_decodeRule unpack_fields base64DecodePack4To3_def
  consider "c2 = 0x3d" "c3 = 0x3d" | "c2 \<noteq> 0x3d" "c3 = 0x3d" | "c3 \<noteq> 0x3d" by blast
  then show ?thesis
    using assms
    by cases (simp_all add: refTail_def Let_def trailingBits_def fields
        del: push_bit_and drop_bit_and push_bit_or drop_bit_or)
qed

lemma refDecode_strict:
  assumes "length f mod 4 = 0" and "fst (refDecode False f)"
  shows "refEncode False (snd (refDecode False f)) = f"
  using assms
proof (induction f rule: packAll.induct)
  case (1 a b c d r)
  show ?case
  proof (cases "r = []")
    case True
    with 1 show ?thesis by (simp add: refDecode_last refTail_strict)
  next
    case False
    note fields = symbol_decodeRule unpack_fields base64DecodePack4To3_def
    from False 1 show ?thesis
      by (simp add: refDecode_group fields del: push_bit_and drop_bit_and push_bit_or drop_bit_or)
  qed
qed (simp_all add: refDecode_def)

section \<open>Sizes\<close>

lemma length_last:
  "drop (4 * fullGroups f) f = g \<Longrightarrow> length f = 4 * fullGroups f + length g"
  using fullGroups_le [of f] by auto

lemma length_four:
  assumes "drop (4 * fullGroups f) f = [c0, c1, c2, c3]"
  shows "f ! (length f - 1) = c3" "f ! (length f - 2) = c2"
proof -
  have "f ! (4 * fullGroups f + i) = [c0, c1, c2, c3] ! i" for i
    unfolding assms [symmetric] by (rule nth_drop [symmetric]) (rule fullGroups_le)
  from this [of 3] this [of 2] show "f ! (length f - 1) = c3" "f ! (length f - 2) = c2"
    by (simp_all add: length_last [OF assms] eval_nat_numeral)
qed

lemma length_refDecode:
  assumes "f \<noteq> []"
  shows "length (snd (refDecode u f))
    = 3 * fullGroups f + length (snd (refTail u (drop (4 * fullGroups f) f)))"
  using assms fullGroups_le [of f]
  by (simp add: refDecode_def Let_def case_prod_beta length_packAll)

lemma length_refDecode_std:
  assumes "length f mod 4 = 0"
  shows "length (snd (refDecode False f)) = base64DecodedSize f"
proof (cases "f = []")
  case False
  then show ?thesis
  proof (cases f rule: last_quad)
    case (four c0 c1 c2 c3)
    with False show ?thesis
      using length_four [OF four(1)] length_last [OF four(1)]
      by (simp add: length_refDecode refTail_def Let_def base64DecodedSize_def
          base64PaddingToSubtract_def base64DecodePack4To3_def)
  qed (use assms in simp_all)
qed (simp add: refDecode_def base64DecodedSize_def)

lemma length_refDecode_url: "length (snd (refDecode True f)) = base64URLDecodedSize f"
proof (cases "f = []")
  case False
  note defs = length_refDecode [OF False] refTail_def Let_def base64URLDecodedSize_def
    base64PaddingToSubtract_def base64DecodePack4To3_def
  from False show ?thesis
  proof (cases f rule: last_quad)
    case (one c0)
    then show ?thesis using length_last [OF one(1)] by (simp add: defs div_Suc)
  next
    case (two c0 c1)
    then show ?thesis using length_last [OF two(1)] by (simp add: defs)
  next
    case (three c0 c1 c2)
    then show ?thesis using length_last [OF three(1)] by (simp add: defs)
  next
    case (four c0 c1 c2 c3)
    then show ?thesis
      using length_last [OF four(1)] length_four [OF four(1)] by (simp add: defs)
  qed
qed (simp add: refDecode_def base64URLDecodedSize_def)

end
