(* ===== verification/Base64_Api.thy ===== *)
theory Base64_Api
  imports Base64 Codec
begin

text \<open>
  The runtime side of base64: the SWAR decoders of \<open>Base64SWAR.cpp\<close> with their tables from
  \<open>Base64HiddenConstants.h\<close>, the selection of \<open>Base64Api.cpp\<close> for a target without SSE 4.2,
  and the string functions of \<open>base64.h\<close>.

  The SWAR main loop stores four bytes per group and advances by three; the store relies on
  a little-endian target, which \<open>bytes_le_u32\<close> makes explicit. Results of the string functions
  are \<^term>\<open>None\<close> for an access outside a buffer, \<open>Inl\<close> for a thrown exception.
\<close>

section \<open>Definitions\<close>

subsection \<open>Base64HiddenConstants.h\<close>

definition kSwarDecodeErrorMarker :: u32 where
  "kSwarDecodeErrorMarker = 0xffffffff"

text \<open>What the four tables hold for a decoded value \<open>d\<close>.\<close>

definition swarShift :: "nat \<Rightarrow> u32 \<Rightarrow> u32" where
  "swarShift i d =
     (if i = 0 then push_bit 2 d
      else if i = 1 then drop_bit 4 d OR (push_bit 12 d AND 0xff00)
      else if i = 2 then (push_bit 6 d AND 0xff00) OR (push_bit 22 d AND 0xff0000)
      else push_bit 16 d)"

definition buildSWARDecodeTable :: "(u8 \<Rightarrow> u8) \<Rightarrow> u32 list list" where
  "buildSWARDecodeTable decodeChar =
     map (\<lambda>i. map (\<lambda>c. let decoded = decodeChar (of_nat c) in
                     if decoded = kDecodeErrorMarker then kSwarDecodeErrorMarker
                     else swarShift i (ucast decoded)) [0..<256]) [0..<4]"

definition swarDecodeTable :: "bool \<Rightarrow> u32 list list" where
  "swarDecodeTable isURL =
     (if isURL then buildSWARDecodeTable base64URLDecodeRule
      else buildSWARDecodeTable base64DecodeRule)"

subsection \<open>Base64SWAR.cpp\<close>

definition bytes_le_u32 :: "u32 \<Rightarrow> u8 list" where
  "bytes_le_u32 r = [ucast r, ucast (drop_bit 8 r), ucast (drop_bit 16 r), ucast (drop_bit 24 r)]"

fun base64DecodeTailSWAR :: "u8 list \<Rightarrow> cursor \<Rightarrow> u32 \<Rightarrow> (cursor \<times> u32) option" where
  "base64DecodeTailSWAR (c0 # c1 # c2 # c3 # _) o1 errorAccumulator =
     (let table = swarDecodeTable False ! 0;
          aaa = table ! unat c0;
          bbb = table ! unat c1 in
      do { o1 \<leftarrow> put (ucast (aaa OR drop_bit 6 bbb)) o1;
           let errorAccumulator = errorAccumulator OR (aaa OR bbb);
           if c2 = of_char CHR ''='' \<and> c3 = of_char CHR ''='' then
             Some (o1, if bbb AND 0x3c \<noteq> 0 then kSwarDecodeErrorMarker else errorAccumulator)
           else
             (let ccc = table ! unat c2 in
              do { o1 \<leftarrow> put (ucast (push_bit 2 bbb OR drop_bit 4 ccc)) o1;
                   let errorAccumulator = errorAccumulator OR ccc;
                   if c3 = of_char CHR ''='' then
                     Some (o1, if ccc AND 0xc \<noteq> 0 then kSwarDecodeErrorMarker else errorAccumulator)
                   else
                     (let ddd = table ! unat c3 in
                      do { o1 \<leftarrow> put (ucast (push_bit 4 ccc OR drop_bit 2 ddd)) o1;
                           Some (o1, errorAccumulator OR ddd) }) }) })"
| "base64DecodeTailSWAR _ o1 errorAccumulator = None"

fun base64URLDecodeTailSWAR :: "u8 list \<Rightarrow> cursor \<Rightarrow> u32 \<Rightarrow> (cursor \<times> u32) option" where
  "base64URLDecodeTailSWAR (c0 # c1 # r) o1 errorAccumulator =
     (let f = base64URLDecodeStripValidPadding (c0 # c1 # r);
          table = swarDecodeTable True ! 0;
          aaa = table ! unat c0;
          bbb = table ! unat c1 in
      do { o1 \<leftarrow> put (ucast (aaa OR drop_bit 6 bbb)) o1;
           let errorAccumulator = errorAccumulator OR (aaa OR bbb);
           if length f = 2 then Some (o1, errorAccumulator)
           else
             (let ccc = table ! unat (f ! 2) in
              do { o1 \<leftarrow> put (ucast (push_bit 2 bbb OR drop_bit 4 ccc)) o1;
                   let errorAccumulator = errorAccumulator OR ccc;
                   if length f = 3 then Some (o1, errorAccumulator)
                   else
                     (let ddd = table ! unat (f ! 3) in
                      do { o1 \<leftarrow> put (ucast (push_bit 4 ccc OR drop_bit 2 ddd)) o1;
                           Some (o1, errorAccumulator OR ddd) }) }) })"
| "base64URLDecodeTailSWAR _ o1 errorAccumulator = None"

fun base64DecodeSWARMainLoop ::
  "bool \<Rightarrow> u32 \<Rightarrow> u8 list \<Rightarrow> cursor \<Rightarrow> (u32 \<times> u8 list \<times> cursor) option" where
  "base64DecodeSWARMainLoop isURL errorAccumulator (c0 # c1 # c2 # c3 # c4 # f) o1 =
     (let r = swarDecodeTable isURL ! 0 ! unat c0 OR swarDecodeTable isURL ! 1 ! unat c1
            OR swarDecodeTable isURL ! 2 ! unat c2 OR swarDecodeTable isURL ! 3 ! unat c3;
          errorAccumulator = errorAccumulator OR r in
      do { o1 \<leftarrow> memcpy_advance (bytes_le_u32 r) 3 o1;
           base64DecodeSWARMainLoop isURL errorAccumulator (c4 # f) o1 })"
| "base64DecodeSWARMainLoop isURL errorAccumulator f o1 = Some (errorAccumulator, f, o1)"

definition base64DecodeSWAR :: "u8 list \<Rightarrow> cursor \<Rightarrow> Base64DecodeResult option" where
  "base64DecodeSWAR f o1 =
     (if f = [] then Some (True, o1)
      else if length f mod 4 \<noteq> 0 then Some (False, o1)
      else
        do { (errorAccumulator, f, o1) \<leftarrow> base64DecodeSWARMainLoop False 0 f o1;
             (o1, errorAccumulator) \<leftarrow> base64DecodeTailSWAR f o1 errorAccumulator;
             Some (errorAccumulator \<noteq> kSwarDecodeErrorMarker, o1) })"

definition base64URLDecodeSWAR :: "u8 list \<Rightarrow> cursor \<Rightarrow> Base64DecodeResult option" where
  "base64URLDecodeSWAR f o1 =
     (if f = [] then Some (True, o1)
      else if length f mod 4 = 1 then Some (False, o1)
      else
        do { (errorAccumulator, f, o1) \<leftarrow> base64DecodeSWARMainLoop True 0 f o1;
             (o1, errorAccumulator) \<leftarrow> base64URLDecodeTailSWAR f o1 errorAccumulator;
             Some (errorAccumulator \<noteq> kSwarDecodeErrorMarker, o1) })"

subsection \<open>Base64Api.h and Base64Api.cpp\<close>

record Base64RuntimeImpl =
  rt_encode :: "u8 list \<Rightarrow> cursor \<Rightarrow> cursor option"
  rt_encodeURL :: "u8 list \<Rightarrow> cursor \<Rightarrow> cursor option"
  rt_decode :: "u8 list \<Rightarrow> cursor \<Rightarrow> Base64DecodeResult option"
  rt_decodeURL :: "u8 list \<Rightarrow> cursor \<Rightarrow> Base64DecodeResult option"

definition base64EncodeSelectImplementation :: Base64RuntimeImpl where
  "base64EncodeSelectImplementation =
     \<lparr>rt_encode = base64EncodeScalar, rt_encodeURL = base64URLEncodeScalar,
      rt_decode = base64DecodeSWAR, rt_decodeURL = base64URLDecodeSWAR\<rparr>"

subsection \<open>base64.h\<close>

datatype base64_decode_error = Base64_Decoding_failed | Base64URL_Decoding_failed

text \<open>\<open>resizeWithoutInitialization\<close>: a buffer of \<open>n\<close> bytes with whatever memory \<open>m\<close> held.\<close>

definition resizeWithoutInitialization :: "(nat \<Rightarrow> u8) \<Rightarrow> nat \<Rightarrow> u8 list" where
  "resizeWithoutInitialization m n = map m [0..<n]"

definition base64Encode :: "(nat \<Rightarrow> u8) \<Rightarrow> u8 list \<Rightarrow> u8 list option" where
  "base64Encode m s =
     (let resSize = base64EncodedSize (length s);
          res = resizeWithoutInitialization m resSize in
      do { (res, o1) \<leftarrow> rt_encode base64EncodeSelectImplementation s (res, 0);
           Some res })"

definition base64URLEncode :: "(nat \<Rightarrow> u8) \<Rightarrow> u8 list \<Rightarrow> u8 list option" where
  "base64URLEncode m s =
     (let resSize = base64URLEncodedSize (length s);
          res = resizeWithoutInitialization m resSize in
      do { (res, o1) \<leftarrow> rt_encodeURL base64EncodeSelectImplementation s (res, 0);
           Some res })"

definition base64Decode :: "(nat \<Rightarrow> u8) \<Rightarrow> u8 list \<Rightarrow> (base64_decode_error + u8 list) option" where
  "base64Decode m s =
     (let resSize = base64DecodedSize s;
          res = resizeWithoutInitialization m resSize in
      do { (is_success, (res, o1)) \<leftarrow> rt_decode base64EncodeSelectImplementation s (res, 0);
           Some (if \<not> is_success then Inl Base64_Decoding_failed else Inr res) })"

definition base64URLDecode ::
  "(nat \<Rightarrow> u8) \<Rightarrow> u8 list \<Rightarrow> (base64_decode_error + u8 list) option" where
  "base64URLDecode m s =
     (let resSize = base64URLDecodedSize s;
          res = resizeWithoutInitialization m resSize in
      do { (is_success, (res, o1)) \<leftarrow> rt_decodeURL base64EncodeSelectImplementation s (res, 0);
           Some (if \<not> is_success then Inl Base64URL_Decoding_failed else Inr res) })"

section \<open>The tables\<close>

lemma swarDecodeTable_nth:
  assumes "i < 4"
  shows "swarDecodeTable u ! i ! unat c =
    (if validSymbol u c then swarShift i (ucast (decodeRule u c)) else kSwarDecodeErrorMarker)"
proof -
  have "unat c < 256" using unsigned_less [of c] by simp
  then have "buildSWARDecodeTable r ! i ! unat c =
      (if r c = kDecodeErrorMarker then kSwarDecodeErrorMarker else swarShift i (ucast (r c)))" for r
    using assms by (simp add: buildSWARDecodeTable_def Let_def del: upt_rec_numeral)
  then show ?thesis
    by (simp add: swarDecodeTable_def validSymbol_def decodeRule_def)
qed
lemma ucast_bits: "bit (ucast (x :: u8) :: u32) n \<longleftrightarrow> bit x n"
  using bit_imp_le_length [of x n] by (auto simp: bit_simps)

lemma swar_group:
  assumes "list_all (validSymbol u) [c0, c1, c2, c3]"
  defines "r \<equiv> swarDecodeTable u ! 0 ! unat c0 OR swarDecodeTable u ! 1 ! unat c1
    OR swarDecodeTable u ! 2 ! unat c2 OR swarDecodeTable u ! 3 ! unat c3"
  shows "bytes_le_u32 r = base64DecodePack4To3 (decodeRule u c0) (decodeRule u c1)
      (decodeRule u c2) (decodeRule u c3) @ [0]"
    and "\<not> bit r 31"
proof -
  have "sextet (decodeRule u c)" if "validSymbol u c" for c
    using that flagged_decodeRule [of u c] by (simp add: validSymbol_def flagged_def)
  then have six: "\<not> bit (decodeRule u c) 6" "\<not> bit (decodeRule u c) 7" if "validSymbol u c" for c
    using that by (simp_all add: sextet_bits)
  note r = r_def swarDecodeTable_nth swarShift_def
  from assms(1) six show "bytes_le_u32 r = base64DecodePack4To3 (decodeRule u c0) (decodeRule u c1)
      (decodeRule u c2) (decodeRule u c3) @ [0]"
    by (simp add: r bytes_le_u32_def base64DecodePack4To3_def u8_eq_iff bit_simps ucast_bits
        bit_word_high)
  from assms(1) six show "\<not> bit r 31"
    by (simp add: r bit_simps ucast_bits bit_word_high)
qed

text \<open>Table entries and their ORs are the marker or have a clear top bit.\<close>

definition flagged32 :: "u32 \<Rightarrow> bool" where
  "flagged32 x \<longleftrightarrow> x = kSwarDecodeErrorMarker \<or> \<not> bit x 31"

lemma marker32: "kSwarDecodeErrorMarker = - 1"
  by (simp add: kSwarDecodeErrorMarker_def)

lemma flagged32_or:
  assumes "flagged32 x" and "flagged32 y"
  shows "flagged32 (x OR y)"
    "x OR y = kSwarDecodeErrorMarker \<longleftrightarrow> x = kSwarDecodeErrorMarker \<or> y = kSwarDecodeErrorMarker"
proof -
  have "bit (- 1 :: u32) 31" by simp
  then have "\<not> bit x 31 \<Longrightarrow> \<not> bit y 31 \<Longrightarrow> x OR y \<noteq> - 1"
    by (metis bit_or_iff)
  with assms show "flagged32 (x OR y)"
    "x OR y = kSwarDecodeErrorMarker \<longleftrightarrow> x = kSwarDecodeErrorMarker \<or> y = kSwarDecodeErrorMarker"
    by (auto simp: flagged32_def marker32 bit_or_iff)
qed

lemma swar_entry:
  assumes "i < 4"
  shows "flagged32 (swarDecodeTable u ! i ! unat c)"
    "swarDecodeTable u ! i ! unat c = kSwarDecodeErrorMarker \<longleftrightarrow> \<not> validSymbol u c"
proof -
  have "\<not> bit (swarShift i (ucast (decodeRule u c))) 31"
    by (auto simp: swarShift_def bit_simps ucast_bits bit_word_high)
  moreover have "bit kSwarDecodeErrorMarker 31"
    by (simp add: marker32)
  ultimately show "flagged32 (swarDecodeTable u ! i ! unat c)"
    "swarDecodeTable u ! i ! unat c = kSwarDecodeErrorMarker \<longleftrightarrow> \<not> validSymbol u c"
    using assms by (auto simp: swarDecodeTable_nth flagged32_def)
qed

section \<open>The main loop\<close>

text \<open>
  What a run over all groups but the last leaves: the input, the error flag, a cursor at the
  right offset, and, without error, a buffer to which a further nonempty write completes the
  reference output. The fourth byte of each store is overwritten by the next one.
\<close>

definition swarMainPost :: "bool \<Rightarrow> u32 \<Rightarrow> u8 list \<Rightarrow> cursor \<Rightarrow> u32 \<times> u8 list \<times> cursor \<Rightarrow> bool" where
  "swarMainPost u acc f s = (\<lambda>(acc', g, t).
     (let k = 4 * fullGroups f in
      g = drop k f \<and> flagged32 acc'
      \<and> (acc' = kSwarDecodeErrorMarker
          \<longleftrightarrow> acc = kSwarDecodeErrorMarker \<or> \<not> list_all (validSymbol u) (take k f))
      \<and> length (fst t) = length (fst s) \<and> snd t = snd s + 3 * fullGroups f
      \<and> (list_all (validSymbol u) (take k f) \<longrightarrow>
          (\<forall>ys. ys \<noteq> [] \<longrightarrow> write_bytes ys t
             = write_bytes (packAll (map (decodeRule u) (take k f)) @ ys) s))))"

lemma fullGroups_Cons: "fullGroups (c0 # c1 # c2 # c3 # c4 # f) = Suc (fullGroups (c4 # f))"
  using div_add_self1 [of 4 "length f"] by (simp add: fullGroups_def)

lemma fullGroups_small: "length f \<le> 4 \<Longrightarrow> fullGroups f = 0"
  by (simp add: fullGroups_def)

lemma swarMainPost_step:
  fixes u c0 c1 c2 c3
  defines "p \<equiv> base64DecodePack4To3 (decodeRule u c0) (decodeRule u c1) (decodeRule u c2) (decodeRule u c3)"
  assumes "flagged32 acc" and "flagged32 r"
    and "r = kSwarDecodeErrorMarker \<longleftrightarrow> \<not> list_all (validSymbol u) [c0, c1, c2, c3]"
    and "length (fst t) = length (fst s)" and "snd t = snd s + 3"
    and wr: "\<And>ys. list_all (validSymbol u) [c0, c1, c2, c3] \<Longrightarrow> ys \<noteq> [] \<Longrightarrow>
      write_bytes ys t = write_bytes (p @ ys) s"
    and post: "swarMainPost u (acc OR r) (c4 # f) t (acc', g, t')"
  shows "swarMainPost u acc (c0 # c1 # c2 # c3 # c4 # f) s (acc', g, t')"
proof -
  let ?k = "4 * fullGroups (c4 # f)"
  have "\<forall>ys. ys \<noteq> [] \<longrightarrow> write_bytes ys t'
      = write_bytes (p @ packAll (map (decodeRule u) (take ?k (c4 # f))) @ ys) s"
    if "list_all (validSymbol u) (c0 # c1 # c2 # c3 # take ?k (c4 # f))"
    using that post wr by (simp add: swarMainPost_def Let_def)
  then show ?thesis
    using assms(2-6) post
    unfolding swarMainPost_def Let_def prod.case fullGroups_Cons take_drop_group p_def
    by (simp add: flagged32_or) blast
qed

lemma swar_main:
  assumes "f \<noteq> []" and "flagged32 acc" and "snd s + 3 * fullGroups f + 1 \<le> length (fst s)"
  shows "\<exists>x. base64DecodeSWARMainLoop u acc f s = Some x \<and> swarMainPost u acc f s x"
  using assms
proof (induction u acc f s rule: base64DecodeSWARMainLoop.induct)
  case (1 u acc c0 c1 c2 c3 c4 f s)
  let ?r = "swarDecodeTable u ! 0 ! unat c0 OR swarDecodeTable u ! 1 ! unat c1
    OR swarDecodeTable u ! 2 ! unat c2 OR swarDecodeTable u ! 3 ! unat c3"
  let ?p = "base64DecodePack4To3 (decodeRule u c0) (decodeRule u c1) (decodeRule u c2) (decodeRule u c3)"
  obtain t where t: "memcpy_advance (bytes_le_u32 ?r) 3 s = Some t"
    and len: "length (fst t) = length (fst s)" and off: "snd t = snd s + 3"
    using 1(4) by (cases s) (auto simp: memcpy_advance_def bytes_le_u32_def fullGroups_Cons)
  have r: "flagged32 ?r"
    "?r = kSwarDecodeErrorMarker \<longleftrightarrow> \<not> list_all (validSymbol u) [c0, c1, c2, c3]"
    by (simp_all add: flagged32_or swar_entry)
  obtain x where x: "base64DecodeSWARMainLoop u (acc OR ?r) (c4 # f) t = Some x"
    and post: "swarMainPost u (acc OR ?r) (c4 # f) t x"
    using "1.IH" [OF refl refl t] 1(3,4) r len off
    by (auto simp: fullGroups_Cons flagged32_or)
  have "write_bytes ys t = write_bytes (?p @ ys) s"
    if "list_all (validSymbol u) [c0, c1, c2, c3]" and "ys \<noteq> []" for ys
  proof -
    have "length ?p = 3" by (simp add: base64DecodePack4To3_def)
    with memcpy_advance_write_bytes [of 3 "?p @ [0]" ys s] that(2)
    have "Option.bind (memcpy_advance (?p @ [0]) 3 s) (write_bytes ys) = write_bytes (?p @ ys) s"
      by (cases ys) simp_all
    then show ?thesis
      by (simp only: t [unfolded swar_group(1) [OF that(1)]] Option.bind.simps)
  qed
  with post have "swarMainPost u acc (c0 # c1 # c2 # c3 # c4 # f) s x"
    using r 1(3) len off by (cases x) (auto intro: swarMainPost_step)
  with t x show ?case by simp
qed (auto simp: swarMainPost_def fullGroups_small)

section \<open>The last group\<close>

definition swarTail :: "bool \<Rightarrow> u8 list \<Rightarrow> u8 list" where
  "swarTail u f =
     (let g = base64URLDecodeStripValidPadding f;
          v = (\<lambda>i. swarDecodeTable u ! 0 ! unat (g ! i)) in
      if length g = 2 then [ucast (v 0 OR drop_bit 6 (v 1))]
      else if length g = 3 then
        [ucast (v 0 OR drop_bit 6 (v 1)), ucast (push_bit 2 (v 1) OR drop_bit 4 (v 2))]
      else
        [ucast (v 0 OR drop_bit 6 (v 1)), ucast (push_bit 2 (v 1) OR drop_bit 4 (v 2)),
         ucast (push_bit 4 (v 2) OR drop_bit 2 (v 3))])"

definition swarTailError :: "bool \<Rightarrow> u8 list \<Rightarrow> u32 \<Rightarrow> u32" where
  "swarTailError u f acc =
     (let g = base64URLDecodeStripValidPadding f;
          v = (\<lambda>i. swarDecodeTable u ! 0 ! unat (g ! i)) in
      if \<not> u \<and> (length g = 2 \<and> v 1 AND 0x3c \<noteq> 0 \<or> length g = 3 \<and> v 2 AND 0xc \<noteq> 0)
      then kSwarDecodeErrorMarker
      else fold (\<lambda>c a. a OR swarDecodeTable u ! 0 ! unat c) g acc)"

lemmas swar_tail_simps = Let_def cursor_simps bind_Some_map write_bytes_bind_map swarTail_def
  swarTailError_def or.assoc

lemma base64DecodeTailSWAR_write:
  "base64DecodeTailSWAR [c0, c1, c2, c3] s acc
   = map_option (\<lambda>t. (t, swarTailError False [c0, c1, c2, c3] acc))
       (write_bytes (swarTail False [c0, c1, c2, c3]) s)"
  by (simp add: swar_tail_simps)

lemma base64URLDecodeTailSWAR_write:
  assumes "2 \<le> length g" and "length g \<le> 4"
  shows "base64URLDecodeTailSWAR g s acc
    = map_option (\<lambda>t. (t, swarTailError True g acc)) (write_bytes (swarTail True g) s)"
  using assms by (cases g rule: group_cases) (simp_all add: swar_tail_simps)

lemma swar_entry0:
  "validSymbol u c \<Longrightarrow> swarDecodeTable u ! 0 ! unat c = push_bit 2 (ucast (decodeRule u c))"
  by (simp add: swarDecodeTable_nth swarShift_def)

lemma valid_bits:
  "validSymbol u c \<Longrightarrow> \<not> bit (decodeRule u c) 6" "validSymbol u c \<Longrightarrow> \<not> bit (decodeRule u c) 7"
  using flagged_decodeRule [of u c] by (simp_all add: validSymbol_def flagged_def sextet_bits)

lemma swar_pair:
  assumes "validSymbol u c" and "validSymbol u d"
  defines "v \<equiv> \<lambda>c. swarDecodeTable u ! 0 ! unat c"
  shows "ucast (v c OR drop_bit 6 (v d)) = push_bit 2 (decodeRule u c) OR drop_bit 4 (decodeRule u d)"
    "ucast (push_bit 2 (v c) OR drop_bit 4 (v d)) = push_bit 4 (decodeRule u c) OR drop_bit 2 (decodeRule u d)"
    "ucast (push_bit 4 (v c) OR drop_bit 2 (v d)) = push_bit 6 (decodeRule u c) OR decodeRule u d"
  using assms(1,2)
  by (simp_all add: v_def swar_entry0 u8_eq_iff bit_simps ucast_bits bit_word_high valid_bits)

lemma swarTail_bytes:
  assumes "fst (refTail u g)" and "length g \<le> 4"
  shows "swarTail u g = snd (refTail u g)"
proof -
  have "2 \<le> length g"
    using assms(1) by (auto simp: refTail_def Let_def base64URLDecodeStripValidPadding_def split: if_splits)
  then show ?thesis
    using assms(2)
    by (cases g rule: group_cases)
      (use assms(1) in \<open>auto simp: refTail_def swarTail_def Let_def base64DecodePack4To3_def
        swar_pair padding_not_valid split: if_splits\<close>)
qed

lemma swarTail_length:
  assumes "2 \<le> length g" and "length g \<le> 4"
  shows "length (swarTail u g) = length (snd (refTail u g))" "swarTail u g \<noteq> []"
  using assms
  by (cases g rule: group_cases; simp add: refTail_def swarTail_def Let_def base64DecodePack4To3_def)+

lemma fold_flagged32:
  "flagged32 acc \<Longrightarrow>
   fold (\<lambda>c a. a OR swarDecodeTable u ! 0 ! unat c) g acc = kSwarDecodeErrorMarker
   \<longleftrightarrow> acc = kSwarDecodeErrorMarker \<or> \<not> list_all (validSymbol u) g"
  by (induction g arbitrary: acc) (auto simp: flagged32_or swar_entry)

lemma push_ucast_zero: "push_bit 2 (ucast (y :: u8) :: u32) = 0 \<longleftrightarrow> y = 0"
proof
  assume zero: "push_bit 2 (ucast y :: u32) = 0"
  show "y = 0"
  proof (rule bit_word_eqI)
    fix n
    assume "n < LENGTH(8)"
    moreover have "\<not> bit (push_bit 2 (ucast y :: u32)) (n + 2)"
      by (simp add: zero)
    ultimately show "bit y n = bit 0 n" by (simp add: bit_simps)
  qed
qed simp

lemma swar_trailing:
  assumes "validSymbol u c"
  shows "swarDecodeTable u ! 0 ! unat c AND 0x3c = 0 \<longleftrightarrow> decodeRule u c AND 0xf = 0"
    "swarDecodeTable u ! 0 ! unat c AND 0xc = 0 \<longleftrightarrow> decodeRule u c AND 0x3 = 0"
proof -
  let ?d = "decodeRule u c"
  have "push_bit 2 (ucast ?d :: u32) AND 0x3c = push_bit 2 (ucast (?d AND 0xf))"
    "push_bit 2 (ucast ?d :: u32) AND 0xc = push_bit 2 (ucast (?d AND 0x3))"
    by (simp_all add: unsigned_and_eq)
  with assms show "swarDecodeTable u ! 0 ! unat c AND 0x3c = 0 \<longleftrightarrow> ?d AND 0xf = 0"
    "swarDecodeTable u ! 0 ! unat c AND 0xc = 0 \<longleftrightarrow> ?d AND 0x3 = 0"
    by (simp_all only: swar_entry0 push_ucast_zero)
qed

lemma swarTailError_iff:
  assumes "flagged32 acc" and "2 \<le> length g"
  shows "swarTailError u g acc = kSwarDecodeErrorMarker
    \<longleftrightarrow> acc = kSwarDecodeErrorMarker \<or> \<not> fst (refTail u g)"
proof -
  let ?g = "base64URLDecodeStripValidPadding g"
  have len: "2 \<le> length ?g"
    using assms(2) by (simp add: base64URLDecodeStripValidPadding_def Let_def)
  show ?thesis
  proof (cases "list_all (validSymbol u) ?g")
    case True
    then have "length ?g = 2 \<longrightarrow> validSymbol u (?g ! 1)" "length ?g = 3 \<longrightarrow> validSymbol u (?g ! 2)"
      by (simp_all add: list_all_length)
    with True len assms(1) show ?thesis
      by (auto simp: swarTailError_def refTail_def trailingBits_def Let_def fold_flagged32 swar_trailing)
  next
    case False
    with len assms(1) show ?thesis
      by (auto simp: swarTailError_def refTail_def Let_def fold_flagged32)
  qed
qed

section \<open>The SWAR decoders refine the reference\<close>

definition decodesTo :: "bool \<times> u8 list \<Rightarrow> cursor \<Rightarrow> Base64DecodeResult option \<Rightarrow> bool" where
  "decodesTo ref s res \<longleftrightarrow>
     (\<exists>t. res = Some (fst ref, t) \<and> length (fst t) = length (fst s)
        \<and> (fst ref \<longrightarrow> write_bytes (snd ref) s = Some t))"

lemma swar_refines:
  assumes "f \<noteq> []" and "g = drop (4 * fullGroups f) f" and "2 \<le> length g" and "length g \<le> 4"
    and fits: "snd s + length (snd (refDecode u f)) \<le> length (fst s)"
    and tail: "\<And>t acc. tail g t acc
      = map_option (\<lambda>t. (t, swarTailError u g acc)) (write_bytes (swarTail u g) t)"
  shows "decodesTo (refDecode u f) s (Option.bind (base64DecodeSWARMainLoop u 0 f s)
      (\<lambda>(acc, f, t). Option.bind (tail f t acc) (\<lambda>(t, e). Some (e \<noteq> kSwarDecodeErrorMarker, t))))"
proof -
  let ?k = "4 * fullGroups f"
  note tail_len = swarTail_length [OF assms(3,4), of u]
  have len: "length (snd (refDecode u f)) = 3 * fullGroups f + length (swarTail u g)"
    by (simp only: length_refDecode [OF assms(1)] assms(2) [symmetric] tail_len(1))
  then have "snd s + 3 * fullGroups f + 1 \<le> length (fst s)"
    using fits tail_len(2) by (cases "swarTail u g") auto
  moreover have "flagged32 0" by (simp add: flagged32_def)
  ultimately obtain acc t where main: "base64DecodeSWARMainLoop u 0 f s = Some (acc, g, t)"
    and post: "swarMainPost u 0 f s (acc, g, t)"
    using swar_main [OF assms(1), of 0 s u] assms(2) by (auto simp: swarMainPost_def Let_def)
  from post have acc: "flagged32 acc"
      "acc = kSwarDecodeErrorMarker \<longleftrightarrow> \<not> list_all (validSymbol u) (take ?k f)"
    and t: "length (fst t) = length (fst s)" "snd t = snd s + 3 * fullGroups f"
    and wr: "list_all (validSymbol u) (take ?k f) \<Longrightarrow> ys \<noteq> [] \<Longrightarrow> write_bytes ys t
      = write_bytes (packAll (map (decodeRule u) (take ?k f)) @ ys) s" for ys
    by (simp_all add: swarMainPost_def Let_def kSwarDecodeErrorMarker_def)
  have ref: "refDecode u f = (list_all (validSymbol u) (take ?k f) \<and> fst (refTail u g),
      packAll (map (decodeRule u) (take ?k f)) @ snd (refTail u g))"
    using assms(1) by (simp add: refDecode_def Let_def case_prod_beta assms(2) [symmetric])
  have "snd t + length (swarTail u g) \<le> length (fst t)"
    using fits len t by simp
  then obtain t' where t': "write_bytes (swarTail u g) t = Some t'"
    using write_bytes_Some_iff [of "swarTail u g" "fst t" "snd t"] by auto
  have ok: "swarTailError u g acc \<noteq> kSwarDecodeErrorMarker \<longleftrightarrow> fst (refDecode u f)"
    by (simp add: swarTailError_iff [OF acc(1) assms(3)] acc(2) ref)
  have "write_bytes (snd (refDecode u f)) s = Some t'" if "fst (refDecode u f)"
    using that wr [OF _ tail_len(2)] t' swarTail_bytes [OF _ assms(4), of u] by (simp add: ref)
  moreover have "Option.bind (base64DecodeSWARMainLoop u 0 f s)
      (\<lambda>(acc, f, t). Option.bind (tail f t acc) (\<lambda>(t, e). Some (e \<noteq> kSwarDecodeErrorMarker, t)))
    = Some (fst (refDecode u f), t')"
    by (simp add: main tail t' ok)
  moreover have "length (fst t') = length (fst s)"
    using write_bytes_SomeD(1) [of "swarTail u g" "fst t" "snd t" "fst t'" "snd t'"] t(1) t' by simp
  ultimately show ?thesis by (simp add: decodesTo_def)
qed

lemma decodesTo_Nil: "snd s \<le> length (fst s) \<Longrightarrow> decodesTo (refDecode u []) s (Some (True, s))"
  by (simp add: decodesTo_def refDecode_def write_bytes_Nil)

lemma base64DecodeSWAR_refines:
  assumes "length f mod 4 = 0" and "snd s + base64DecodedSize f \<le> length (fst s)"
  shows "decodesTo (refDecode False f) s (base64DecodeSWAR f s)"
proof (cases "f = []")
  case False
  then show ?thesis
  proof (cases f rule: last_quad)
    case (four c0 c1 c2 c3)
    have "decodesTo (refDecode False f) s (Option.bind (base64DecodeSWARMainLoop False 0 f s)
      (\<lambda>(acc, f, t). Option.bind (base64DecodeTailSWAR f t acc)
        (\<lambda>(t, e). Some (e \<noteq> kSwarDecodeErrorMarker, t))))"
      using assms
      by (intro swar_refines [OF False four(1) [symmetric]] base64DecodeTailSWAR_write)
        (simp_all add: length_refDecode_std)
    with False assms(1) show ?thesis by (simp add: base64DecodeSWAR_def)
  qed (use assms in simp_all)
qed (use assms in \<open>simp add: base64DecodeSWAR_def decodesTo_Nil\<close>)

lemma base64URLDecodeSWAR_refines:
  assumes "length f mod 4 \<noteq> 1" and "snd s + base64URLDecodedSize f \<le> length (fst s)"
  shows "decodesTo (refDecode True f) s (base64URLDecodeSWAR f s)"
proof (cases "f = []")
  case False
  let ?g = "drop (4 * fullGroups f) f"
  have g: "2 \<le> length ?g" "length ?g \<le> 4"
    by (rule last_quad [OF False]; use assms(1) in simp)+
  have "decodesTo (refDecode True f) s (Option.bind (base64DecodeSWARMainLoop True 0 f s)
      (\<lambda>(acc, f, t). Option.bind (base64URLDecodeTailSWAR f t acc)
        (\<lambda>(t, e). Some (e \<noteq> kSwarDecodeErrorMarker, t))))"
    using assms g
    by (intro swar_refines [OF False refl] base64URLDecodeTailSWAR_write)
      (simp_all add: length_refDecode_url)
  with False assms(1) show ?thesis by (simp add: base64URLDecodeSWAR_def)
qed (use assms in \<open>simp add: base64URLDecodeSWAR_def decodesTo_Nil\<close>)

lemma url_dangling_symbol:
  assumes "length f mod 4 = 1"
  shows "\<not> fst (refDecode True f)"
proof -
  have "f \<noteq> []" using assms by auto
  moreover obtain c0 where "drop (4 * fullGroups f) f = [c0]"
    by (rule last_quad [OF \<open>f \<noteq> []\<close>]) (use assms in simp_all)
  ultimately show ?thesis
    by (simp add: refDecode_def refTail_def Let_def)
qed

section \<open>The string functions\<close>

lemma decodesTo_exact:
  assumes "decodesTo ref (b, 0) res" and "length b = length (snd ref)"
  shows "\<exists>b' i. res = Some (fst ref, (b', i)) \<and> (fst ref \<longrightarrow> b' = snd ref)"
  using assms write_bytes_exact [of b "snd ref"] by (auto simp: decodesTo_def)

lemma base64Encode_eq: "base64Encode m s = Some (refEncode False s)"
  and base64URLEncode_eq: "base64URLEncode m s = Some (refEncode True s)"
  by (simp_all add: base64Encode_def base64URLEncode_def base64EncodeSelectImplementation_def
      base64EncodeScalar_def base64URLEncodeScalar_def encode_refines Let_def
      resizeWithoutInitialization_def write_bytes_exact length_refEncode)

lemma base64Decode_eq:
  "base64Decode m s =
     Some (if length s mod 4 = 0 \<and> fst (refDecode False s) then Inr (snd (refDecode False s))
           else Inl Base64_Decoding_failed)"
proof (cases "length s mod 4 = 0")
  case True
  have "decodesTo (refDecode False s) (resizeWithoutInitialization m (base64DecodedSize s), 0)
    (base64DecodeSWAR s (resizeWithoutInitialization m (base64DecodedSize s), 0))"
    using True by (intro base64DecodeSWAR_refines) (simp_all add: resizeWithoutInitialization_def)
  from decodesTo_exact [OF this] True show ?thesis
    by (auto simp: base64Decode_def base64EncodeSelectImplementation_def Let_def
        resizeWithoutInitialization_def length_refDecode_std)
next
  case False
  then show ?thesis
    by (auto simp: base64Decode_def base64EncodeSelectImplementation_def Let_def base64DecodeSWAR_def)
qed

lemma base64URLDecode_eq:
  "base64URLDecode m s =
     Some (if fst (refDecode True s) then Inr (snd (refDecode True s))
           else Inl Base64URL_Decoding_failed)"
proof (cases "length s mod 4 = 1")
  case True
  then show ?thesis
    by (auto simp: base64URLDecode_def base64EncodeSelectImplementation_def Let_def
        base64URLDecodeSWAR_def url_dangling_symbol)
next
  case False
  have "decodesTo (refDecode True s) (resizeWithoutInitialization m (base64URLDecodedSize s), 0)
    (base64URLDecodeSWAR s (resizeWithoutInitialization m (base64URLDecodedSize s), 0))"
    using False by (intro base64URLDecodeSWAR_refines) (simp_all add: resizeWithoutInitialization_def)
  from decodesTo_exact [OF this] show ?thesis
    by (auto simp: base64URLDecode_def base64EncodeSelectImplementation_def Let_def
        resizeWithoutInitialization_def length_refDecode_url)
qed

definition base64Text :: "(nat \<Rightarrow> u8) \<Rightarrow> u8 list \<Rightarrow> u8 list" where
  "base64Text m xs = the (base64Encode m xs)"

definition base64Bytes :: "(nat \<Rightarrow> u8) \<Rightarrow> u8 list \<Rightarrow> u8 list option" where
  "base64Bytes m s = (case base64Decode m s of Some (Inr xs) \<Rightarrow> Some xs | _ \<Rightarrow> None)"

interpretation base64: canonical_block_codec "base64Text m" "base64Bytes m" for m
proof
  show "base64Bytes m (base64Text m xs) = Some xs" for xs
    by (simp add: base64Bytes_def base64Text_def base64Encode_eq base64Decode_eq
        refDecode_refEncode length_refEncode base64EncodedSize_def)
  show "base64Bytes m bs = Some xs \<Longrightarrow> bs = base64Text m xs" for bs xs
    by (auto simp: base64Bytes_def base64Text_def base64Encode_eq base64Decode_eq refDecode_strict
        split: if_splits)
qed

section \<open>Properties\<close>

text \<open>
  C12. Standard base64 is strict and lossless: decoding a string succeeds with \<open>xs\<close> exactly when
  the string is the encoding of \<open>xs\<close>; every other string, including one with nonzero trailing
  bits or misplaced padding, throws. Neither function leaves its buffer, whatever the
  uninitialised memory held.
\<close>

theorem base64_strict_roundtrip:
  "(base64Decode m s = Some (Inr xs) \<longleftrightarrow> base64Encode m' xs = Some s)
   \<and> (\<exists>r. base64Decode m s = Some r)
   \<and> (\<exists>t. base64Encode m xs = Some t \<and> length t = base64EncodedSize (length xs))"
proof -
  have "base64Decode m s = Some (Inr xs) \<longleftrightarrow> base64Bytes m s = Some xs"
    by (simp add: base64Bytes_def base64Decode_eq)
  also have "\<dots> \<longleftrightarrow> s = base64Text m xs"
    by (rule base64.block_dec_iff)
  also have "\<dots> \<longleftrightarrow> base64Encode m' xs = Some s"
    by (auto simp: base64Text_def base64Encode_eq)
  finally show ?thesis
    by (simp add: base64Decode_eq [of m s] base64Encode_eq length_refEncode)
qed

text \<open>
  C20. The URL decoder accepts both variants: the URL encoding without padding and the standard
  encoding with padding both decode to the original bytes, and it never leaves its buffer.
\<close>

theorem base64_url_accepts_both:
  "(\<exists>t u. base64Encode m xs = Some t \<and> base64URLEncode m xs = Some u
      \<and> length u = base64URLEncodedSize (length xs)
      \<and> base64URLDecode m' t = Some (Inr xs) \<and> base64URLDecode m' u = Some (Inr xs))
   \<and> (\<exists>r. base64URLDecode m s = Some r)"
  by (simp add: base64Encode_eq base64URLEncode_eq base64URLDecode_eq refDecode_refEncode
      length_refEncode)

lemma decodesTo_scalar:
  assumes "decodesTo ref s (Some (ok, t))" and "snd s + length (snd ref) \<le> length (fst s)"
  shows "\<exists>t'. map_option (Pair (fst ref)) (write_bytes (snd ref) s) = Some (ok, t') \<and> (ok \<longrightarrow> t = t')"
  using assms write_bytes_Some_iff [of "snd ref" "fst s" "snd s"] by (auto simp: decodesTo_def)

text \<open>
  C19. The SWAR decoders agree with the scalar ones: given a buffer of the announced decoded size,
  both return, with the same verdict, and on success leave the same buffer and cursor, although
  the SWAR loop stores a fourth byte past every group.
\<close>

theorem base64_swar_equals_scalar:
  "(snd s + base64DecodedSize f \<le> length (fst s) \<longrightarrow>
    (\<exists>ok t t'. base64DecodeSWAR f s = Some (ok, t) \<and> base64DecodeScalar f s = Some (ok, t')
      \<and> (ok \<longrightarrow> t = t')))
   \<and> (snd s + base64URLDecodedSize f \<le> length (fst s) \<longrightarrow>
    (\<exists>ok t t'. base64URLDecodeSWAR f s = Some (ok, t) \<and> base64URLDecodeScalar f s = Some (ok, t')
      \<and> (ok \<longrightarrow> t = t')))"
proof (intro conjI impI)
  assume fits: "snd s + base64DecodedSize f \<le> length (fst s)"
  show "\<exists>ok t t'. base64DecodeSWAR f s = Some (ok, t) \<and> base64DecodeScalar f s = Some (ok, t')
      \<and> (ok \<longrightarrow> t = t')"
  proof (cases "length f mod 4 = 0")
    case True
    from base64DecodeSWAR_refines [OF this fits] obtain ok t where
      "base64DecodeSWAR f s = Some (ok, t)" "decodesTo (refDecode False f) s (Some (ok, t))"
      by (auto simp: decodesTo_def)
    with decodesTo_scalar [of "refDecode False f" s ok t] fits True show ?thesis
      by (simp add: length_refDecode_std base64DecodeScalar_refines)
  qed (auto simp: base64DecodeSWAR_def base64DecodeScalar_def)
next
  assume fits: "snd s + base64URLDecodedSize f \<le> length (fst s)"
  then obtain t' where scalar: "base64URLDecodeScalar f s = Some (fst (refDecode True f), t')"
    using write_bytes_Some_iff [of "snd (refDecode True f)" "fst s" "snd s"]
    by (auto simp: base64URLDecodeScalar_refines length_refDecode_url)
  show "\<exists>ok t t'. base64URLDecodeSWAR f s = Some (ok, t) \<and> base64URLDecodeScalar f s = Some (ok, t')
      \<and> (ok \<longrightarrow> t = t')"
  proof (cases "length f mod 4 = 1")
    case False
    from base64URLDecodeSWAR_refines [OF this fits] obtain ok t where
      "base64URLDecodeSWAR f s = Some (ok, t)" "decodesTo (refDecode True f) s (Some (ok, t))"
      by (auto simp: decodesTo_def)
    with decodesTo_scalar [of "refDecode True f" s ok t] fits show ?thesis
      by (simp add: length_refDecode_url base64URLDecodeScalar_refines)
  qed (use scalar url_dangling_symbol in \<open>auto simp: base64URLDecodeSWAR_def\<close>)
qed

theorem base64_swar_equals_scalar_witness:
  "\<exists>ok t t'. base64DecodeSWAR (map of_char ''Zm9vYg=='') (replicate 4 0, 0) = Some (ok, t)
     \<and> base64DecodeScalar (map of_char ''Zm9vYg=='') (replicate 4 0, 0) = Some (ok, t')
     \<and> (ok \<longrightarrow> t = t')"
  using base64_swar_equals_scalar [of "(replicate 4 0, 0)" "map of_char ''Zm9vYg==''"]
  by (simp add: base64DecodedSize_def base64PaddingToSubtract_def)

text \<open>
  The encoder writes exactly the announced number of bytes: it returns whenever they fit,
  leaves the rest of the buffer as it was and the cursor behind the last byte.
\<close>

theorem base64_encode_bounds:
  assumes "i + base64EncodedSize (length f) \<le> length b"
  shows "\<exists>b'. base64EncodeScalar f (b, i) = Some (b', i + base64EncodedSize (length f))
    \<and> length b' = length b \<and> take i b' = take i b
    \<and> drop (i + base64EncodedSize (length f)) b' = drop (i + base64EncodedSize (length f)) b"
  using assms
  by (simp add: base64EncodeScalar_def encode_refines write_bytes_def length_refEncode)

theorem base64_encode_bounds_witness:
  "\<exists>b'. base64EncodeScalar [1, 2] (replicate 6 0, 1) = Some (b', 1 + base64EncodedSize 2)
    \<and> length b' = 6 \<and> take 1 b' = [0] \<and> drop (1 + base64EncodedSize 2) b' = [0]"
  using base64_encode_bounds [of 1 "[1, 2]" "replicate 6 0"]
  by (simp add: base64EncodedSize_def)

end
