(* ===== verification/SpookyHash_Common.thy ===== *)
theory SpookyHash_Common
  imports Folly_Prelude
begin

text \<open>
  What the two versions of SpookyHash share: constants, little-endian reads, the rows of the
  mixing functions (each function is a sequence of rows of one shape with indices that advance
  by one, so that a function is given by its rotation amounts), the object's fields, and two
  interfaces. \<open>block_mixer\<close> is a mixing function that looks at one block; \<open>streaming_hash\<close>
  is an Init/Update/Final object that promises the hash of the concatenation of its input.

  A message, a pointer and a length in the code, is a list of bytes. Whether a pointer is
  aligned only selects between reading in place and reading a copy; where the copy overwrites
  the object's buffer the choice is the argument \<open>direct\<close>.
\<close>

section \<open>Constants and reads\<close>

definition sc_numVars :: nat where
  "sc_numVars = 12"

definition sc_blockSize :: nat where
  "sc_blockSize = sc_numVars * 8"

definition sc_bufSize :: nat where
  "sc_bufSize = 2 * sc_blockSize"

definition sc_const :: u64 where
  "sc_const = 0xdeadbeefdeadbeef"

definition word_of_le :: "u8 list \<Rightarrow> u64" where
  "word_of_le bs = foldr (\<lambda>b w. push_bit 8 w OR ucast b) bs 0"

definition Read8 :: "u8 list \<Rightarrow> nat \<Rightarrow> u64" where
  "Read8 buf off = word_of_le (take 8 (drop (8 * off) buf))"

definition Rot64 :: "u64 \<Rightarrow> nat \<Rightarrow> u64" where
  "Rot64 x k = push_bit k x OR drop_bit (64 - k) x"

text \<open>\<open>memcpy(&data[i], xs, length xs)\<close>\<close>

definition memcpy_at :: "nat \<Rightarrow> 'a list \<Rightarrow> 'a list \<Rightarrow> 'a list" where
  "memcpy_at i xs data = take i data @ xs @ drop (i + length xs) data"

section \<open>Rows of the mixing functions\<close>

text \<open>\<open>s0 += d; s2 ^= s10; s11 ^= s0; s0 = Rot64(s0,k); s11 += s1;\<close> with indices moved by \<open>i\<close>.\<close>

definition mixRow :: "nat \<Rightarrow> nat \<Rightarrow> u64 \<Rightarrow> u64 list \<Rightarrow> u64 list" where
  "mixRow i k d s =
     (let v = (\<lambda>j. (i + j) mod 12);
          s = s[v 0 := s ! v 0 + d];
          s = s[v 2 := s ! v 2 XOR s ! v 10];
          s = s[v 11 := s ! v 11 XOR s ! v 0];
          s = s[v 0 := Rot64 (s ! v 0) k]
      in s[v 11 := s ! v 11 + s ! v 1])"

text \<open>\<open>h11 += h1; h2 ^= h11; h1 = Rot64(h1,k);\<close>\<close>

definition endRow :: "nat \<Rightarrow> nat \<Rightarrow> u64 list \<Rightarrow> u64 list" where
  "endRow i k h =
     (let v = (\<lambda>j. (i + j) mod 12);
          h = h[v 11 := h ! v 11 + h ! v 1];
          h = h[v 2 := h ! v 2 XOR h ! v 11]
      in h[v 1 := Rot64 (h ! v 1) k])"

text \<open>\<open>h2 = Rot64(h2,k); h2 += h3; h0 ^= h2;\<close>\<close>

definition shortMixRow :: "nat \<Rightarrow> nat \<Rightarrow> u64 list \<Rightarrow> u64 list" where
  "shortMixRow i k h =
     (let v = (\<lambda>j. (i + j) mod 4);
          h = h[v 2 := Rot64 (h ! v 2) k];
          h = h[v 2 := h ! v 2 + h ! v 3]
      in h[v 0 := h ! v 0 XOR h ! v 2])"

text \<open>\<open>h3 ^= h2; h2 = Rot64(h2,k); h3 += h2;\<close>\<close>

definition shortEndRow :: "nat \<Rightarrow> nat \<Rightarrow> u64 list \<Rightarrow> u64 list" where
  "shortEndRow i k h =
     (let v = (\<lambda>j. (i + j) mod 4);
          h = h[v 3 := h ! v 3 XOR h ! v 2];
          h = h[v 2 := Rot64 (h ! v 2) k]
      in h[v 3 := h ! v 3 + h ! v 2])"

text \<open>Rows numbered from 0, one for each rotation amount.\<close>

definition rows :: "(nat \<Rightarrow> nat \<Rightarrow> 's \<Rightarrow> 's) \<Rightarrow> nat list \<Rightarrow> 's \<Rightarrow> 's" where
  "rows row ks s = fold (\<lambda>(i, k). row i k) (enumerate 0 ks) s"

section \<open>The object\<close>

record SpookyHash =
  m_data :: "u8 list"
  m_state :: "u64 list"
  m_length :: nat
  m_remainder :: nat

text \<open>The sizes of the arrays of the class.\<close>

definition spooky_wf :: "SpookyHash \<Rightarrow> bool" where
  "spooky_wf s \<longleftrightarrow> length (m_data s) = sc_bufSize \<and> length (m_state s) = sc_numVars"

definition seedState :: "u64 \<Rightarrow> u64 \<Rightarrow> u64 list" where
  "seedState a b = [a, b, sc_const, a, b, sc_const, a, b, sc_const, a, b, sc_const]"

section \<open>Operations parameterised by the mixing function\<close>

text \<open>All whole blocks of a message, front to back.\<close>

fun mixBlocks :: "(u8 list \<Rightarrow> 's \<Rightarrow> 's) \<Rightarrow> nat \<Rightarrow> u8 list \<Rightarrow> 's \<Rightarrow> 's" where
  "mixBlocks mix 0 msg h = h"
| "mixBlocks mix (Suc k) msg h = mixBlocks mix k (drop sc_blockSize msg) (mix msg h)"

text \<open>\<open>shifted u i k n\<close>: \<open>(uint64_t)u.p8[i] << k\<close>, reached by fall-through when \<open>i < n\<close>.\<close>

definition shifted :: "u8 list \<Rightarrow> nat \<Rightarrow> nat \<Rightarrow> nat \<Rightarrow> u64" where
  "shifted u i k n = (if i < n then push_bit k (ucast (u ! i)) else 0)"

text \<open>The switch on the last 0 to 15 bytes: what is added to \<open>c\<close> and to \<open>d\<close>.\<close>

definition shortTail :: "nat \<Rightarrow> u8 list \<Rightarrow> u64 \<times> u64" where
  "shortTail remainder u =
     (if 12 \<le> remainder then
        (Read8 u 0,
         shifted u 14 48 remainder + shifted u 13 40 remainder + shifted u 12 32 remainder
           + word_of_le (take 4 (drop 8 u)))
      else if 8 \<le> remainder then
        (Read8 u 0,
         shifted u 10 16 remainder + shifted u 9 8 remainder + shifted u 8 0 remainder)
      else if 4 \<le> remainder then
        (shifted u 6 48 remainder + shifted u 5 40 remainder + shifted u 4 32 remainder
           + word_of_le (take 4 u), 0)
      else if 1 \<le> remainder then
        (shifted u 2 16 remainder + shifted u 1 8 remainder + shifted u 0 0 remainder, 0)
      else (sc_const, sc_const))"

text \<open>
  \<open>Init\<close> and \<open>Update\<close> have the same text in both classes; only the \<open>Mix\<close> they call differs.
\<close>

definition spookyInit :: "u64 \<times> u64 \<Rightarrow> SpookyHash \<Rightarrow> SpookyHash" where
  "spookyInit seeds s =
     s\<lparr>m_length := 0, m_remainder := 0, m_state := (m_state s)[0 := fst seeds, 1 := snd seeds]\<rparr>"

text \<open>
  The loop over whole blocks of \<open>Update\<close>: without direct access each block is copied to
  \<open>m_data\<close> first.
\<close>

fun spookyUpdateLoop ::
  "(u8 list \<Rightarrow> u64 list \<Rightarrow> u64 list) \<Rightarrow> bool \<Rightarrow> nat \<Rightarrow> u8 list \<Rightarrow> u8 list \<Rightarrow> u64 list \<Rightarrow> u8 list \<times> u64 list" where
  "spookyUpdateLoop mix direct 0 u data h = (data, h)"
| "spookyUpdateLoop mix direct (Suc n) u data h =
     (if direct then
        spookyUpdateLoop mix direct n (drop sc_blockSize u) data (mix u h)
      else
        (let data = memcpy_at 0 (take sc_blockSize u) data in
         spookyUpdateLoop mix direct n (drop sc_blockSize u) data (mix data h)))"

text \<open>
  The step that fills the buffer and uses it when something was stuffed away; returns \<open>m_data\<close>,
  the rest of the message and the variables.
\<close>

definition spookyUnstash ::
  "(u8 list \<Rightarrow> u64 list \<Rightarrow> u64 list) \<Rightarrow> u8 list \<Rightarrow> SpookyHash \<Rightarrow> u64 list \<Rightarrow> u8 list \<times> u8 list \<times> u64 list" where
  "spookyUnstash mix message s h =
     (if m_remainder s \<noteq> 0 then
        (let prefix = (sc_bufSize - m_remainder s) mod 2 ^ 8;
             data = memcpy_at (m_remainder s) (take prefix message) (m_data s);
             h = mix data h;
             h = mix (drop sc_blockSize data) h
         in (data, drop prefix message, h))
      else (m_data s, message, h))"

definition spookyUpdate ::
  "(u8 list \<Rightarrow> u64 list \<Rightarrow> u64 list) \<Rightarrow> bool \<times> u8 list \<Rightarrow> SpookyHash \<Rightarrow> SpookyHash" where
  "spookyUpdate mix x s =
     (let (direct, message) = x;
          length1 = length message;
          newLength = (length1 + m_remainder s) mod 2 ^ 64 in
      if newLength < sc_bufSize then
        s\<lparr>m_data := memcpy_at (m_remainder s) message (m_data s),
          m_length := (length1 + m_length s) mod 2 ^ 64,
          m_remainder := newLength mod 2 ^ 8\<rparr>
      else
        (let h = (if m_length s < sc_bufSize then seedState (m_state s ! 0) (m_state s ! 1)
                  else m_state s);
             (data, u, h) = spookyUnstash mix message s h;
             blocks = length u div sc_blockSize;
             remainder = (length u - sc_blockSize * blocks) mod 2 ^ 8;
             (data, h) = spookyUpdateLoop mix direct blocks u data h;
             data = memcpy_at 0 (take remainder (drop (sc_blockSize * blocks) u)) data
         in s\<lparr>m_data := data, m_state := h, m_length := (length1 + m_length s) mod 2 ^ 64,
              m_remainder := remainder\<rparr>))"

text \<open>
  The object's state after absorbing \<open>msg\<close>: \<open>k\<close> blocks are mixed in and the rest is in
  \<open>m_data\<close>. Mixing starts only when \<open>sc_bufSize\<close> bytes have arrived; until then \<open>m_state\<close>
  holds the seeds.
\<close>

definition spookyAbsorbed ::
  "(u8 list \<Rightarrow> u64 list \<Rightarrow> u64 list) \<Rightarrow> u64 \<times> u64 \<Rightarrow> u8 list \<Rightarrow> SpookyHash \<Rightarrow> bool" where
  "spookyAbsorbed mix seeds msg s \<longleftrightarrow> spooky_wf s \<and> m_length s = length msg
     \<and> m_remainder s < sc_bufSize
     \<and> (\<exists>k. length msg = sc_blockSize * k + m_remainder s
          \<and> take (m_remainder s) (m_data s) = drop (sc_blockSize * k) msg
          \<and> (if length msg < sc_bufSize
             then k = 0 \<and> m_state s ! 0 = fst seeds \<and> m_state s ! 1 = snd seeds
             else m_state s = mixBlocks mix k msg (seedState (fst seeds) (snd seeds))))"

section \<open>Rows and reads\<close>

lemma sc_sizes: "sc_numVars = 12" "sc_blockSize = 96" "sc_bufSize = 192"
  by (simp_all add: sc_bufSize_def sc_blockSize_def sc_numVars_def)

lemma Read8_take: "8 * i + 8 \<le> n \<Longrightarrow> Read8 (take n d) i = Read8 d i"
  by (simp add: Read8_def drop_take min_def)

lemma rows_cong:
  assumes "\<And>i k h. i < length ks \<Longrightarrow> row i k h = row' i k h"
  shows "rows row ks h = rows row' ks h"
  unfolding rows_def using assms by (intro fold_cong refl) (auto simp: in_set_enumerate_eq)

lemma rows_invariant:
  assumes "\<And>i k h. P h \<Longrightarrow> P (row i k h)" and "P h"
  shows "P (rows row ks h)"
proof -
  have "P (fold (\<lambda>(i, k). row i k) xs h)" for xs
    using assms(2) by (induction xs arbitrary: h) (auto simp: assms(1))
  then show ?thesis by (simp add: rows_def)
qed

lemma memcpy_pad:
  assumes "r \<le> n" and "n \<le> length data" and "take r data = e"
  shows "take n (memcpy_at r (replicate (n - r) x) data) = e @ replicate (n - r) x"
  using assms by (auto simp: memcpy_at_def)

lemma rows_length:
  assumes "\<And>i k h. length (row i k h) = length h"
  shows "length (rows row ks h) = length h"
  using assms by (intro rows_invariant [where P = "\<lambda>g. length g = length h"]) auto

lemma row_lengths [simp]:
  "length (mixRow i k d s) = length s" "length (endRow i k s) = length s"
  "length (shortMixRow i k s) = length s" "length (shortEndRow i k s) = length s"
  by (simp_all add: mixRow_def endRow_def shortMixRow_def shortEndRow_def Let_def)

subsection \<open>Rows are reversible\<close>

lemma Rot64_Rot64:
  assumes "0 < k" and "k < 64"
  shows "Rot64 (Rot64 x k) (64 - k) = x"
proof (rule bit_word_eqI)
  fix n
  assume "n < LENGTH(64)"
  then show "bit (Rot64 (Rot64 x k) (64 - k)) n = bit x n"
    using assms by (cases "n < 64 - k") (auto simp: Rot64_def bit_simps dest: bit_imp_le_length)
qed

lemma Rot64_inj: "0 < k \<Longrightarrow> k < 64 \<Longrightarrow> Rot64 x k = Rot64 y k \<longleftrightarrow> x = y"
  by (metis Rot64_Rot64)

text \<open>Updating one place by an injective function of it and of another place.\<close>

lemma list_update_inj:
  assumes "\<And>x y z. f x z = f y z \<Longrightarrow> x = y" and "a \<noteq> b" and "length s = length t" and "a < length s"
    and "s[a := f (s ! a) (s ! b)] = t[a := f (t ! a) (t ! b)]"
  shows "s = t"
proof (rule nth_equalityI)
  have other: "s ! i = t ! i" if "i \<noteq> a" for i
    using arg_cong [OF assms(5), of "\<lambda>l. l ! i"] that by simp
  fix i
  assume "i < length s"
  have "f (s ! a) (s ! b) = f (t ! a) (t ! b)"
    using arg_cong [OF assms(5), of "\<lambda>l. l ! a"] assms(3,4) by simp
  with assms(1,2) other [of b] have "s ! a = t ! a" by metis
  with other show "s ! i = t ! i" by metis
qed (fact assms(3))

definition words :: "nat \<Rightarrow> u64 list set" where
  "words n = {s. length s = n}"

lemma update_inj_on:
  assumes "\<And>x y z. f x z = f y z \<Longrightarrow> x = y" and "a \<noteq> b" and "a < n"
  shows "inj_on (\<lambda>s. s[a := f (s ! a) (s ! b)]) (words n)"
  using list_update_inj [of f a b] assms by (intro inj_onI) (simp add: words_def)

lemma comp_inj_on_words:
  assumes "inj_on f (words n)" and "\<And>s. length (f s) = length s" and "inj_on g (words n)"
  shows "inj_on (\<lambda>s. g (f s)) (words n)"
  using assms by (auto simp: inj_on_def words_def)

text \<open>The elementary statements of the rows, on \<open>n\<close> variables.\<close>

lemma xor_cancel: "x XOR z = y XOR z \<longleftrightarrow> x = y" for x y z :: u64
proof
  assume "x XOR z = y XOR z"
  then have "(x XOR z) XOR z = (y XOR z) XOR z" by (rule arg_cong)
  then show "x = y" by (simp only: xor.assoc xor_self_eq xor.right_neutral)
qed simp

lemma statements_inj_on:
  assumes "a \<noteq> b" and "a < n"
  shows "inj_on (\<lambda>s. s[a := s ! a + s ! b]) (words n)"
    "inj_on (\<lambda>s. s[a := s ! a XOR s ! b]) (words n)"
    "inj_on (\<lambda>s. s[a := s ! a + d]) (words n)"
    "0 < k \<Longrightarrow> k < 64 \<Longrightarrow> inj_on (\<lambda>s. s[a := Rot64 (s ! a) k]) (words n)"
  using assms update_inj_on [of "(+)" a b n] update_inj_on [of "(XOR)" a b n]
    update_inj_on [of "\<lambda>x z. x + d" a b n] update_inj_on [of "\<lambda>x z. Rot64 x k" a b n]
  by (simp_all add: xor_cancel Rot64_inj)

lemma mixRow_inj:
  assumes "0 < k" and "k < 64"
  shows "inj_on (mixRow i k d) (words 12)"
proof -
  define v where "v = (\<lambda>j. (i + j) mod (12 :: nat))"
  have neq: "v a \<noteq> v b" if "a < 12" "b < 12" "a \<noteq> b" for a b
    unfolding v_def using that by (rule mod_shift_neq)
  have less: "v a < 12" for a by (simp add: v_def)
  note stm = statements_inj_on [OF neq less]
  define u1 where "u1 = (\<lambda>s. s[v 0 := s ! v 0 + d])"
  define u2 where "u2 = (\<lambda>s :: u64 list. s[v 2 := s ! v 2 XOR s ! v 10])"
  define u3 where "u3 = (\<lambda>s :: u64 list. s[v 11 := s ! v 11 XOR s ! v 0])"
  define u4 where "u4 = (\<lambda>s. s[v 0 := Rot64 (s ! v 0) k])"
  define u5 where "u5 = (\<lambda>s :: u64 list. s[v 11 := s ! v 11 + s ! v 1])"
  have inj: "inj_on u1 (words 12)" "inj_on u2 (words 12)" "inj_on u3 (words 12)"
    "inj_on u4 (words 12)" "inj_on u5 (words 12)"
    unfolding u1_def u2_def u3_def u4_def u5_def
    using stm(3) [of 0 1] stm(2) [of 2 10] stm(2) [of 11 0] stm(4) [of 0 1 k] stm(1) [of 11 1] assms
    by simp_all
  have len: "length (u1 s) = length s" "length (u2 s) = length s" "length (u3 s) = length s"
    "length (u4 s) = length s" for s
    by (simp_all add: u1_def u2_def u3_def u4_def)
  have row: "mixRow i k d = (\<lambda>s. u5 (u4 (u3 (u2 (u1 s)))))"
    by (simp add: fun_eq_iff mixRow_def Let_def u1_def u2_def u3_def u4_def u5_def v_def)
  have "inj_on (\<lambda>s. u2 (u1 s)) (words 12)"
    by (rule comp_inj_on_words [OF inj(1) len(1) inj(2)])
  from comp_inj_on_words [OF this _ inj(3)] have "inj_on (\<lambda>s. u3 (u2 (u1 s))) (words 12)"
    by (simp add: len)
  from comp_inj_on_words [OF this _ comp_inj_on_words [OF inj(4) len(4) inj(5)]]
  show ?thesis
    unfolding row by (simp add: len)
qed

lemma three_statements_inj_on:
  assumes "inj_on u1 (words n)" and "inj_on u2 (words n)" and "inj_on u3 (words n)"
    and "\<And>s. length (u1 s) = length s" and "\<And>s. length (u2 s) = length s"
  shows "inj_on (\<lambda>s. u3 (u2 (u1 s))) (words n)"
  using comp_inj_on_words [OF assms(1,4) comp_inj_on_words [OF assms(2,5,3)]] .

lemma endRow_inj:
  assumes "0 < k" and "k < 64"
  shows "inj_on (endRow i k) (words 12)"
proof -
  define v where "v = (\<lambda>j. (i + j) mod (12 :: nat))"
  have neq: "v a \<noteq> v b" if "a < 12" "b < 12" "a \<noteq> b" for a b
    unfolding v_def using that by (rule mod_shift_neq)
  have less: "v a < 12" for a by (simp add: v_def)
  note stm = statements_inj_on [OF neq less]
  define u1 where "u1 = (\<lambda>s :: u64 list. s[v 11 := s ! v 11 + s ! v 1])"
  define u2 where "u2 = (\<lambda>s :: u64 list. s[v 2 := s ! v 2 XOR s ! v 11])"
  define u3 where "u3 = (\<lambda>s :: u64 list. s[v 1 := Rot64 (s ! v 1) k])"
  have "inj_on u1 (words 12)" "inj_on u2 (words 12)" "inj_on u3 (words 12)"
    unfolding u1_def u2_def u3_def using stm(1) [of 11 1] stm(2) [of 2 11] stm(4) [of 1 2 k] assms
    by simp_all
  moreover have "length (u1 s) = length s" "length (u2 s) = length s" for s
    by (simp_all add: u1_def u2_def)
  ultimately have "inj_on (\<lambda>s. u3 (u2 (u1 s))) (words 12)"
    by (intro three_statements_inj_on [of u1 _ u2 u3]) simp_all
  then show ?thesis
    by (simp add: endRow_def [abs_def] Let_def u1_def u2_def u3_def v_def)
qed

lemma shortMixRow_inj:
  assumes "0 < k" and "k < 64"
  shows "inj_on (shortMixRow i k) (words 4)"
proof -
  define v where "v = (\<lambda>j. (i + j) mod (4 :: nat))"
  have neq: "v a \<noteq> v b" if "a < 4" "b < 4" "a \<noteq> b" for a b
    unfolding v_def using that by (rule mod_shift_neq)
  have less: "v a < 4" for a by (simp add: v_def)
  note stm = statements_inj_on [OF neq less]
  define u1 where "u1 = (\<lambda>s :: u64 list. s[v 2 := Rot64 (s ! v 2) k])"
  define u2 where "u2 = (\<lambda>s :: u64 list. s[v 2 := s ! v 2 + s ! v 3])"
  define u3 where "u3 = (\<lambda>s :: u64 list. s[v 0 := s ! v 0 XOR s ! v 2])"
  have "inj_on u1 (words 4)" "inj_on u2 (words 4)" "inj_on u3 (words 4)"
    unfolding u1_def u2_def u3_def using stm(4) [of 2 3 k] stm(1) [of 2 3] stm(2) [of 0 2] assms
    by simp_all
  moreover have "length (u1 s) = length s" "length (u2 s) = length s" for s
    by (simp_all add: u1_def u2_def)
  ultimately have "inj_on (\<lambda>s. u3 (u2 (u1 s))) (words 4)"
    by (intro three_statements_inj_on [of u1 _ u2 u3]) simp_all
  then show ?thesis
    by (simp add: shortMixRow_def [abs_def] Let_def u1_def u2_def u3_def v_def)
qed

lemma shortEndRow_inj:
  assumes "0 < k" and "k < 64"
  shows "inj_on (shortEndRow i k) (words 4)"
proof -
  define v where "v = (\<lambda>j. (i + j) mod (4 :: nat))"
  have neq: "v a \<noteq> v b" if "a < 4" "b < 4" "a \<noteq> b" for a b
    unfolding v_def using that by (rule mod_shift_neq)
  have less: "v a < 4" for a by (simp add: v_def)
  note stm = statements_inj_on [OF neq less]
  define u1 where "u1 = (\<lambda>s :: u64 list. s[v 3 := s ! v 3 XOR s ! v 2])"
  define u2 where "u2 = (\<lambda>s :: u64 list. s[v 2 := Rot64 (s ! v 2) k])"
  define u3 where "u3 = (\<lambda>s :: u64 list. s[v 3 := s ! v 3 + s ! v 2])"
  have "inj_on u1 (words 4)" "inj_on u2 (words 4)" "inj_on u3 (words 4)"
    unfolding u1_def u2_def u3_def using stm(2) [of 3 2] stm(4) [of 2 3 k] stm(1) [of 3 2] assms
    by simp_all
  moreover have "length (u1 s) = length s" "length (u2 s) = length s" for s
    by (simp_all add: u1_def u2_def)
  ultimately have "inj_on (\<lambda>s. u3 (u2 (u1 s))) (words 4)"
    by (intro three_statements_inj_on [of u1 _ u2 u3]) simp_all
  then show ?thesis
    by (simp add: shortEndRow_def [abs_def] Let_def u1_def u2_def u3_def v_def)
qed

lemma rows_inj:
  assumes "\<And>i k. 0 < k \<Longrightarrow> k < 64 \<Longrightarrow> inj_on (row i k) (words n)"
    and "\<And>i k s. length (row i k s) = length s" and "list_all (\<lambda>k. 0 < k \<and> k < 64) ks"
  shows "inj_on (rows row ks) (words n)"
proof -
  have "inj_on (fold (\<lambda>(i, k). row i k) (enumerate j ks)) (words n)" for j
    using assms(3)
  proof (induction ks arbitrary: j)
    case (Cons k ks)
    then show ?case
      using comp_inj_on_words [OF assms(1) [of k j] assms(2) Cons.IH [of "Suc j"]] by simp
  qed simp
  then show ?thesis
    by (simp add: rows_def [abs_def])
qed

section \<open>Block mixers\<close>

locale block_mixer =
  fixes mix :: "u8 list \<Rightarrow> u64 list \<Rightarrow> u64 list"
  assumes mix_block: "mix (take sc_blockSize d) h = mix d h"
    and mix_length: "length (mix d h) = length h"
begin

lemma mixBlocks_length: "length (mixBlocks mix k msg h) = length h"
  by (induction k arbitrary: msg h) (simp_all add: mix_length)

lemma mixBlocks_add:
  "mixBlocks mix (j + k) msg h = mixBlocks mix k (drop (sc_blockSize * j) msg) (mixBlocks mix j msg h)"
  by (induction j arbitrary: msg h) (simp_all add: add.commute)

lemma mix_append: "sc_blockSize \<le> length d \<Longrightarrow> mix (d @ x) h = mix d h"
  using mix_block [of d h] mix_block [of "d @ x" h] by simp

lemma mixBlocks_append:
  "sc_blockSize * k \<le> length msg \<Longrightarrow> mixBlocks mix k (msg @ x) h = mixBlocks mix k msg h"
  by (induction k arbitrary: msg h) (simp_all add: mix_append)

lemma spookyUpdateLoop_mixBlocks:
  assumes "sc_blockSize * k \<le> length u" and "sc_blockSize \<le> length data"
  shows "\<exists>data'. spookyUpdateLoop mix direct k u data h = (data', mixBlocks mix k u h)
    \<and> length data' = length data"
  using assms
proof (induction k arbitrary: u data h)
  case (Suc k)
  let ?data = "memcpy_at 0 (take sc_blockSize u) data"
  have len: "length ?data = length data"
    using Suc.prems by (simp add: memcpy_at_def)
  have "mix ?data h = mix u h"
    using mix_block [of ?data h] mix_block [of u h] Suc.prems by (simp add: memcpy_at_def)
  moreover have "sc_blockSize * k \<le> length (drop sc_blockSize u)"
    using Suc.prems by simp
  ultimately show ?case
    using Suc.IH [of "drop sc_blockSize u" data "mix u h"]
      Suc.IH [of "drop sc_blockSize u" ?data "mix u h"] Suc.prems len
    by (cases direct) (simp_all add: Let_def)
qed simp

lemma absorbed_update_short:
  assumes "spookyAbsorbed mix seeds msg s" and "length (msg @ x) < 2 ^ 64"
    and "length x + m_remainder s < sc_bufSize"
  shows "spookyAbsorbed mix seeds (msg @ x) (spookyUpdate mix (direct, x) s)"
proof -
  have "(length x + m_remainder s) mod 2 ^ 64 = length x + m_remainder s"
    "(length x + m_remainder s) mod 2 ^ 8 = length x + m_remainder s"
    "(length x + length msg) mod 2 ^ 64 = length x + length msg"
    using assms(2,3) by (simp_all add: sc_bufSize_def sc_blockSize_def sc_numVars_def)
  with assms show ?thesis
    by (auto simp: spookyAbsorbed_def spookyUpdate_def memcpy_at_def spooky_wf_def mixBlocks_append
        Let_def split: if_splits)
qed

lemma drop_blocks:
  "drop (sc_blockSize * (a + b)) y = drop (sc_blockSize * b) (drop (sc_blockSize * a) y)"
  by (simp add: distrib_left add.commute)

text \<open>What follows the stuffed-away bytes in a long update, from the blocks in \<open>D\<close> on.\<close>

lemma mixBlocks_continue:
  assumes "sc_blockSize * k \<le> length msg" and "drop (sc_blockSize * k) (msg @ x) = D @ u"
    and "length D = sc_blockSize * m"
  shows "mixBlocks mix j u (mixBlocks mix m D (mixBlocks mix k msg h))
      = mixBlocks mix (k + m + j) (msg @ x) h"
    "drop (sc_blockSize * j) u = drop (sc_blockSize * (k + m + j)) (msg @ x)"
proof -
  have "drop (sc_blockSize * (k + m)) (msg @ x) = drop (sc_blockSize * m) (D @ u)"
    by (simp only: drop_blocks assms(2))
  then have u: "drop (sc_blockSize * (k + m)) (msg @ x) = u"
    by (simp add: assms(3))
  then show "mixBlocks mix j u (mixBlocks mix m D (mixBlocks mix k msg h))
      = mixBlocks mix (k + m + j) (msg @ x) h"
    using assms mixBlocks_append [of m D u] by (simp add: mixBlocks_add mixBlocks_append)
  show "drop (sc_blockSize * j) u = drop (sc_blockSize * (k + m + j)) (msg @ x)"
    by (simp only: drop_blocks [of "k + m" j] u)
qed

lemma absorbed_update_long:
  assumes abs: "spookyAbsorbed mix seeds msg s" and len: "length (msg @ x) < 2 ^ 64"
    and long: "sc_bufSize \<le> length x + m_remainder s"
  shows "spookyAbsorbed mix seeds (msg @ x) (spookyUpdate mix (direct, x) s)"
proof -
  let ?H = "seedState (fst seeds) (snd seeds)"
  let ?r = "m_remainder s"
  obtain k where k: "length msg = sc_blockSize * k + ?r" "?r < sc_bufSize"
      "take ?r (m_data s) = drop (sc_blockSize * k) msg"
    and wf: "spooky_wf s" "m_length s = length msg"
    and st: "if length msg < sc_bufSize
      then k = 0 \<and> m_state s ! 0 = fst seeds \<and> m_state s ! 1 = snd seeds
      else m_state s = mixBlocks mix k msg ?H"
    using abs unfolding spookyAbsorbed_def by blast
  from st wf(2) have h: "(if m_length s < sc_bufSize
      then seedState (m_state s ! 0) (m_state s ! 1) else m_state s) = mixBlocks mix k msg ?H"
    by (simp split: if_splits)
  define D where "D = (if ?r = 0 then [] else take ?r (m_data s) @ take (sc_bufSize - ?r) x)"
  define u where "u = (if ?r = 0 then x else drop (sc_bufSize - ?r) x)"
  define m where "m = (if ?r = 0 then 0 else 2 :: nat)"
  define j where "j = length u div sc_blockSize"
  have sizes: "sc_bufSize = 192" "sc_blockSize = 96" "sc_numVars = 12"
    by (simp_all add: sc_bufSize_def sc_blockSize_def sc_numVars_def)
  have D: "drop (sc_blockSize * k) (msg @ x) = D @ u" "length D = sc_blockSize * m"
    using k wf(1) long by (auto simp: D_def u_def m_def spooky_wf_def sizes)
  have "sc_blockSize * k \<le> length msg" using k(1) by simp
  note cont = mixBlocks_continue [OF this D, of j]
  let ?data = "if ?r = 0 then m_data s else D"
  have mid: "spookyUnstash mix x s g = (?data, u, mixBlocks mix m D g)" for g
  proof (cases "?r = 0")
    case False
    then have "(sc_bufSize - ?r) mod 2 ^ 8 = sc_bufSize - ?r" by (simp add: sizes)
    moreover have "memcpy_at ?r (take (sc_bufSize - ?r) x) (m_data s) = D"
      using False wf(1) long k(2) by (simp add: memcpy_at_def D_def spooky_wf_def sizes)
    ultimately show ?thesis
      using False by (simp add: spookyUnstash_def Let_def u_def m_def numeral_2_eq_2)
  qed (simp add: spookyUnstash_def D_def u_def m_def)
  have rem: "(length u - sc_blockSize * j) mod 2 ^ 8 = length u mod sc_blockSize"
    by (simp add: j_def sizes minus_mult_div_eq_mod)
  have "sc_blockSize * j \<le> length u" and data: "length ?data = sc_bufSize"
    using D(2) wf(1) by (auto simp: j_def m_def spooky_wf_def sizes)
  then obtain data where loop: "spookyUpdateLoop mix direct j u ?data
      (mixBlocks mix m D (mixBlocks mix k msg ?H)) = (data, mixBlocks mix (k + m + j) (msg @ x) ?H)"
      "length data = sc_bufSize"
    using spookyUpdateLoop_mixBlocks [of j u ?data direct "mixBlocks mix m D (mixBlocks mix k msg ?H)"]
    by (auto simp: cont(1) sizes)
  have last: "take (length u mod sc_blockSize) (drop (sc_blockSize * j) u) = drop (sc_blockSize * j) u"
    by (simp add: j_def sizes minus_mult_div_eq_mod)
  have "(length x + ?r) mod 2 ^ 64 = length x + ?r" "(length x + length msg) mod 2 ^ 64 = length (msg @ x)"
    using len k(1) by simp_all
  then have upd: "spookyUpdate mix (direct, x) s =
      s\<lparr>m_data := memcpy_at 0 (drop (sc_blockSize * j) u) data,
        m_state := mixBlocks mix (k + m + j) (msg @ x) ?H,
        m_length := length (msg @ x), m_remainder := length u mod sc_blockSize\<rparr>"
    using long
    by (simp only: spookyUpdate_def Let_def prod.case h [unfolded wf(2)] mid wf(2) j_def [symmetric] rem loop(1) last
        if_False not_less [THEN iffD2])
  have "length (msg @ x) = sc_blockSize * (k + m + j) + length u mod sc_blockSize"
    using arg_cong [OF D(1), of length] D(2) k(1) mult_div_mod_eq [of sc_blockSize "length u"]
    by (simp add: j_def distrib_left)
  moreover have "length (drop (sc_blockSize * j) u) = length u mod sc_blockSize"
    by (simp add: j_def minus_mult_div_eq_mod)
  moreover have "length u mod sc_blockSize < sc_blockSize" "\<not> length (msg @ x) < sc_bufSize"
    using long k(1) by (simp_all add: sizes)
  ultimately show ?thesis
    using loop(2) wf(1) cont(2)
    by (auto simp: upd spookyAbsorbed_def spooky_wf_def memcpy_at_def mixBlocks_length seedState_def sizes
        intro!: exI [of _ "k + m + j"])
qed

text \<open>\<open>Final\<close> handles a whole first block of \<open>m_data\<close>, which leaves the last partial block.\<close>

lemma absorbed_last_block:
  assumes "spookyAbsorbed mix seeds msg s" and "\<not> length msg < sc_bufSize"
    and "(if m_remainder s \<ge> sc_blockSize
      then (drop sc_blockSize (m_data s), m_remainder s - sc_blockSize, mix (m_data s) (m_state s))
      else (m_data s, m_remainder s, m_state s)) = (data, remainder, h)"
  shows "h = mixBlocks mix (length msg div sc_blockSize) msg (seedState (fst seeds) (snd seeds))"
    "remainder = length msg mod sc_blockSize"
    "take remainder data = drop (sc_blockSize * (length msg div sc_blockSize)) msg"
    "sc_blockSize \<le> length data"
proof -
  let ?H = "seedState (fst seeds) (snd seeds)"
  let ?r = "m_remainder s"
  have sizes: "sc_bufSize = 192" "sc_blockSize = 96"
    by (simp_all add: sc_bufSize_def sc_blockSize_def sc_numVars_def)
  obtain k where k: "length msg = sc_blockSize * k + ?r" "?r < sc_bufSize"
      "take ?r (m_data s) = drop (sc_blockSize * k) msg"
    and wf: "spooky_wf s" and st: "m_state s = mixBlocks mix k msg ?H"
    using assms(1,2) unfolding spookyAbsorbed_def by auto
  define q where "q = (if ?r \<ge> sc_blockSize then 1 else 0 :: nat)"
  have div: "length msg div sc_blockSize = k + q" "length msg mod sc_blockSize = ?r - sc_blockSize * q"
  proof -
    have "?r div sc_blockSize = q"
      using k(2) by (intro div_nat_eqI) (auto simp: q_def sizes)
    then show "length msg div sc_blockSize = k + q" "length msg mod sc_blockSize = ?r - sc_blockSize * q"
      using k(1) mult_div_mod_eq [of sc_blockSize ?r] by (auto simp: sizes)
  qed
  have block: "mix (m_data s) g = mix (drop (sc_blockSize * k) msg) g" if "?r \<ge> sc_blockSize" for g
  proof -
    have "take sc_blockSize (m_data s) = take sc_blockSize (drop (sc_blockSize * k) msg)"
      using that by (simp add: k(3) [symmetric] min_def)
    then show ?thesis using mix_block by metis
  qed
  have h: "h = (if ?r \<ge> sc_blockSize then mix (m_data s) (m_state s) else m_state s)"
    and rem: "remainder = ?r - sc_blockSize * q" and data: "data = drop (sc_blockSize * q) (m_data s)"
    using assms(3) by (auto simp: q_def split: if_splits)
  show "h = mixBlocks mix (length msg div sc_blockSize) msg ?H"
    using mixBlocks_add [of k 1 msg ?H] by (simp add: h div st q_def block)
  show "remainder = length msg mod sc_blockSize" by (simp add: rem div)
  show "take remainder data = drop (sc_blockSize * (length msg div sc_blockSize)) msg"
    using k(3) unfolding rem data div drop_blocks k(3) [symmetric] by (simp add: drop_take)
  show "sc_blockSize \<le> length data"
    using wf by (simp add: data q_def spooky_wf_def sizes)
qed

end

section \<open>Streams\<close>

text \<open>A use of the object: \<open>Some x\<close> feeds \<open>x\<close>, \<open>None\<close> asks for the hash so far.\<close>

fun stream :: "('x \<Rightarrow> 's \<Rightarrow> 's) \<Rightarrow> ('s \<Rightarrow> 'h \<times> 's) \<Rightarrow> 'x option list \<Rightarrow> 's \<Rightarrow> 'h list" where
  "stream update final [] s = []"
| "stream update final (Some x # ops) s = stream update final ops (update x s)"
| "stream update final (None # ops) s = fst (final s) # stream update final ops (snd (final s))"

fun streamSpec :: "('x \<Rightarrow> 'b list) \<Rightarrow> ('b list \<Rightarrow> 'h) \<Rightarrow> 'x option list \<Rightarrow> 'b list \<Rightarrow> 'h list" where
  "streamSpec bytes hash [] msg = []"
| "streamSpec bytes hash (Some x # ops) msg = streamSpec bytes hash ops (msg @ bytes x)"
| "streamSpec bytes hash (None # ops) msg = hash msg # streamSpec bytes hash ops msg"

fun streamed :: "('x \<Rightarrow> 'b list) \<Rightarrow> 'x option list \<Rightarrow> 'b list" where
  "streamed bytes [] = []"
| "streamed bytes (Some x # ops) = bytes x @ streamed bytes ops"
| "streamed bytes (None # ops) = streamed bytes ops"

locale streaming_hash =
  fixes wf :: "'s \<Rightarrow> bool"
    and init :: "'seed \<Rightarrow> 's \<Rightarrow> 's"
    and update :: "'x \<Rightarrow> 's \<Rightarrow> 's"
    and final :: "'s \<Rightarrow> 'h \<times> 's"
    and bytes :: "'x \<Rightarrow> 'b list"
    and hash :: "'seed \<Rightarrow> 'b list \<Rightarrow> 'h"
    and limit :: nat
    and absorbed :: "'seed \<Rightarrow> 'b list \<Rightarrow> 's \<Rightarrow> bool"
  assumes absorbed_init: "wf s \<Longrightarrow> absorbed seed [] (init seed s)"
    and absorbed_update: "absorbed seed msg s \<Longrightarrow> length (msg @ bytes x) < limit \<Longrightarrow>
      absorbed seed (msg @ bytes x) (update x s)"
    and absorbed_final: "absorbed seed msg s \<Longrightarrow> absorbed seed msg (snd (final s))"
    and final_hash: "absorbed seed msg s \<Longrightarrow> fst (final s) = hash seed msg"
begin

lemma stream_absorbed:
  "absorbed seed msg s \<Longrightarrow> length (msg @ streamed bytes ops) < limit \<Longrightarrow>
   stream update final ops s = streamSpec bytes (hash seed) ops msg"
proof (induction ops arbitrary: msg s)
  case (Cons op ops)
  then show ?case
    using absorbed_update [of seed msg s "the op"]
    by (cases op) (simp_all add: absorbed_final final_hash)
qed simp

lemma stream_correct:
  "wf s \<Longrightarrow> length (streamed bytes ops) < limit \<Longrightarrow>
   stream update final ops (init seed s) = streamSpec bytes (hash seed) ops []"
  using stream_absorbed [OF absorbed_init, of s ops seed] by simp

end

end
