(* ===== verification/SpookyHashV1.thy ===== *)
theory SpookyHashV1
  imports SpookyHash_Common
begin

text \<open>
  \<open>hash/SpookyHashV1.h\<close> and \<open>hash/SpookyHashV1.cpp\<close>: the mixing functions, the one-shot
  functions \<open>Hash128\<close>, \<open>Hash64\<close>, \<open>Hash32\<close> and the streaming object. The main result is that
  the object hashes the concatenation of what it was fed, however it was cut.
\<close>

section \<open>Definitions\<close>

subsection \<open>SpookyHashV1.h\<close>

definition SpookyHashV1_Mix :: "u8 list \<Rightarrow> u64 list \<Rightarrow> u64 list" where
  "SpookyHashV1_Mix data s =
     rows (\<lambda>i k. mixRow i k (Read8 data i)) [11, 32, 43, 31, 17, 28, 39, 57, 55, 54, 22, 46] s"

definition SpookyHashV1_EndPartial :: "u64 list \<Rightarrow> u64 list" where
  "SpookyHashV1_EndPartial h = rows endRow [44, 15, 34, 21, 38, 33, 10, 13, 38, 53, 42, 54] h"

definition SpookyHashV1_End :: "u64 list \<Rightarrow> u64 list" where
  "SpookyHashV1_End h =
     (let h = SpookyHashV1_EndPartial h;
          h = SpookyHashV1_EndPartial h
      in SpookyHashV1_EndPartial h)"

definition SpookyHashV1_ShortMix :: "u64 list \<Rightarrow> u64 list" where
  "SpookyHashV1_ShortMix h = rows shortMixRow [50, 52, 30, 41, 54, 48, 38, 37, 62, 34, 5, 36] h"

definition SpookyHashV1_ShortEnd :: "u64 list \<Rightarrow> u64 list" where
  "SpookyHashV1_ShortEnd h = rows shortEndRow [15, 52, 26, 51, 28, 9, 47, 54, 32, 25, 63] h"

subsection \<open>SpookyHashV1.cpp\<close>

text \<open>The loop over complete sets of 32 bytes; returns the rest of the message.\<close>

fun SpookyHashV1_ShortLoop :: "nat \<Rightarrow> u8 list \<Rightarrow> u64 list \<Rightarrow> u8 list \<times> u64 list" where
  "SpookyHashV1_ShortLoop 0 u h = (u, h)"
| "SpookyHashV1_ShortLoop (Suc n) u h =
     (let h = h[2 := h ! 2 + Read8 u 0, 3 := h ! 3 + Read8 u 1];
          h = SpookyHashV1_ShortMix h;
          h = h[0 := h ! 0 + Read8 u 2, 1 := h ! 1 + Read8 u 3]
      in SpookyHashV1_ShortLoop n (drop 32 u) h)"

definition SpookyHashV1_Short :: "u8 list \<Rightarrow> u64 \<Rightarrow> u64 \<Rightarrow> u64 \<times> u64" where
  "SpookyHashV1_Short message hash1 hash2 =
     (let length1 = length message;
          remainder = length1 mod 32;
          h = [hash1, hash2, sc_const, sc_const];
          (u, remainder, h) =
            (if length1 > 15 then
               (let (u, h) = SpookyHashV1_ShortLoop (length1 div 32) message h in
                if remainder \<ge> 16 then
                  (let h = h[2 := h ! 2 + Read8 u 0, 3 := h ! 3 + Read8 u 1];
                       h = SpookyHashV1_ShortMix h
                   in (drop 16 u, remainder - 16, h))
                else (u, remainder, h))
             else (message, remainder, h));
          h = h[3 := push_bit 56 (of_nat length1)];
          (c, d) = shortTail remainder u;
          h = h[2 := h ! 2 + c, 3 := h ! 3 + d];
          h = SpookyHashV1_ShortEnd h
      in (h ! 0, h ! 1))"

definition SpookyHashV1_Hash128 :: "u8 list \<Rightarrow> u64 \<Rightarrow> u64 \<Rightarrow> u64 \<times> u64" where
  "SpookyHashV1_Hash128 message hash1 hash2 =
     (if length message < sc_bufSize then SpookyHashV1_Short message hash1 hash2
      else
        (let h = seedState hash1 hash2;
             blocks = length message div sc_blockSize;
             h = mixBlocks SpookyHashV1_Mix blocks message h;
             end = drop (sc_blockSize * blocks) message;
             remainder = length message - sc_blockSize * blocks;
             buf = end @ replicate (sc_blockSize - remainder) 0;
             buf = buf[sc_blockSize - 1 := of_nat remainder];
             h = SpookyHashV1_Mix buf h;
             h = SpookyHashV1_End h
         in (h ! 0, h ! 1)))"

definition SpookyHashV1_Hash64 :: "u8 list \<Rightarrow> u64 \<Rightarrow> u64" where
  "SpookyHashV1_Hash64 message seed = fst (SpookyHashV1_Hash128 message seed seed)"

definition SpookyHashV1_Hash32 :: "u8 list \<Rightarrow> u32 \<Rightarrow> u32" where
  "SpookyHashV1_Hash32 message seed =
     (let hash1 = ucast seed; hash2 = ucast seed
      in ucast (fst (SpookyHashV1_Hash128 message hash1 hash2)))"

definition SpookyHashV1_Init :: "u64 \<times> u64 \<Rightarrow> SpookyHash \<Rightarrow> SpookyHash" where
  "SpookyHashV1_Init = spookyInit"

definition SpookyHashV1_Update :: "bool \<times> u8 list \<Rightarrow> SpookyHash \<Rightarrow> SpookyHash" where
  "SpookyHashV1_Update = spookyUpdate SpookyHashV1_Mix"

text \<open>
  \<open>Final\<close> pads the last block in place, inside \<open>m_data\<close>; it returns the hash and the object
  it leaves behind.
\<close>

definition SpookyHashV1_Final :: "SpookyHash \<Rightarrow> (u64 \<times> u64) \<times> SpookyHash" where
  "SpookyHashV1_Final s =
     (if m_length s < sc_bufSize then
        (SpookyHashV1_Short (take (m_length s) (m_data s)) (m_state s ! 0) (m_state s ! 1), s)
      else
        (let data = m_data s;
             remainder = m_remainder s;
             h = m_state s;
             (front, data, remainder, h) =
               (if remainder \<ge> sc_blockSize then
                  (take sc_blockSize data, drop sc_blockSize data, remainder - sc_blockSize,
                   SpookyHashV1_Mix data h)
                else ([], data, remainder, h));
             data = memcpy_at remainder (replicate (sc_blockSize - remainder) 0) data;
             data = data[sc_blockSize - 1 := of_nat remainder];
             h = SpookyHashV1_Mix data h;
             h = SpookyHashV1_End h
         in ((h ! 0, h ! 1), s\<lparr>m_data := front @ data\<rparr>)))"

section \<open>Mixing\<close>

interpretation v1: block_mixer SpookyHashV1_Mix
proof
  show "SpookyHashV1_Mix (take sc_blockSize d) h = SpookyHashV1_Mix d h" for d h
    unfolding SpookyHashV1_Mix_def by (rule rows_cong) (simp add: Read8_take sc_sizes)
  show "length (SpookyHashV1_Mix d h) = length h" for d h
    unfolding SpookyHashV1_Mix_def by (rule rows_length) simp
qed

section \<open>Streaming\<close>

lemma SpookyHashV1_Final_absorbed:
  assumes abs: "spookyAbsorbed SpookyHashV1_Mix seeds msg s"
  shows "fst (SpookyHashV1_Final s) = SpookyHashV1_Hash128 msg (fst seeds) (snd seeds)"
    "spookyAbsorbed SpookyHashV1_Mix seeds msg (snd (SpookyHashV1_Final s))"
proof -
  let ?goal = "fst (SpookyHashV1_Final s) = SpookyHashV1_Hash128 msg (fst seeds) (snd seeds)
    \<and> spookyAbsorbed SpookyHashV1_Mix seeds msg (snd (SpookyHashV1_Final s))"
  have ?goal
  proof (cases "length msg < sc_bufSize")
    case True
    with abs show ?thesis
      by (auto simp: spookyAbsorbed_def SpookyHashV1_Final_def SpookyHashV1_Hash128_def)
  next
    case False
    define front where "front = (if m_remainder s \<ge> sc_blockSize then take sc_blockSize (m_data s) else [])"
    obtain data remainder h where split: "(if m_remainder s \<ge> sc_blockSize
        then (drop sc_blockSize (m_data s), m_remainder s - sc_blockSize, SpookyHashV1_Mix (m_data s) (m_state s))
        else (m_data s, m_remainder s, m_state s)) = (data, remainder, h)"
      by (metis prod_cases3)
    note last = v1.absorbed_last_block [OF abs False split]
    let ?lastBytes = "drop (sc_blockSize * (length msg div sc_blockSize)) msg"
    let ?padded = "(memcpy_at remainder (replicate (sc_blockSize - remainder) 0) data)
      [sc_blockSize - 1 := of_nat remainder]"
    have rem: "remainder < sc_blockSize" by (simp add: last(2) sc_sizes)
    have m: "length (m_data s) = 192" "m_remainder s < 192"
      using abs by (auto simp: spookyAbsorbed_def spooky_wf_def sc_sizes)
    have final: "SpookyHashV1_Final s = (let h = SpookyHashV1_End (SpookyHashV1_Mix ?padded h) in
        ((h ! 0, h ! 1), s\<lparr>m_data := front @ ?padded\<rparr>))"
      using abs False split
      by (auto simp: SpookyHashV1_Final_def spookyAbsorbed_def front_def Let_def split: if_splits)
    have "take sc_blockSize (memcpy_at remainder (replicate (sc_blockSize - remainder) 0) data)
        = ?lastBytes @ replicate (sc_blockSize - remainder) 0"
      using rem by (intro memcpy_pad last(3,4)) simp
    then have "SpookyHashV1_Mix ?padded h
        = SpookyHashV1_Mix ((?lastBytes @ replicate (sc_blockSize - remainder) 0)
          [sc_blockSize - 1 := of_nat remainder]) h"
      by (metis v1.mix_block take_update_swap)
    moreover have "take (m_remainder s) (front @ ?padded) = take (m_remainder s) (m_data s)"
      "length (front @ ?padded) = length (m_data s)"
      using split rem last(4) m take_add [of 96 "m_remainder s - 96" "m_data s"]
      by (auto simp: front_def memcpy_at_def sc_sizes split: if_splits)
    ultimately show ?thesis
      using abs False
      by (auto simp: final SpookyHashV1_Hash128_def Let_def last(1) spookyAbsorbed_def spooky_wf_def
          last(2) minus_mult_div_eq_mod)
  qed
  then show "fst (SpookyHashV1_Final s) = SpookyHashV1_Hash128 msg (fst seeds) (snd seeds)"
    "spookyAbsorbed SpookyHashV1_Mix seeds msg (snd (SpookyHashV1_Final s))" by blast+
qed

interpretation v1: streaming_hash spooky_wf SpookyHashV1_Init SpookyHashV1_Update
  SpookyHashV1_Final snd "\<lambda>seeds msg. SpookyHashV1_Hash128 msg (fst seeds) (snd seeds)"
  "2 ^ 64" "spookyAbsorbed SpookyHashV1_Mix"
proof
  show "spookyAbsorbed SpookyHashV1_Mix seed (msg @ snd x) (SpookyHashV1_Update x s)"
    if "spookyAbsorbed SpookyHashV1_Mix seed msg s" "length (msg @ snd x) < 2 ^ 64" for seed msg s x
    using v1.absorbed_update_short [OF that] v1.absorbed_update_long [OF that]
    by (cases x; cases "length (snd x) + m_remainder s < sc_bufSize")
      (simp_all add: SpookyHashV1_Update_def)
  show "spookyAbsorbed SpookyHashV1_Mix seed [] (SpookyHashV1_Init seed s)"
    if "spooky_wf s" for seed s
    using that by (auto simp: spookyAbsorbed_def spooky_wf_def SpookyHashV1_Init_def spookyInit_def
        sc_sizes)
qed (fact SpookyHashV1_Final_absorbed)+

section \<open>Properties\<close>

text \<open>
  C23. The streaming object hashes the concatenation of its input: for any sequence of \<open>Update\<close>
  and \<open>Final\<close> calls after \<open>Init\<close>, with any cuts and any pointer alignment, every \<open>Final\<close>
  returns \<open>Hash128\<close> of all bytes fed so far. \<open>Final\<close> pads \<open>m_data\<close> in place, and still does not
  disturb later calls, as the header promises.
\<close>

theorem spooky_v1_stream:
  assumes "spooky_wf s" and "length (streamed snd ops) < 2 ^ 64"
  shows "stream SpookyHashV1_Update SpookyHashV1_Final ops (SpookyHashV1_Init seeds s)
    = streamSpec snd (\<lambda>msg. SpookyHashV1_Hash128 msg (fst seeds) (snd seeds)) ops []"
  using assms by (rule v1.stream_correct)

theorem spooky_v1_stream_witness:
  "stream SpookyHashV1_Update SpookyHashV1_Final
     [Some (True, replicate 100 1), Some (False, replicate 300 2), None, Some (True, [3]), None]
     (SpookyHashV1_Init (5, 7)
        \<lparr>m_data = replicate 192 0, m_state = replicate 12 0, m_length = 0, m_remainder = 0\<rparr>)
   = [SpookyHashV1_Hash128 (replicate 100 1 @ replicate 300 2) 5 7,
      SpookyHashV1_Hash128 (replicate 100 1 @ replicate 300 2 @ [3]) 5 7]"
  using spooky_v1_stream
    [of "\<lparr>m_data = replicate 192 0, m_state = replicate 12 0, m_length = 0, m_remainder = 0\<rparr>"
      "[Some (True, replicate 100 1), Some (False, replicate 300 2), None, Some (True, [3]), None]"
      "(5, 7)"]
  by (simp add: spooky_wf_def sc_sizes)

lemma SpookyHashV1_EndPartial_inj: "inj_on SpookyHashV1_EndPartial (words 12)"
  unfolding SpookyHashV1_EndPartial_def [abs_def]
  by (intro rows_inj endRow_inj) simp_all

lemma SpookyHashV1_EndPartial_length [simp]: "length (SpookyHashV1_EndPartial h) = length h"
  unfolding SpookyHashV1_EndPartial_def by (rule rows_length) simp

text \<open>
  No mixing function loses state: for fixed data \<open>Mix\<close>, and the data-free
  \<open>End\<close>, \<open>EndPartial\<close>, \<open>ShortMix\<close> and \<open>ShortEnd\<close>, are injective on the variables, so that two
  inputs stay apart until the final truncation to two words.
\<close>

theorem spooky_v1_reversible:
  "inj_on (SpookyHashV1_Mix data) {s. length s = 12}
   \<and> inj_on SpookyHashV1_End {s. length s = 12}
   \<and> inj_on SpookyHashV1_EndPartial {s. length s = 12}
   \<and> inj_on SpookyHashV1_ShortMix {s. length s = 4}
   \<and> inj_on SpookyHashV1_ShortEnd {s. length s = 4}"
proof -
  have "inj_on (SpookyHashV1_Mix data) (words 12)"
    unfolding SpookyHashV1_Mix_def [abs_def] by (intro rows_inj mixRow_inj) simp_all
  moreover have "inj_on SpookyHashV1_End (words 12)"
    using three_statements_inj_on [OF
        SpookyHashV1_EndPartial_inj SpookyHashV1_EndPartial_inj SpookyHashV1_EndPartial_inj]
    by (simp add: SpookyHashV1_End_def [abs_def] Let_def)
  moreover have "inj_on SpookyHashV1_ShortMix (words 4)"
    unfolding SpookyHashV1_ShortMix_def [abs_def] by (intro rows_inj shortMixRow_inj) simp_all
  moreover have "inj_on SpookyHashV1_ShortEnd (words 4)"
    unfolding SpookyHashV1_ShortEnd_def [abs_def] by (intro rows_inj shortEndRow_inj) simp_all
  ultimately show ?thesis
    using SpookyHashV1_EndPartial_inj by (simp add: words_def)
qed

end
