(* ===== verification/SpookyHashV2.thy ===== *)
theory SpookyHashV2
  imports SpookyHash_Common
begin

text \<open>
  \<open>hash/SpookyHashV2.h\<close> and \<open>hash/SpookyHashV2.cpp\<close>: the mixing functions, the one-shot
  functions \<open>Hash128\<close>, \<open>Hash64\<close>, \<open>Hash32\<close> and the streaming object. The main result is that
  the object hashes the concatenation of what it was fed, however it was cut.
\<close>

section \<open>Definitions\<close>

subsection \<open>SpookyHashV2.h\<close>

definition SpookyHashV2_Mix :: "u8 list \<Rightarrow> u64 list \<Rightarrow> u64 list" where
  "SpookyHashV2_Mix data s =
     rows (\<lambda>i k. mixRow i k (Read8 data i)) [11, 32, 43, 31, 17, 28, 39, 57, 55, 54, 22, 46] s"

definition SpookyHashV2_EndPartial :: "u64 list \<Rightarrow> u64 list" where
  "SpookyHashV2_EndPartial h = rows endRow [44, 15, 34, 21, 38, 33, 10, 13, 38, 53, 42, 54] h"

definition SpookyHashV2_End :: "u8 list \<Rightarrow> u64 list \<Rightarrow> u64 list" where
  "SpookyHashV2_End data h =
     (let h = map (\<lambda>i. h ! i + Read8 data i) [0..<12];
          h = SpookyHashV2_EndPartial h;
          h = SpookyHashV2_EndPartial h
      in SpookyHashV2_EndPartial h)"

definition SpookyHashV2_ShortMix :: "u64 list \<Rightarrow> u64 list" where
  "SpookyHashV2_ShortMix h = rows shortMixRow [50, 52, 30, 41, 54, 48, 38, 37, 62, 34, 5, 36] h"

definition SpookyHashV2_ShortEnd :: "u64 list \<Rightarrow> u64 list" where
  "SpookyHashV2_ShortEnd h = rows shortEndRow [15, 52, 26, 51, 28, 9, 47, 54, 32, 25, 63] h"

subsection \<open>SpookyHashV2.cpp\<close>

text \<open>The loop over complete sets of 32 bytes; returns the rest of the message.\<close>

fun SpookyHashV2_ShortLoop :: "nat \<Rightarrow> u8 list \<Rightarrow> u64 list \<Rightarrow> u8 list \<times> u64 list" where
  "SpookyHashV2_ShortLoop 0 u h = (u, h)"
| "SpookyHashV2_ShortLoop (Suc n) u h =
     (let h = h[2 := h ! 2 + Read8 u 0, 3 := h ! 3 + Read8 u 1];
          h = SpookyHashV2_ShortMix h;
          h = h[0 := h ! 0 + Read8 u 2, 1 := h ! 1 + Read8 u 3]
      in SpookyHashV2_ShortLoop n (drop 32 u) h)"

definition SpookyHashV2_Short :: "u8 list \<Rightarrow> u64 \<Rightarrow> u64 \<Rightarrow> u64 \<times> u64" where
  "SpookyHashV2_Short message hash1 hash2 =
     (let length1 = length message;
          remainder = length1 mod 32;
          h = [hash1, hash2, sc_const, sc_const];
          (u, remainder, h) =
            (if length1 > 15 then
               (let (u, h) = SpookyHashV2_ShortLoop (length1 div 32) message h in
                if remainder \<ge> 16 then
                  (let h = h[2 := h ! 2 + Read8 u 0, 3 := h ! 3 + Read8 u 1];
                       h = SpookyHashV2_ShortMix h
                   in (drop 16 u, remainder - 16, h))
                else (u, remainder, h))
             else (message, remainder, h));
          h = h[3 := h ! 3 + push_bit 56 (of_nat length1)];
          (c, d) = shortTail remainder u;
          h = h[2 := h ! 2 + c, 3 := h ! 3 + d];
          h = SpookyHashV2_ShortEnd h
      in (h ! 0, h ! 1))"

definition SpookyHashV2_Hash128 :: "u8 list \<Rightarrow> u64 \<Rightarrow> u64 \<Rightarrow> u64 \<times> u64" where
  "SpookyHashV2_Hash128 message hash1 hash2 =
     (if length message < sc_bufSize then SpookyHashV2_Short message hash1 hash2
      else
        (let h = seedState hash1 hash2;
             blocks = length message div sc_blockSize;
             h = mixBlocks SpookyHashV2_Mix blocks message h;
             end = drop (sc_blockSize * blocks) message;
             remainder = length message - sc_blockSize * blocks;
             buf = end @ replicate (sc_blockSize - remainder) 0;
             buf = buf[sc_blockSize - 1 := of_nat remainder];
             h = SpookyHashV2_End buf h
         in (h ! 0, h ! 1)))"

definition SpookyHashV2_Hash64 :: "u8 list \<Rightarrow> u64 \<Rightarrow> u64" where
  "SpookyHashV2_Hash64 message seed = fst (SpookyHashV2_Hash128 message seed seed)"

definition SpookyHashV2_Hash32 :: "u8 list \<Rightarrow> u32 \<Rightarrow> u32" where
  "SpookyHashV2_Hash32 message seed =
     (let hash1 = ucast seed; hash2 = ucast seed
      in ucast (fst (SpookyHashV2_Hash128 message hash1 hash2)))"

definition SpookyHashV2_Init :: "u64 \<times> u64 \<Rightarrow> SpookyHash \<Rightarrow> SpookyHash" where
  "SpookyHashV2_Init = spookyInit"

definition SpookyHashV2_Update :: "bool \<times> u8 list \<Rightarrow> SpookyHash \<Rightarrow> SpookyHash" where
  "SpookyHashV2_Update = spookyUpdate SpookyHashV2_Mix"

definition SpookyHashV2_Final :: "SpookyHash \<Rightarrow> u64 \<times> u64" where
  "SpookyHashV2_Final s =
     (if m_length s < sc_bufSize then
        SpookyHashV2_Short (take (m_length s) (m_data s)) (m_state s ! 0) (m_state s ! 1)
      else
        (let data = m_data s;
             remainder = m_remainder s;
             h = m_state s;
             (data, remainder, h) =
               (if remainder \<ge> sc_blockSize then
                  (drop sc_blockSize data, remainder - sc_blockSize, SpookyHashV2_Mix data h)
                else (data, remainder, h));
             data = memcpy_at remainder (replicate (sc_blockSize - remainder) 0) data;
             data = data[sc_blockSize - 1 := of_nat remainder];
             h = SpookyHashV2_End data h
         in (h ! 0, h ! 1)))"

section \<open>Mixing\<close>

interpretation v2: block_mixer SpookyHashV2_Mix
proof
  show "SpookyHashV2_Mix (take sc_blockSize d) h = SpookyHashV2_Mix d h" for d h
    unfolding SpookyHashV2_Mix_def by (rule rows_cong) (simp add: Read8_take sc_sizes)
  show "length (SpookyHashV2_Mix d h) = length h" for d h
    unfolding SpookyHashV2_Mix_def by (rule rows_length) simp
qed

lemma SpookyHashV2_End_block: "SpookyHashV2_End (take sc_blockSize d) h = SpookyHashV2_End d h"
proof -
  have "map (\<lambda>i. h ! i + Read8 (take sc_blockSize d) i) [0..<12] = map (\<lambda>i. h ! i + Read8 d i) [0..<12]"
    by (rule map_cong) (auto simp: Read8_take sc_sizes)
  then show ?thesis
    by (simp only: SpookyHashV2_End_def)
qed

section \<open>Streaming\<close>

lemma SpookyHashV2_Final_absorbed:
  assumes abs: "spookyAbsorbed SpookyHashV2_Mix seeds msg s"
  shows "SpookyHashV2_Final s = SpookyHashV2_Hash128 msg (fst seeds) (snd seeds)"
proof (cases "length msg < sc_bufSize")
  case True
  with abs show ?thesis
    by (auto simp: spookyAbsorbed_def SpookyHashV2_Final_def SpookyHashV2_Hash128_def)
next
  case False
  obtain data remainder h where split: "(if m_remainder s \<ge> sc_blockSize
      then (drop sc_blockSize (m_data s), m_remainder s - sc_blockSize, SpookyHashV2_Mix (m_data s) (m_state s))
      else (m_data s, m_remainder s, m_state s)) = (data, remainder, h)"
    by (metis prod_cases3)
  note last = v2.absorbed_last_block [OF abs False split]
  let ?lastBytes = "drop (sc_blockSize * (length msg div sc_blockSize)) msg"
  have "remainder < sc_blockSize" by (simp add: last(2) sc_sizes)
  then have "take sc_blockSize (memcpy_at remainder (replicate (sc_blockSize - remainder) 0) data)
      = ?lastBytes @ replicate (sc_blockSize - remainder) 0"
    by (intro memcpy_pad last(3,4)) simp
  then have "SpookyHashV2_End ((memcpy_at remainder (replicate (sc_blockSize - remainder) 0) data)
        [sc_blockSize - 1 := of_nat remainder]) h
      = SpookyHashV2_End ((?lastBytes @ replicate (sc_blockSize - remainder) 0)
        [sc_blockSize - 1 := of_nat remainder]) h"
    by (metis SpookyHashV2_End_block take_update_swap)
  then show ?thesis
    using abs False
    by (simp add: SpookyHashV2_Final_def SpookyHashV2_Hash128_def split Let_def last(1)
        spookyAbsorbed_def last(2) minus_mult_div_eq_mod)
qed

interpretation v2: streaming_hash spooky_wf SpookyHashV2_Init SpookyHashV2_Update
  "\<lambda>s. (SpookyHashV2_Final s, s)" snd "\<lambda>seeds msg. SpookyHashV2_Hash128 msg (fst seeds) (snd seeds)"
  "2 ^ 64" "spookyAbsorbed SpookyHashV2_Mix"
proof
  show "spookyAbsorbed SpookyHashV2_Mix seed (msg @ snd x) (SpookyHashV2_Update x s)"
    if "spookyAbsorbed SpookyHashV2_Mix seed msg s" "length (msg @ snd x) < 2 ^ 64" for seed msg s x
    using v2.absorbed_update_short [OF that] v2.absorbed_update_long [OF that]
    by (cases x; cases "length (snd x) + m_remainder s < sc_bufSize")
      (simp_all add: SpookyHashV2_Update_def)
qed (auto simp: spookyAbsorbed_def spooky_wf_def SpookyHashV2_Init_def spookyInit_def sc_sizes
    SpookyHashV2_Final_absorbed)

section \<open>Properties\<close>

text \<open>
  C22. The streaming object hashes the concatenation of its input: for any sequence of \<open>Update\<close>
  and \<open>Final\<close> calls after \<open>Init\<close>, with any cuts and any pointer alignment, every \<open>Final\<close>
  returns \<open>Hash128\<close> of all bytes fed so far, and calling it does not disturb later calls.
\<close>

theorem spooky_v2_stream:
  assumes "spooky_wf s" and "length (streamed snd ops) < 2 ^ 64"
  shows "stream SpookyHashV2_Update (\<lambda>s. (SpookyHashV2_Final s, s)) ops (SpookyHashV2_Init seeds s)
    = streamSpec snd (\<lambda>msg. SpookyHashV2_Hash128 msg (fst seeds) (snd seeds)) ops []"
  using assms by (rule v2.stream_correct)

theorem spooky_v2_stream_witness:
  "stream SpookyHashV2_Update (\<lambda>s. (SpookyHashV2_Final s, s))
     [Some (True, replicate 100 1), Some (False, replicate 300 2), None, Some (True, [3]), None]
     (SpookyHashV2_Init (5, 7)
        \<lparr>m_data = replicate 192 0, m_state = replicate 12 0, m_length = 0, m_remainder = 0\<rparr>)
   = [SpookyHashV2_Hash128 (replicate 100 1 @ replicate 300 2) 5 7,
      SpookyHashV2_Hash128 (replicate 100 1 @ replicate 300 2 @ [3]) 5 7]"
  using spooky_v2_stream
    [of "\<lparr>m_data = replicate 192 0, m_state = replicate 12 0, m_length = 0, m_remainder = 0\<rparr>"
      "[Some (True, replicate 100 1), Some (False, replicate 300 2), None, Some (True, [3]), None]"
      "(5, 7)"]
  by (simp add: spooky_wf_def sc_sizes)

lemma SpookyHashV2_EndPartial_inj: "inj_on SpookyHashV2_EndPartial (words 12)"
  unfolding SpookyHashV2_EndPartial_def [abs_def]
  by (intro rows_inj endRow_inj) simp_all

lemma SpookyHashV2_EndPartial_length [simp]: "length (SpookyHashV2_EndPartial h) = length h"
  unfolding SpookyHashV2_EndPartial_def by (rule rows_length) simp

text \<open>
  No mixing function loses state: for fixed data \<open>Mix\<close> and \<open>End\<close>, and the data-free
  \<open>EndPartial\<close>, \<open>ShortMix\<close> and \<open>ShortEnd\<close>, are injective on the variables, so that two
  inputs stay apart until the final truncation to two words.
\<close>

theorem spooky_v2_reversible:
  "inj_on (SpookyHashV2_Mix data) {s. length s = 12}
   \<and> inj_on (SpookyHashV2_End data) {s. length s = 12}
   \<and> inj_on SpookyHashV2_EndPartial {s. length s = 12}
   \<and> inj_on SpookyHashV2_ShortMix {s. length s = 4}
   \<and> inj_on SpookyHashV2_ShortEnd {s. length s = 4}"
proof -
  have add: "inj_on (\<lambda>h. map (\<lambda>i. h ! i + Read8 data i) [0..<12]) (words 12)"
    by (intro inj_onI nth_equalityI) (auto simp: words_def)
  have "inj_on (SpookyHashV2_Mix data) (words 12)"
    unfolding SpookyHashV2_Mix_def [abs_def] by (intro rows_inj mixRow_inj) simp_all
  moreover have "inj_on (SpookyHashV2_End data) (words 12)"
    using comp_inj_on [OF add inj_on_subset [OF three_statements_inj_on [OF
          SpookyHashV2_EndPartial_inj SpookyHashV2_EndPartial_inj SpookyHashV2_EndPartial_inj]]]
    by (simp add: SpookyHashV2_End_def [abs_def] Let_def o_def image_subset_iff words_def)
  moreover have "inj_on SpookyHashV2_ShortMix (words 4)"
    unfolding SpookyHashV2_ShortMix_def [abs_def] by (intro rows_inj shortMixRow_inj) simp_all
  moreover have "inj_on SpookyHashV2_ShortEnd (words 4)"
    unfolding SpookyHashV2_ShortEnd_def [abs_def] by (intro rows_inj shortEndRow_inj) simp_all
  ultimately show ?thesis
    using SpookyHashV2_EndPartial_inj by (simp add: words_def)
qed

end
