(* ===== verification/Bounded_Fifo.thy ===== *)
theory Bounded_Fifo
  imports Main
begin

text \<open>
  The contract of a bounded first-in first-out queue. An enqueue is refused exactly when the
  queue holds \<open>cap\<close> elements; a dequeue returns the oldest element or reports an empty queue
  and is never undefined (\<^term>\<open>None\<close>). A client that runs a sequence of operations then sees
  what a plain list would have shown it.
\<close>

datatype 'a fifo_op = Enq 'a | Deq

datatype 'a fifo_result = Accepted bool | Taken "'a option"

fun fifo_run :: "('a \<Rightarrow> 'q \<Rightarrow> bool \<times> 'q) \<Rightarrow> ('q \<Rightarrow> ('a option \<times> 'q) option)
    \<Rightarrow> 'a fifo_op list \<Rightarrow> 'q \<Rightarrow> 'a fifo_result list option" where
  "fifo_run enq deq [] q = Some []"
| "fifo_run enq deq (Enq x # ops) q =
     (case enq x q of (ok, q') \<Rightarrow> map_option ((#) (Accepted ok)) (fifo_run enq deq ops q'))"
| "fifo_run enq deq (Deq # ops) q =
     (case deq q of
        None \<Rightarrow> None
      | Some (r, q') \<Rightarrow> map_option ((#) (Taken r)) (fifo_run enq deq ops q'))"

fun fifo_spec :: "nat \<Rightarrow> 'a fifo_op list \<Rightarrow> 'a list \<Rightarrow> 'a fifo_result list" where
  "fifo_spec cap [] xs = []"
| "fifo_spec cap (Enq x # ops) xs =
     (if length xs < cap then Accepted True # fifo_spec cap ops (xs @ [x])
      else Accepted False # fifo_spec cap ops xs)"
| "fifo_spec cap (Deq # ops) [] = Taken None # fifo_spec cap ops []"
| "fifo_spec cap (Deq # ops) (x # xs) = Taken (Some x) # fifo_spec cap ops xs"

locale bounded_fifo =
  fixes inv :: "'q \<Rightarrow> bool"
    and content :: "'q \<Rightarrow> 'a list"
    and cap :: "'q \<Rightarrow> nat"
    and enq :: "'a \<Rightarrow> 'q \<Rightarrow> bool \<times> 'q"
    and deq :: "'q \<Rightarrow> ('a option \<times> 'q) option"
  assumes enq_spec: "inv q \<Longrightarrow> enq x q = (ok, q') \<Longrightarrow>
      inv q' \<and> cap q' = cap q \<and> (ok \<longleftrightarrow> length (content q) < cap q)
      \<and> content q' = (if ok then content q @ [x] else content q)"
    and deq_empty: "inv q \<Longrightarrow> content q = [] \<Longrightarrow> deq q = Some (None, q)"
    and deq_front: "inv q \<Longrightarrow> content q = x # xs \<Longrightarrow>
      \<exists>q'. deq q = Some (Some x, q') \<and> inv q' \<and> cap q' = cap q \<and> content q' = xs"
begin

lemma fifo_run_spec: "inv q \<Longrightarrow> fifo_run enq deq ops q = Some (fifo_spec (cap q) ops (content q))"
proof (induction ops arbitrary: q)
  case (Cons op ops)
  show ?case
  proof (cases op)
    case (Enq x)
    obtain ok q' where "enq x q = (ok, q')" by force
    with enq_spec [OF Cons.prems this] Cons.IH [of q'] show ?thesis
      by (auto simp: Enq)
  next
    case Deq
    show ?thesis
    proof (cases "content q")
      case Nil
      with Cons show ?thesis by (simp add: Deq deq_empty)
    next
      case (Cons x xs)
      with deq_front [OF Cons.prems Cons] Cons.IH show ?thesis by (auto simp: Deq)
    qed
  qed
qed simp

end

end
