(* ===== verification/ProducerConsumerQueue.thy ===== *)
theory ProducerConsumerQueue
  imports Folly_Prelude Bounded_Fifo
begin

text \<open>
  \<open>ProducerConsumerQueue.h\<close>: the lock-free queue of one producer and one consumer. A slot of
  \<open>records_\<close> is \<open>Some x\<close> while it holds a live object and \<^term>\<open>None\<close> while it is raw memory;
  moving out of, or destroying, a slot without a live object is undefined behaviour and
  \<^term>\<open>None\<close> as a result. Indices are 32-bit words.

  The operations are modelled twice: as sequential functions, which meet the contract of
  \<open>Bounded_Fifo\<close>, and as the steps two threads interleave, one step per access to a shared
  location. The acquire loads and release stores of the two indices order the accesses to the
  slots, so that interleavings of whole accesses are all executions once no two threads
  touch a slot at the same time, which is one of the results.
\<close>

section \<open>The sequential operations\<close>

record 'a PCQ =
  q_size :: u32
  q_records :: "'a option list"
  q_readIndex :: u32
  q_writeIndex :: u32

datatype bad_alloc = bad_alloc

definition PCQ_new :: "bool \<Rightarrow> u32 \<Rightarrow> bad_alloc + 'a PCQ" where
  "PCQ_new malloc_ok sz =
     (if \<not> malloc_ok then Inl bad_alloc
      else Inr \<lparr>q_size = sz, q_records = replicate (unat sz) None, q_readIndex = 0, q_writeIndex = 0\<rparr>)"

definition nextIndex :: "u32 \<Rightarrow> u32 \<Rightarrow> u32" where
  "nextIndex sz i = (let nextRecord = i + 1 in if nextRecord = sz then 0 else nextRecord)"

definition PCQ_write :: "'a \<Rightarrow> 'a PCQ \<Rightarrow> bool \<times> 'a PCQ" where
  "PCQ_write x q =
     (let currentWrite = q_writeIndex q;
          nextRecord = nextIndex (q_size q) currentWrite in
      if nextRecord \<noteq> q_readIndex q then
        (True, q\<lparr>q_records := (q_records q)[unat currentWrite := Some x], q_writeIndex := nextRecord\<rparr>)
      else (False, q))"

definition PCQ_read :: "'a PCQ \<Rightarrow> ('a option \<times> 'a PCQ) option" where
  "PCQ_read q =
     (let currentRead = q_readIndex q in
      if currentRead = q_writeIndex q then Some (None, q)
      else
        (let nextRecord = nextIndex (q_size q) currentRead in
         do { record \<leftarrow> q_records q ! unat currentRead;
              Some (Some record,
                q\<lparr>q_records := (q_records q)[unat currentRead := None], q_readIndex := nextRecord\<rparr>) }))"

text \<open>The pointer \<open>frontPtr\<close> returns, as an index into \<open>q_records\<close>.\<close>

definition PCQ_frontPtr :: "'a PCQ \<Rightarrow> u32 option" where
  "PCQ_frontPtr q =
     (let currentRead = q_readIndex q in
      if currentRead = q_writeIndex q then None else Some currentRead)"

definition PCQ_popFront :: "'a PCQ \<Rightarrow> 'a PCQ option" where
  "PCQ_popFront q =
     (let currentRead = q_readIndex q;
          nextRecord = nextIndex (q_size q) currentRead in
      do { _ \<leftarrow> q_records q ! unat currentRead;
           Some (q\<lparr>q_records := (q_records q)[unat currentRead := None], q_readIndex := nextRecord\<rparr>) })"

definition PCQ_isEmpty :: "'a PCQ \<Rightarrow> bool" where
  "PCQ_isEmpty q \<longleftrightarrow> q_readIndex q = q_writeIndex q"

definition PCQ_isFull :: "'a PCQ \<Rightarrow> bool" where
  "PCQ_isFull q \<longleftrightarrow> \<not> nextIndex (q_size q) (q_writeIndex q) \<noteq> q_readIndex q"

text \<open>
  The difference is computed on \<open>unsigned int\<close> and read as an \<open>int\<close>; adding \<open>size_\<close> is again
  unsigned; the result is converted to \<open>size_t\<close> with sign extension.
\<close>

definition PCQ_sizeGuess :: "'a PCQ \<Rightarrow> u64" where
  "PCQ_sizeGuess q =
     (let ret = q_writeIndex q - q_readIndex q;
          ret = (if ret <s 0 then ret + q_size q else ret)
      in scast ret)"

definition PCQ_capacity :: "'a PCQ \<Rightarrow> u64" where
  "PCQ_capacity q = ucast (q_size q - 1)"

text \<open>The loop of the destructor; \<open>None\<close> also when it does not end.\<close>

partial_function (option) PCQ_destroyLoop ::
  "u32 \<Rightarrow> u32 \<Rightarrow> u32 \<Rightarrow> 'a option list \<Rightarrow> 'a option list option" where
  "PCQ_destroyLoop sz readIndex endIndex records =
     (if readIndex \<noteq> endIndex then
        (case records ! unat readIndex of
           None \<Rightarrow> None
         | Some x \<Rightarrow>
             PCQ_destroyLoop sz (nextIndex sz readIndex) endIndex (records[unat readIndex := None]))
      else Some records)"

definition PCQ_destroy :: "'a PCQ \<Rightarrow> 'a option list option" where
  "PCQ_destroy q = PCQ_destroyLoop (q_size q) (q_readIndex q) (q_writeIndex q) (q_records q)"

section \<open>The content of the ring\<close>

text \<open>
  \<open>ring n r xs recs\<close>: of \<open>n\<close> slots, the ones from \<open>r\<close> on hold \<open>xs\<close> and the rest are raw.
\<close>

definition ring :: "nat \<Rightarrow> nat \<Rightarrow> 'a list \<Rightarrow> 'a option list \<Rightarrow> bool" where
  "ring n r xs recs \<longleftrightarrow> length recs = n
     \<and> (\<forall>k<n. recs ! ((r + k) mod n) = (if k < length xs then Some (xs ! k) else None))"

definition PCQ_represents :: "'a PCQ \<Rightarrow> 'a list \<Rightarrow> bool" where
  "PCQ_represents q xs \<longleftrightarrow>
     (let n = unat (q_size q); r = unat (q_readIndex q) in
      2 \<le> n \<and> r < n \<and> length xs < n \<and> unat (q_writeIndex q) = (r + length xs) mod n
      \<and> ring n r xs (q_records q))"

definition PCQ_content :: "'a PCQ \<Rightarrow> 'a list" where
  "PCQ_content q =
     (let n = unat (q_size q); r = unat (q_readIndex q); w = unat (q_writeIndex q) in
      map (\<lambda>k. the (q_records q ! ((r + k) mod n))) [0..<(w + n - r) mod n])"

definition PCQ_invar :: "'a PCQ \<Rightarrow> bool" where
  "PCQ_invar q \<longleftrightarrow> PCQ_represents q (PCQ_content q)"

lemma nextIndex_unat:
  assumes "unat i < unat sz"
  shows "unat (nextIndex sz i) = Suc (unat i) mod unat sz"
proof -
  have "unat sz < 2 ^ LENGTH(32)" by (rule unsigned_less)
  with assms have "Suc (unat i) < 2 ^ 32" by simp
  then have "unat (i + 1) = Suc (unat i)"
    by (simp add: unat_word_ariths(1))
  then show ?thesis
    using assms by (auto simp: nextIndex_def Let_def word_unat_eq_iff)
qed

lemma ring_nth:
  assumes "ring n r xs recs" and "k < n"
  shows "recs ! ((r + k) mod n) = (if k < length xs then Some (xs ! k) else None)"
  using assms by (simp add: ring_def)

lemma ring_append:
  assumes "ring n r xs recs" and "length xs < n"
  shows "ring n r (xs @ [x]) (recs[(r + length xs) mod n := Some x])"
  unfolding ring_def
proof (intro conjI allI impI)
  fix k
  assume k: "k < n"
  have "(r + k) mod n = (r + length xs) mod n \<longleftrightarrow> k = length xs"
    using mod_shift_neq [OF k assms(2)] by auto
  moreover have "(r + length xs) mod n < length recs"
    using assms by (simp add: ring_def)
  ultimately show "recs[(r + length xs) mod n := Some x] ! ((r + k) mod n)
      = (if k < length (xs @ [x]) then Some ((xs @ [x]) ! k) else None)"
    using ring_nth [OF assms(1) k] by (cases "k = length xs") (auto simp: nth_append)
qed (use assms in \<open>simp add: ring_def\<close>)

lemma ring_tail:
  assumes "ring n r (x # xs) recs" and "length (x # xs) < n" and "r < n"
  shows "ring n (Suc r mod n) xs (recs[r := None])"
  unfolding ring_def
proof (intro conjI allI impI)
  fix k
  assume k: "k < n"
  have slot: "(Suc r mod n + k) mod n = (r + Suc k) mod n"
    by (simp add: mod_add_left_eq)
  show "recs[r := None] ! ((Suc r mod n + k) mod n) = (if k < length xs then Some (xs ! k) else None)"
  proof (cases "Suc k = n")
    case True
    then have "(r + Suc k) mod n = r" using assms(3) by simp
    with True assms k show ?thesis by (simp add: slot ring_def)
  next
    case False
    with k have "Suc k < n" by simp
    moreover have "(r + Suc k) mod n \<noteq> (r + 0) mod n"
      using \<open>Suc k < n\<close> by (intro mod_shift_neq) auto
    ultimately show ?thesis
      using ring_nth [OF assms(1) \<open>Suc k < n\<close>] assms(3) unfolding slot by simp
  qed
qed (use assms in \<open>simp add: ring_def\<close>)

lemma PCQ_content_represents:
  assumes "PCQ_represents q xs"
  shows "PCQ_content q = xs" "PCQ_invar q"
proof -
  let ?n = "unat (q_size q)" and ?r = "unat (q_readIndex q)"
  have q: "?r < ?n" "length xs < ?n" "unat (q_writeIndex q) = (?r + length xs) mod ?n"
    "ring ?n ?r xs (q_records q)"
    using assms by (simp_all add: PCQ_represents_def Let_def)
  have "((?r + length xs) mod ?n + ?n - ?r) mod ?n = (length xs) mod ?n"
  proof (cases "?r + length xs < ?n")
    case False
    then have "(?r + length xs) mod ?n = ?r + length xs - ?n"
      using q(1,2) by (simp add: mod_if)
    with False q(1,2) show ?thesis by simp
  qed (use q in simp)
  with q(2,3) have "(unat (q_writeIndex q) + ?n - ?r) mod ?n = length xs" by simp
  then show c: "PCQ_content q = xs"
    using q by (auto simp: PCQ_content_def Let_def ring_def intro: nth_equalityI)
  with assms show "PCQ_invar q" by (simp add: PCQ_invar_def)
qed

lemma PCQ_index_range:
  assumes "PCQ_represents q xs"
  shows "unat (q_readIndex q) < unat (q_size q)" "unat (q_writeIndex q) < unat (q_size q)"
  using assms by (auto simp: PCQ_represents_def Let_def)

lemma PCQ_full_iff:
  assumes "PCQ_represents q xs"
  shows "nextIndex (q_size q) (q_writeIndex q) = q_readIndex q \<longleftrightarrow> Suc (length xs) = unat (q_size q)"
proof -
  let ?n = "unat (q_size q)" and ?r = "unat (q_readIndex q)"
  have q: "?r < ?n" "length xs < ?n" "unat (q_writeIndex q) = (?r + length xs) mod ?n"
    using assms by (simp_all add: PCQ_represents_def Let_def)
  have "unat (nextIndex (q_size q) (q_writeIndex q)) = (?r + Suc (length xs)) mod ?n"
    using q by (simp add: nextIndex_unat mod_Suc_eq)
  moreover have "(?r + Suc (length xs)) mod ?n = ?r \<longleftrightarrow> Suc (length xs) = ?n"
    using q(1,2) mod_shift_neq [of "Suc (length xs)" ?n 0 ?r] by (cases "Suc (length xs) = ?n") auto
  ultimately show ?thesis by (simp add: word_unat_eq_iff)
qed

lemma PCQ_empty_iff:
  assumes "PCQ_represents q xs"
  shows "q_readIndex q = q_writeIndex q \<longleftrightarrow> xs = []"
proof -
  let ?n = "unat (q_size q)" and ?r = "unat (q_readIndex q)"
  have "?r < ?n" "length xs < ?n" "unat (q_writeIndex q) = (?r + length xs) mod ?n"
    using assms by (simp_all add: PCQ_represents_def Let_def)
  then show ?thesis
    using mod_shift_neq [of 0 ?n "length xs" ?r] by (cases xs) (auto simp: word_unat_eq_iff)
qed

lemma PCQ_write_represents:
  assumes "PCQ_represents q xs"
  shows "PCQ_write x q =
      (if Suc (length xs) < unat (q_size q)
       then (True, q\<lparr>q_records := (q_records q)[unat (q_writeIndex q) := Some x],
                     q_writeIndex := nextIndex (q_size q) (q_writeIndex q)\<rparr>)
       else (False, q))"
    "Suc (length xs) < unat (q_size q) \<Longrightarrow> PCQ_represents (snd (PCQ_write x q)) (xs @ [x])"
proof -
  have "length xs < unat (q_size q)"
    using assms by (simp add: PCQ_represents_def Let_def)
  then show w: "PCQ_write x q =
      (if Suc (length xs) < unat (q_size q)
       then (True, q\<lparr>q_records := (q_records q)[unat (q_writeIndex q) := Some x],
                     q_writeIndex := nextIndex (q_size q) (q_writeIndex q)\<rparr>)
       else (False, q))"
    using PCQ_full_iff [OF assms] by (auto simp: PCQ_write_def Let_def)
  show "PCQ_represents (snd (PCQ_write x q)) (xs @ [x])" if "Suc (length xs) < unat (q_size q)"
    using assms that
      ring_append [of "unat (q_size q)" "unat (q_readIndex q)" xs "q_records q" x]
    by (auto simp: w PCQ_represents_def Let_def nextIndex_unat mod_Suc_eq)
qed

lemma PCQ_remove_represents:
  assumes "PCQ_represents q (x # xs)"
  shows "q_records q ! unat (q_readIndex q) = Some x"
    "PCQ_represents (q\<lparr>q_records := (q_records q)[unat (q_readIndex q) := None],
       q_readIndex := nextIndex (q_size q) (q_readIndex q)\<rparr>) xs"
proof -
  let ?n = "unat (q_size q)" and ?r = "unat (q_readIndex q)"
  have q: "2 \<le> ?n" "?r < ?n" "length (x # xs) < ?n" "unat (q_writeIndex q) = (?r + length (x # xs)) mod ?n"
    "ring ?n ?r (x # xs) (q_records q)"
    using assms by (simp_all add: PCQ_represents_def Let_def)
  then show "q_records q ! ?r = Some x"
    using ring_nth [OF q(5), of 0] by simp
  show "PCQ_represents (q\<lparr>q_records := (q_records q)[?r := None],
      q_readIndex := nextIndex (q_size q) (q_readIndex q)\<rparr>) xs"
    using q ring_tail [OF q(5,3,2)]
    by (simp add: PCQ_represents_def Let_def nextIndex_unat mod_add_left_eq)
qed

lemma PCQ_read_represents:
  "PCQ_represents q [] \<Longrightarrow> PCQ_read q = Some (None, q)"
  "PCQ_represents q (x # xs) \<Longrightarrow> \<exists>q'. PCQ_read q = Some (Some x, q') \<and> PCQ_represents q' xs
     \<and> q_size q' = q_size q"
  using PCQ_empty_iff [of q "[]"] PCQ_empty_iff [of q "x # xs"] PCQ_remove_represents [of q x xs]
  by (auto simp: PCQ_read_def Let_def)

interpretation pcq: bounded_fifo PCQ_invar PCQ_content "\<lambda>q. unat (q_size q) - 1" PCQ_write PCQ_read
proof
  fix q q' :: "'a PCQ" and x :: 'a and ok
  assume "PCQ_invar q" and w: "PCQ_write x q = (ok, q')"
  then have q: "PCQ_represents q (PCQ_content q)" by (simp add: PCQ_invar_def)
  show "PCQ_invar q' \<and> unat (q_size q') - 1 = unat (q_size q) - 1
      \<and> (ok \<longleftrightarrow> length (PCQ_content q) < unat (q_size q) - 1)
      \<and> PCQ_content q' = (if ok then PCQ_content q @ [x] else PCQ_content q)"
    using w PCQ_write_represents [OF q, of x] PCQ_content_represents [of q' "PCQ_content q @ [x]"]
      \<open>PCQ_invar q\<close>
    by (auto split: if_splits)
next
  fix q :: "'a PCQ"
  assume "PCQ_invar q" "PCQ_content q = []"
  then show "PCQ_read q = Some (None, q)"
    by (simp add: PCQ_invar_def PCQ_read_represents(1))
next
  fix q :: "'a PCQ" and x :: 'a and xs
  assume "PCQ_invar q" "PCQ_content q = x # xs"
  then show "\<exists>q'. PCQ_read q = Some (Some x, q') \<and> PCQ_invar q'
      \<and> unat (q_size q') - 1 = unat (q_size q) - 1 \<and> PCQ_content q' = xs"
    using PCQ_read_represents(2) [of q x xs] PCQ_content_represents by (fastforce simp: PCQ_invar_def)
qed

section \<open>Observers and the destructor\<close>

lemma u32_negative_iff: "x <s 0 \<longleftrightarrow> 2 ^ 31 \<le> unat x" for x :: u32
proof -
  have "x <s 0 \<longleftrightarrow> bit x 31"
    using bit_last_iff [of x] by (simp add: word_sless_alt)
  also have "\<dots> \<longleftrightarrow> odd (unat x div 2 ^ 31)"
    using bit_unsigned_iff [of x 31, where ?'a = nat] by (simp add: bit_iff_odd)
  also have "\<dots> \<longleftrightarrow> 2 ^ 31 \<le> unat x"
  proof -
    have "unat x < 2 ^ LENGTH(32)" by (rule unsigned_less)
    then have "unat x div 2 ^ 31 < 2" by (simp add: less_mult_imp_div_less)
    then have "odd (unat x div 2 ^ 31) \<longleftrightarrow> unat x div 2 ^ 31 \<noteq> 0" by (auto simp: less_2_cases_iff)
    then show ?thesis by (simp add: div_eq_0_iff not_less)
  qed
  finally show ?thesis .
qed

lemma scast_nonneg:
  fixes x :: u32
  assumes "unat x < 2 ^ 31"
  shows "unat (scast x :: u64) = unat x"
proof -
  have "\<not> bit x 31"
    using assms u32_negative_iff [of x] bit_last_iff [of x] by (simp add: word_sless_alt)
  then have "\<not> bit x n" if "31 \<le> n" for n
    using that bit_imp_le_length [of x n] by (cases "n = 31") auto
  then have "(scast x :: u64) = ucast x"
    by (intro bit_word_eqI) (auto simp: bit_simps min_def)
  then show ?thesis by (simp add: unat_ucast_up)
qed

text \<open>
  The bound on the size is needed: the index difference of a longer queue does not fit an \<open>int\<close>.
\<close>

lemma PCQ_sizeGuess_overflow:
  "PCQ_sizeGuess \<lparr>q_size = 3000000000, q_records = recs, q_readIndex = 0, q_writeIndex = 2500000000\<rparr>
   = 1205032704"
  by (simp add: PCQ_sizeGuess_def Let_def word_sless_alt)

lemma PCQ_sizeGuess_represents:
  assumes "PCQ_represents q xs" and "unat (q_size q) \<le> 2 ^ 31"
  shows "unat (PCQ_sizeGuess q) = length xs"
proof -
  let ?n = "unat (q_size q)" and ?r = "unat (q_readIndex q)" and ?w = "unat (q_writeIndex q)"
  have q: "?r < ?n" "length xs < ?n" "?w = (?r + length xs) mod ?n"
    using assms by (simp_all add: PCQ_represents_def Let_def)
  show ?thesis
  proof (cases "?r + length xs < ?n")
    case True
    then have "?w = ?r + length xs" using q(3) by simp
    then have "unat (q_writeIndex q - q_readIndex q) = length xs"
      by (simp add: unat_sub word_le_nat_alt)
    with q(2) assms(2) show ?thesis
      by (simp add: PCQ_sizeGuess_def Let_def u32_negative_iff scast_nonneg)
  next
    case False
    then have w: "?w = ?r + length xs - ?n" using q by (simp add: mod_if)
    let ?d = "q_writeIndex q - q_readIndex q"
    have d: "unat ?d = 2 ^ 32 + length xs - ?n"
      using False q(1,2) w by (auto simp: unat_sub_if')
    have "unat (?d + q_size q) = (2 ^ 32 + length xs - ?n + ?n) mod 2 ^ 32"
      by (simp add: unat_word_ariths(1) d)
    also have "\<dots> = (2 ^ 32 + length xs) mod 2 ^ 32"
      using assms(2) by simp
    also have "\<dots> = length xs"
      using q(2) assms(2) by simp
    finally have "unat (?d + q_size q) = length xs" .
    moreover have "?d <s 0"
      using d q(2) assms(2) by (simp add: u32_negative_iff)
    ultimately show ?thesis
      using q(2) assms(2) by (simp add: PCQ_sizeGuess_def Let_def scast_nonneg)
  qed
qed

lemma ring_slot:
  fixes n :: nat
  assumes "j < n" and "r < n"
  obtains k where "k < n" and "(r + k) mod n = j"
proof (cases "r \<le> j")
  case True
  then show thesis using that [of "j - r"] assms by simp
next
  case False
  then show thesis using that [of "n + j - r"] assms by (simp add: mod_if)
qed

lemma ring_Nil:
  assumes "ring n r [] recs" and "r < n"
  shows "recs = replicate n None"
proof (rule nth_equalityI)
  show "length recs = length (replicate n None)" using assms by (simp add: ring_def)
  fix j
  assume "j < length recs"
  then have "j < n" using assms by (simp add: ring_def)
  then obtain k where "k < n" "(r + k) mod n = j" using assms(2) by (rule ring_slot)
  with assms \<open>j < n\<close> show "recs ! j = replicate n None ! j" by (auto simp: ring_def)
qed

lemma PCQ_destroy_represents:
  "PCQ_represents q xs \<Longrightarrow> PCQ_destroy q = Some (replicate (unat (q_size q)) None)"
proof (induction xs arbitrary: q)
  case Nil
  then have "q_readIndex q = q_writeIndex q" by (simp add: PCQ_empty_iff)
  with Nil show ?case
    using ring_Nil by (auto simp: PCQ_destroy_def PCQ_destroyLoop.simps PCQ_represents_def Let_def)
next
  case (Cons x xs)
  have "q_readIndex q \<noteq> q_writeIndex q" using Cons.prems by (simp add: PCQ_empty_iff)
  then show ?case
    using Cons.IH [OF PCQ_remove_represents(2) [OF Cons.prems]] PCQ_remove_represents(1) [OF Cons.prems]
    unfolding PCQ_destroy_def by (subst PCQ_destroyLoop.simps) simp
qed

section \<open>Two threads\<close>

text \<open>
  Where a thread stands inside \<open>write\<close> or \<open>read\<close>: before which access to a shared location,
  with its local variables. A thread that is idle may start another call.
\<close>

datatype 'a producer =
  P_Idle
| P_CheckFull 'a u32
| P_Construct 'a u32 u32
| P_Publish 'a u32

datatype 'a consumer =
  C_Idle
| C_CheckEmpty u32
| C_Take u32 u32
| C_Release 'a u32

text \<open>
  The queue, the threads, and what the calls that returned true have written and read so far.
\<close>

record 'a spsc =
  queue :: "'a PCQ"
  producer :: "'a producer"
  consumer :: "'a consumer"
  written :: "'a list"
  taken :: "'a list"

inductive spsc_step :: "'a spsc \<Rightarrow> 'a spsc \<Rightarrow> bool" where
  write_begin:
    "producer s = P_Idle \<Longrightarrow>
     spsc_step s (s\<lparr>producer := P_CheckFull x (q_writeIndex (queue s))\<rparr>)"
| write_full:
    "producer s = P_CheckFull x w \<Longrightarrow>
     nextIndex (q_size (queue s)) w = q_readIndex (queue s) \<Longrightarrow>
     spsc_step s (s\<lparr>producer := P_Idle\<rparr>)"
| write_room:
    "producer s = P_CheckFull x w \<Longrightarrow>
     nextIndex (q_size (queue s)) w \<noteq> q_readIndex (queue s) \<Longrightarrow>
     spsc_step s (s\<lparr>producer := P_Construct x w (nextIndex (q_size (queue s)) w)\<rparr>)"
| write_construct:
    "producer s = P_Construct x w n \<Longrightarrow>
     spsc_step s (s\<lparr>queue := (queue s)\<lparr>q_records := (q_records (queue s))[unat w := Some x]\<rparr>,
       producer := P_Publish x n\<rparr>)"
| write_publish:
    "producer s = P_Publish x n \<Longrightarrow>
     spsc_step s (s\<lparr>queue := (queue s)\<lparr>q_writeIndex := n\<rparr>, producer := P_Idle,
       written := written s @ [x]\<rparr>)"
| read_begin:
    "consumer s = C_Idle \<Longrightarrow>
     spsc_step s (s\<lparr>consumer := C_CheckEmpty (q_readIndex (queue s))\<rparr>)"
| read_empty:
    "consumer s = C_CheckEmpty r \<Longrightarrow> r = q_writeIndex (queue s) \<Longrightarrow>
     spsc_step s (s\<lparr>consumer := C_Idle\<rparr>)"
| read_some:
    "consumer s = C_CheckEmpty r \<Longrightarrow> r \<noteq> q_writeIndex (queue s) \<Longrightarrow>
     spsc_step s (s\<lparr>consumer := C_Take r (nextIndex (q_size (queue s)) r)\<rparr>)"
| read_take:
    "consumer s = C_Take r n \<Longrightarrow> q_records (queue s) ! unat r = Some x \<Longrightarrow>
     spsc_step s (s\<lparr>queue := (queue s)\<lparr>q_records := (q_records (queue s))[unat r := None]\<rparr>,
       consumer := C_Release x n\<rparr>)"
| read_release:
    "consumer s = C_Release x n \<Longrightarrow>
     spsc_step s (s\<lparr>queue := (queue s)\<lparr>q_readIndex := n\<rparr>, consumer := C_Idle,
       taken := taken s @ [x]\<rparr>)"

definition spsc_init :: "u32 \<Rightarrow> 'a spsc" where
  "spsc_init sz =
     \<lparr>queue = \<lparr>q_size = sz, q_records = replicate (unat sz) None, q_readIndex = 0, q_writeIndex = 0\<rparr>,
      producer = P_Idle, consumer = C_Idle, written = [], taken = []\<rparr>"

text \<open>
  The queue as if an unpublished construction had not happened and an unreleased removal had
  not either: what the sequential view sees.
\<close>

definition settled :: "'a spsc \<Rightarrow> 'a PCQ" where
  "settled s =
     (let q = queue s;
          recs = q_records q;
          recs = (case producer s of P_Publish x n \<Rightarrow> recs[unat (q_writeIndex q) := None] | _ \<Rightarrow> recs);
          recs = (case consumer s of C_Release x n \<Rightarrow> recs[unat (q_readIndex q) := Some x] | _ \<Rightarrow> recs)
      in q\<lparr>q_records := recs\<rparr>)"

definition producer_ok :: "'a PCQ \<Rightarrow> 'a list \<Rightarrow> 'a producer \<Rightarrow> bool" where
  "producer_ok q xs p = (case p of
       P_Idle \<Rightarrow> True
     | P_CheckFull x w \<Rightarrow> w = q_writeIndex q
     | P_Construct x w n \<Rightarrow> w = q_writeIndex q \<and> n = nextIndex (q_size q) w
         \<and> Suc (length xs) < unat (q_size q)
     | P_Publish x n \<Rightarrow> n = nextIndex (q_size q) (q_writeIndex q)
         \<and> Suc (length xs) < unat (q_size q) \<and> q_records q ! unat (q_writeIndex q) = Some x)"

definition consumer_ok :: "'a PCQ \<Rightarrow> 'a list \<Rightarrow> 'a consumer \<Rightarrow> bool" where
  "consumer_ok q xs c = (case c of
       C_Idle \<Rightarrow> True
     | C_CheckEmpty r \<Rightarrow> r = q_readIndex q
     | C_Take r n \<Rightarrow> r = q_readIndex q \<and> n = nextIndex (q_size q) r \<and> xs \<noteq> []
     | C_Release x n \<Rightarrow> n = nextIndex (q_size q) (q_readIndex q) \<and> xs \<noteq> [] \<and> hd xs = x
         \<and> q_records q ! unat (q_readIndex q) = None)"

definition spsc_inv :: "'a spsc \<Rightarrow> 'a list \<Rightarrow> bool" where
  "spsc_inv s xs \<longleftrightarrow> written s = taken s @ xs \<and> PCQ_represents (settled s) xs
     \<and> producer_ok (queue s) xs (producer s) \<and> consumer_ok (queue s) xs (consumer s)"

lemma settled_fields [simp]:
  "q_size (settled s) = q_size (queue s)" "q_readIndex (settled s) = q_readIndex (queue s)"
  "q_writeIndex (settled s) = q_writeIndex (queue s)"
  by (simp_all add: settled_def Let_def)

text \<open>The two ends meet only in an empty queue, and the slot at the write end is raw.\<close>

lemma represents_ends:
  assumes "PCQ_represents q xs"
  shows "xs \<noteq> [] \<Longrightarrow> unat (q_readIndex q) \<noteq> unat (q_writeIndex q)"
    "q_records q ! unat (q_writeIndex q) = None"
    "xs \<noteq> [] \<Longrightarrow> q_records q ! unat (q_readIndex q) = Some (hd xs)"
    "length (q_records q) = unat (q_size q)"
proof -
  let ?n = "unat (q_size q)" and ?r = "unat (q_readIndex q)"
  have q: "?r < ?n" "length xs < ?n" "unat (q_writeIndex q) = (?r + length xs) mod ?n"
    "ring ?n ?r xs (q_records q)"
    using assms by (simp_all add: PCQ_represents_def Let_def)
  show "xs \<noteq> [] \<Longrightarrow> ?r \<noteq> unat (q_writeIndex q)"
    using PCQ_empty_iff [OF assms] by (simp add: word_unat_eq_iff)
  show "q_records q ! unat (q_writeIndex q) = None"
    using ring_nth [OF q(4,2)] q(3) by simp
  show "xs \<noteq> [] \<Longrightarrow> q_records q ! ?r = Some (hd xs)"
    using ring_nth [OF q(4), of 0] q(1) by (simp add: hd_conv_nth)
  show "length (q_records q) = ?n"
    using q(4) by (simp add: ring_def)
qed

lemma settled_slots:
  assumes "spsc_inv s xs"
  defines "q \<equiv> queue s"
  shows "length (q_records q) = unat (q_size q)"
    "case producer s of P_Publish x n \<Rightarrow> True | _ \<Rightarrow> q_records q ! unat (q_writeIndex q) = None"
    "xs \<noteq> [] \<Longrightarrow> (case consumer s of C_Release x n \<Rightarrow> True | _ \<Rightarrow>
       q_records q ! unat (q_readIndex q) = Some (hd xs))"
proof -
  have rep: "PCQ_represents (settled s) xs" using assms(1) by (simp add: spsc_inv_def)
  note ends = represents_ends [OF rep]
  show "length (q_records q) = unat (q_size q)"
    using ends(4) by (auto simp: settled_def Let_def q_def split: producer.splits consumer.splits)
  show "case producer s of P_Publish x n \<Rightarrow> True | _ \<Rightarrow> q_records q ! unat (q_writeIndex q) = None"
    using ends(1,2) assms(1)
    by (auto simp: settled_def Let_def q_def spsc_inv_def consumer_ok_def
        split: producer.splits consumer.splits)
  show "case consumer s of C_Release x n \<Rightarrow> True | _ \<Rightarrow> q_records q ! unat (q_readIndex q) = Some (hd xs)"
    if "xs \<noteq> []"
    using ends(1,3) that
    by (auto simp: settled_def Let_def q_def split: producer.splits consumer.splits)
qed

lemma settled_write_construct:
  assumes inv: "spsc_inv s xs" and p: "producer s = P_Construct x w n"
  shows "settled (s\<lparr>queue := (queue s)\<lparr>q_records := (q_records (queue s))[unat w := Some x]\<rparr>,
      producer := P_Publish x n\<rparr>) = settled s"
proof -
  have "w = q_writeIndex (queue s)" "q_records (queue s) ! unat w = None"
    using inv p settled_slots(2) [OF inv] by (simp_all add: spsc_inv_def producer_ok_def)
  then have "(q_records (queue s))[unat w := None] = q_records (queue s)"
    by (metis list_update_id)
  then show ?thesis
    using p \<open>w = q_writeIndex (queue s)\<close>
    by (cases "queue s") (simp add: settled_def Let_def split: consumer.splits)
qed

lemma settled_write_publish:
  assumes inv: "spsc_inv s xs" and p: "producer s = P_Publish x n"
  shows "settled (s\<lparr>queue := (queue s)\<lparr>q_writeIndex := n\<rparr>, producer := P_Idle, written := ws\<rparr>)
    = snd (PCQ_write x (settled s))"
proof -
  let ?q = "queue s"
  have rep: "PCQ_represents (settled s) xs"
    and pub: "n = nextIndex (q_size ?q) (q_writeIndex ?q)" "Suc (length xs) < unat (q_size ?q)"
      "q_records ?q ! unat (q_writeIndex ?q) = Some x"
    using inv p by (simp_all add: spsc_inv_def producer_ok_def)
  have neq: "unat (q_readIndex ?q) \<noteq> unat (q_writeIndex ?q)" if "consumer s = C_Release y m" for y m
    using represents_ends(1) [OF rep] inv that by (simp add: spsc_inv_def consumer_ok_def)
  have upd: "(q_records ?q)[unat (q_writeIndex ?q) := Some x] = q_records ?q"
    by (simp add: pub(3) [symmetric])
  have upd2: "(q_records ?q)[unat (q_writeIndex ?q) := None, r := Some y, unat (q_writeIndex ?q) := Some x]
      = (q_records ?q)[r := Some y]" if "r \<noteq> unat (q_writeIndex ?q)" for r y
    using upd that by (metis list_update_overwrite list_update_swap)
  have "snd (PCQ_write x (settled s)) = (settled s)
      \<lparr>q_records := (q_records (settled s))[unat (q_writeIndex ?q) := Some x], q_writeIndex := n\<rparr>"
    using pub by (simp add: PCQ_write_represents(1) [OF rep])
  then show ?thesis
    using p upd upd2 neq
    by (cases "queue s") (auto simp: settled_def Let_def split: consumer.splits)
qed

lemma settled_read_take:
  assumes inv: "spsc_inv s xs" and c: "consumer s = C_Take r n"
    and x: "q_records (queue s) ! unat r = Some x"
  shows "settled (s\<lparr>queue := (queue s)\<lparr>q_records := (q_records (queue s))[unat r := None]\<rparr>,
      consumer := C_Release x n\<rparr>) = settled s"
proof -
  let ?q = "queue s"
  have rep: "PCQ_represents (settled s) xs" and r: "r = q_readIndex ?q" "xs \<noteq> []"
    using inv c by (simp_all add: spsc_inv_def consumer_ok_def)
  have neq: "unat r \<noteq> unat (q_writeIndex ?q)"
    using represents_ends(1) [OF rep] r by simp
  have upd: "(q_records ?q)[unat r := Some x] = q_records ?q"
    by (simp add: x [symmetric])
  then have "(q_records ?q)[unat r := None, unat (q_writeIndex ?q) := None, unat r := Some x]
      = (q_records ?q)[unat (q_writeIndex ?q) := None]"
    using neq by (metis list_update_overwrite list_update_swap)
  with upd show ?thesis
    using c r by (cases "queue s") (auto simp: settled_def Let_def split: producer.splits)
qed

lemma settled_read_release:
  assumes inv: "spsc_inv s xs" and c: "consumer s = C_Release x n"
  shows "PCQ_represents (settled (s\<lparr>queue := (queue s)\<lparr>q_readIndex := n\<rparr>, consumer := C_Idle,
      taken := ts\<rparr>)) (tl xs)"
proof -
  let ?q = "queue s"
  have rep: "PCQ_represents (settled s) xs" and rel: "n = nextIndex (q_size ?q) (q_readIndex ?q)"
      "xs \<noteq> []" "q_records ?q ! unat (q_readIndex ?q) = None"
    using inv c by (simp_all add: spsc_inv_def consumer_ok_def)
  have neq: "unat (q_readIndex ?q) \<noteq> unat (q_writeIndex ?q)"
    using represents_ends(1) [OF rep] rel(2) by simp
  have upd: "(q_records ?q)[unat (q_readIndex ?q) := None] = q_records ?q"
    by (simp add: rel(3) [symmetric])
  have "PCQ_represents (settled s) (hd xs # tl xs)" using rep rel(2) by simp
  from PCQ_remove_represents(2) [OF this] show ?thesis
    using c rel(1) upd neq
    by (cases "queue s") (auto simp: settled_def Let_def list_update_swap split: producer.splits)
qed

lemma spsc_step_inv:
  assumes "spsc_step s t" and inv: "spsc_inv s xs"
  shows "\<exists>ys. spsc_inv t ys"
  using assms(1)
proof cases
  case (write_begin x)
  with inv have "spsc_inv t xs"
    by (simp add: spsc_inv_def settled_def producer_ok_def Let_def)
  then show ?thesis by blast
next
  case (write_full x w)
  with inv have "spsc_inv t xs"
    by (simp add: spsc_inv_def settled_def producer_ok_def Let_def)
  then show ?thesis by blast
next
  case (write_room x w)
  have rep: "PCQ_represents (settled s) xs" and w: "w = q_writeIndex (queue s)"
    using inv write_room by (simp_all add: spsc_inv_def producer_ok_def)
  have "Suc (length xs) \<noteq> unat (q_size (queue s))"
    using PCQ_full_iff [OF rep] write_room(3) w by simp
  moreover have "length xs < unat (q_size (queue s))"
    using rep by (simp add: PCQ_represents_def Let_def)
  ultimately have "spsc_inv t xs"
    using inv write_room w by (simp add: spsc_inv_def settled_def producer_ok_def Let_def)
  then show ?thesis by blast
next
  case (write_construct x w n)
  have neq: "unat (q_readIndex (queue s)) \<noteq> unat w" if "xs \<noteq> []"
    using represents_ends(1) [of "settled s" xs] inv that write_construct
    by (simp add: spsc_inv_def producer_ok_def)
  have "unat w < length (q_records (queue s))"
    using settled_slots(1) [OF inv] PCQ_index_range(2) [of "settled s" xs] inv write_construct
    by (simp add: spsc_inv_def producer_ok_def)
  then have "spsc_inv t xs"
    using inv write_construct settled_write_construct [OF inv write_construct(2)] neq
    by (auto simp: spsc_inv_def producer_ok_def consumer_ok_def split: consumer.splits)
  then show ?thesis by blast
next
  case (write_publish x n)
  have "PCQ_represents (settled t) (xs @ [x])"
    using inv write_publish settled_write_publish [OF inv write_publish(2)]
      PCQ_write_represents(2) [of "settled s" xs x]
    by (simp add: spsc_inv_def producer_ok_def)
  then have "spsc_inv t (xs @ [x])"
    using inv write_publish by (auto simp: spsc_inv_def producer_ok_def consumer_ok_def split: consumer.splits)
  then show ?thesis by blast
next
  case read_begin
  with inv have "spsc_inv t xs"
    by (simp add: spsc_inv_def settled_def consumer_ok_def Let_def)
  then show ?thesis by blast
next
  case (read_empty r)
  with inv have "spsc_inv t xs"
    by (simp add: spsc_inv_def settled_def consumer_ok_def Let_def)
  then show ?thesis by blast
next
  case (read_some r)
  then have "xs \<noteq> []"
    using inv PCQ_empty_iff [of "settled s" xs] by (simp add: spsc_inv_def consumer_ok_def)
  with inv read_some have "spsc_inv t xs"
    by (simp add: spsc_inv_def settled_def consumer_ok_def Let_def)
  then show ?thesis by blast
next
  case (read_take r n x)
  have r: "r = q_readIndex (queue s)" "xs \<noteq> []" "hd xs = x"
    using inv read_take settled_slots(3) [OF inv] by (simp_all add: spsc_inv_def consumer_ok_def)
  have neq: "unat (q_readIndex (queue s)) \<noteq> unat (q_writeIndex (queue s))"
    using represents_ends(1) [of "settled s" xs] inv r by (simp add: spsc_inv_def)
  have "unat r < length (q_records (queue s))"
    using settled_slots(1) [OF inv] PCQ_index_range(1) [of "settled s" xs] inv r
    by (simp add: spsc_inv_def)
  then have "spsc_inv t xs"
    using inv read_take settled_read_take [OF inv read_take(2,3)] r neq
    by (auto simp: spsc_inv_def producer_ok_def consumer_ok_def split: producer.splits)
  then show ?thesis by blast
next
  case (read_release x n)
  have x: "xs \<noteq> []" "hd xs = x"
    using inv read_release by (simp_all add: spsc_inv_def consumer_ok_def)
  then have "taken s @ xs = (taken s @ [x]) @ tl xs" by (cases xs) simp_all
  then have "spsc_inv t (tl xs)"
    using inv read_release settled_read_release [OF inv read_release(2)] x
    by (auto simp: spsc_inv_def producer_ok_def consumer_ok_def split: producer.splits)
  then show ?thesis by blast
qed

lemma spsc_step_size: "spsc_step s t \<Longrightarrow> q_size (queue t) = q_size (queue s)"
  by (induction rule: spsc_step.induct) simp_all

lemma PCQ_new_represents:
  assumes "2 \<le> unat sz"
  shows "PCQ_represents \<lparr>q_size = sz, q_records = replicate (unat sz) None, q_readIndex = 0, q_writeIndex = 0\<rparr> []"
  using assms by (simp add: PCQ_represents_def Let_def ring_def)

lemma spsc_reachable:
  assumes "2 \<le> unat sz" and "spsc_step\<^sup>*\<^sup>* (spsc_init sz) s"
  shows "\<exists>xs. spsc_inv s xs" "q_size (queue s) = sz"
proof -
  have "(\<exists>xs. spsc_inv s xs) \<and> q_size (queue s) = sz"
    using assms(2)
  proof (induction rule: rtranclp_induct)
    case base
    have "spsc_inv (spsc_init sz) []"
      using PCQ_new_represents [OF assms(1)]
      by (simp add: spsc_inv_def spsc_init_def settled_def producer_ok_def consumer_ok_def Let_def)
    then show ?case by (auto simp: spsc_init_def)
  next
    case (step s t)
    then show ?case using spsc_step_inv spsc_step_size by metis
  qed
  then show "\<exists>xs. spsc_inv s xs" "q_size (queue s) = sz" by blast+
qed

section \<open>Properties\<close>

text \<open>
  C9. Used by one thread, the queue is a bounded FIFO of \<open>size - 1\<close> slots: any sequence of
  writes and reads on a new queue returns what the same sequence on a list returns, and no read
  touches a slot without a live object.
\<close>

theorem pcq_is_bounded_fifo:
  assumes "2 \<le> unat sz" and "PCQ_new True sz = Inr q"
  shows "fifo_run PCQ_write PCQ_read ops q = Some (fifo_spec (unat sz - 1) ops [])"
proof -
  have rep: "PCQ_represents q []" "q_size q = sz"
    using PCQ_new_represents [OF assms(1)] assms(2) by (auto simp: PCQ_new_def)
  show ?thesis
    using pcq.fifo_run_spec [OF PCQ_content_represents(2) [OF rep(1)], of ops]
    by (simp add: PCQ_content_represents(1) [OF rep(1)] rep(2))
qed

theorem pcq_is_bounded_fifo_witness:
  "fifo_run PCQ_write PCQ_read [Enq 10, Enq 20, Enq 30, Deq, Enq 40, Deq, Deq, Deq]
     \<lparr>q_size = 3, q_records = replicate 3 None, q_readIndex = 0, q_writeIndex = 0\<rparr>
   = Some [Accepted True, Accepted True, Accepted False, Taken (Some (10 :: int)), Accepted True,
       Taken (Some 20), Taken (Some 40), Taken None]"
proof -
  let ?q = "\<lparr>q_size = 3, q_records = replicate 3 None, q_readIndex = 0, q_writeIndex = 0\<rparr>"
  have "PCQ_new True 3 = Inr ?q" by (simp add: PCQ_new_def)
  from pcq_is_bounded_fifo [OF _ this, of "[Enq 10, Enq 20, Enq 30, Deq, Enq 40, Deq, Deq, Deq]"]
  show ?thesis by (simp del: fifo_run.simps)
qed

text \<open>
  C4. One producer and one consumer without locks: in every state two interleaved threads can
  reach, the values read are a prefix of the values written, in order, with at most \<open>size - 1\<close>
  of them in flight; the producer only constructs in raw memory, the consumer only moves out
  of a live object, and the two never work on the same slot.
\<close>

theorem spsc_safe:
  assumes "2 \<le> unat sz" and "spsc_step\<^sup>*\<^sup>* (spsc_init sz) s"
  shows "(\<exists>xs. written s = taken s @ xs \<and> length xs \<le> unat sz - 1)
    \<and> (\<forall>x w n. producer s = P_Construct x w n \<longrightarrow> q_records (queue s) ! unat w = None)
    \<and> (\<forall>r n. consumer s = C_Take r n \<longrightarrow> (\<exists>x. q_records (queue s) ! unat r = Some x))
    \<and> (\<forall>x w n r m. producer s = P_Construct x w n \<and> consumer s = C_Take r m \<longrightarrow> w \<noteq> r)"
proof -
  obtain xs where inv: "spsc_inv s xs" and size: "q_size (queue s) = sz"
    using spsc_reachable [OF assms] by blast
  have rep: "PCQ_represents (settled s) xs"
    using inv by (simp add: spsc_inv_def)
  have "written s = taken s @ xs" "length xs < unat sz"
    using inv rep size by (simp_all add: spsc_inv_def PCQ_represents_def Let_def)
  moreover have "q_records (queue s) ! unat w = None" if "producer s = P_Construct x w n" for x w n
    using that settled_slots(2) [OF inv] inv by (simp add: spsc_inv_def producer_ok_def)
  moreover have "q_records (queue s) ! unat r = Some (hd xs)" if "consumer s = C_Take r n" for r n
    using that settled_slots(3) [OF inv] inv by (simp add: spsc_inv_def consumer_ok_def)
  ultimately show ?thesis
    by (metis Suc_diff_1 less_Suc_eq_le option.distinct(1) length_greater_0_conv zero_less_Suc
        less_nat_zero_code neq0_conv)
qed

theorem spsc_safe_witness:
  "\<exists>s. spsc_step\<^sup>*\<^sup>* (spsc_init 2 :: int spsc) s \<and> producer s = P_Construct 7 0 1
     \<and> q_records (queue s) ! unat (0 :: u32) = None"
proof -
  let ?a = "spsc_init 2 :: int spsc"
  let ?b = "?a\<lparr>producer := P_CheckFull 7 (q_writeIndex (queue ?a))\<rparr>"
  let ?c = "?b\<lparr>producer := P_Construct 7 0 (nextIndex (q_size (queue ?b)) 0)\<rparr>"
  have "spsc_step ?a ?b" by (rule write_begin) (simp add: spsc_init_def)
  moreover have "spsc_step ?b ?c"
    by (rule write_room [of _ 7]) (simp_all add: spsc_init_def nextIndex_def)
  ultimately have reach: "spsc_step\<^sup>*\<^sup>* ?a ?c" by (meson r_into_rtranclp rtranclp_trans)
  moreover have c: "producer ?c = P_Construct 7 0 1"
    by (simp add: spsc_init_def nextIndex_def)
  moreover have "q_records (queue ?c) ! unat (0 :: u32) = None"
    using spsc_safe [OF _ reach] c by simp
  ultimately show ?thesis by blast
qed

text \<open>
  C24. Refusals are justified even under interleaving: when the producer's check fails, exactly
  \<open>size - 1\<close> values are in flight at that moment, and when the consumer's check fails, every
  value written has been read.
\<close>

theorem spsc_refusals_exact:
  assumes "2 \<le> unat sz" and "spsc_step\<^sup>*\<^sup>* (spsc_init sz) s"
  shows "(\<forall>x w. producer s = P_CheckFull x w \<and> nextIndex sz w = q_readIndex (queue s)
      \<longrightarrow> length (written s) = length (taken s) + (unat sz - 1))
    \<and> (\<forall>r. consumer s = C_CheckEmpty r \<and> r = q_writeIndex (queue s) \<longrightarrow> written s = taken s)"
proof -
  obtain xs where inv: "spsc_inv s xs" and size: "q_size (queue s) = sz"
    using spsc_reachable [OF assms] by blast
  have rep: "PCQ_represents (settled s) xs"
    using inv by (simp add: spsc_inv_def)
  show ?thesis
    using inv size PCQ_full_iff [OF rep] PCQ_empty_iff [OF rep]
    by (auto simp: spsc_inv_def producer_ok_def consumer_ok_def)
qed

text \<open>A queue of two slots after one write: the next write finds it full, the next read not empty.\<close>

lemma spsc_full_reachable:
  "spsc_step\<^sup>*\<^sup>* (spsc_init 2)
     \<lparr>queue = \<lparr>q_size = 2, q_records = [Some x, None], q_readIndex = 0, q_writeIndex = 1\<rparr>,
      producer = P_CheckFull y 1, consumer = C_Idle, written = [x], taken = []\<rparr>"
  (is "spsc_step\<^sup>*\<^sup>* _ ?e")
proof -
  define a b c d where "a = (spsc_init 2)\<lparr>producer := P_CheckFull x 0\<rparr>" and "b = a\<lparr>producer := P_Construct x 0 1\<rparr>"
    and "c = b\<lparr>queue := (queue b)\<lparr>q_records := [Some x, None]\<rparr>, producer := P_Publish x 1\<rparr>"
    and "d = c\<lparr>queue := (queue c)\<lparr>q_writeIndex := 1\<rparr>, producer := P_Idle, written := [x]\<rparr>"
  note defs = a_def b_def c_def d_def spsc_init_def nextIndex_def
  have two: "replicate 2 v = [v, v]" for v :: "'b option" by (simp add: numeral_2_eq_2)
  have "spsc_step (spsc_init 2) a" using write_begin [of "spsc_init 2" x] by (simp add: defs)
  moreover have "spsc_step a b" using write_room [of a x 0] by (simp add: defs)
  moreover have "spsc_step b c" using write_construct [of b x 0 1] by (simp add: defs two)
  moreover have "spsc_step c d" using write_publish [of c x 1] by (simp add: defs)
  moreover have "spsc_step d ?e" using write_begin [of d y] by (simp add: defs)
  ultimately show ?thesis by (meson converse_rtranclp_into_rtranclp rtranclp.rtrancl_refl)
qed

theorem spsc_refusals_exact_witness:
  "(\<exists>s. spsc_step\<^sup>*\<^sup>* (spsc_init 2 :: int spsc) s \<and> consumer s = C_CheckEmpty (q_writeIndex (queue s))
      \<and> written s = taken s) \<and>
   (\<exists>s. spsc_step\<^sup>*\<^sup>* (spsc_init 2 :: int spsc) s \<and> producer s = P_CheckFull 8 1
      \<and> nextIndex 2 1 = q_readIndex (queue s) \<and> length (written s) = length (taken s) + 1)"
proof -
  define b where "b = (spsc_init 2 :: int spsc)\<lparr>consumer := C_CheckEmpty 0\<rparr>"
  have "spsc_step (spsc_init 2) b" using read_begin [of "spsc_init 2"] by (simp add: b_def spsc_init_def)
  then have reach: "spsc_step\<^sup>*\<^sup>* (spsc_init 2) b" by (rule r_into_rtranclp)
  have empty: "consumer b = C_CheckEmpty (q_writeIndex (queue b))" by (simp add: b_def spsc_init_def)
  have two: "2 \<le> unat (2 :: u32)" by simp
  from spsc_refusals_exact [OF two reach] empty have "written b = taken b" by blast
  moreover obtain e :: "int spsc" where e: "spsc_step\<^sup>*\<^sup>* (spsc_init 2) e" "producer e = P_CheckFull 8 1"
    "q_readIndex (queue e) = 0"
    using spsc_full_reachable [of "7::int" 8] by fastforce
  moreover have full: "nextIndex 2 1 = q_readIndex (queue e)" using e(3) by (simp add: nextIndex_def)
  moreover have "length (written e) = length (taken e) + 1"
    using spsc_refusals_exact [OF two e(1)] e(2) full by auto
  ultimately show ?thesis using reach empty by blast
qed

text \<open>
  The observers of a quiescent queue are exact: \<open>isEmpty\<close>, \<open>isFull\<close>, \<open>capacity\<close> and
  \<open>frontPtr\<close> describe the content, \<open>popFront\<close> removes its first element, \<open>sizeGuess\<close> is the
  number of elements as long as the queue has at most \<open>2 ^ 31\<close> slots, and the destructor
  ends with every remaining object destroyed.
\<close>

theorem pcq_observers:
  assumes "PCQ_invar q"
  shows "(PCQ_isEmpty q \<longleftrightarrow> PCQ_content q = [])
    \<and> (PCQ_isFull q \<longleftrightarrow> Suc (length (PCQ_content q)) = unat (q_size q))
    \<and> unat (PCQ_capacity q) = unat (q_size q) - 1
    \<and> (PCQ_frontPtr q = None \<longleftrightarrow> PCQ_content q = [])
    \<and> (\<forall>x xs. PCQ_content q = x # xs \<longrightarrow> (\<exists>i q'. PCQ_frontPtr q = Some i
        \<and> q_records q ! unat i = Some x
        \<and> PCQ_popFront q = Some q' \<and> PCQ_invar q' \<and> PCQ_content q' = xs))
    \<and> (unat (q_size q) \<le> 2 ^ 31 \<longrightarrow> unat (PCQ_sizeGuess q) = length (PCQ_content q))
    \<and> PCQ_destroy q = Some (replicate (unat (q_size q)) None)"
proof -
  have rep: "PCQ_represents q (PCQ_content q)" using assms by (simp add: PCQ_invar_def)
  have "1 \<le> unat (q_size q)" using rep by (simp add: PCQ_represents_def Let_def)
  then have "unat (PCQ_capacity q) = unat (q_size q) - 1"
    by (simp add: PCQ_capacity_def unat_ucast_up unat_sub word_le_nat_alt)
  moreover have "\<exists>i q'. PCQ_frontPtr q = Some i \<and> q_records q ! unat i = Some x
      \<and> PCQ_popFront q = Some q' \<and> PCQ_invar q' \<and> PCQ_content q' = xs"
    if c: "PCQ_content q = x # xs" for x xs
    using PCQ_remove_represents [OF rep [unfolded c]] PCQ_empty_iff [OF rep] c PCQ_content_represents
    by (auto simp: PCQ_frontPtr_def PCQ_popFront_def Let_def)
  ultimately show ?thesis
    using PCQ_empty_iff [OF rep] PCQ_full_iff [OF rep] PCQ_sizeGuess_represents [OF rep]
      PCQ_destroy_represents [OF rep]
    by (simp add: PCQ_isEmpty_def PCQ_isFull_def PCQ_frontPtr_def Let_def)
qed

theorem pcq_observers_witness:
  "unat (PCQ_sizeGuess \<lparr>q_size = 3, q_records = [Some (7 :: int), None, Some 5], q_readIndex = 2, q_writeIndex = 1\<rparr>) = 2"
proof -
  let ?q = "\<lparr>q_size = 3, q_records = [Some (7 :: int), None, Some 5], q_readIndex = 2, q_writeIndex = 1\<rparr>"
  have "PCQ_content ?q = [5, 7]" "PCQ_invar ?q" by code_simp+
  with pcq_observers [of ?q] show ?thesis by simp
qed

end
