(* ===== verification/CInt.thy ===== *)
theory CInt
  imports Main "HOL-Library.Monad_Syntax"
begin

text \<open>
  Integral types of C++ as values, for the templates of the library that are instantiated
  at several integer types. A value of such a type is an \<^typ>\<open>int\<close> within its limits. The
  exact result of an arithmetic operation is brought back into the type by \<open>arith\<close>: out of
  range it wraps for an unsigned type, and is undefined behaviour, \<^term>\<open>None\<close>, for a signed
  one. A conversion (\<open>T(x)\<close>, \<open>static_cast<T>(x)\<close>) always wraps.
\<close>

section \<open>Types and their limits\<close>

record ctype =
  is_signed :: bool
  width :: nat

definition lim_min :: "ctype \<Rightarrow> int" where
  "lim_min t = (if is_signed t then - (2 ^ (width t - 1)) else 0)"

definition lim_max :: "ctype \<Rightarrow> int" where
  "lim_max t = (if is_signed t then 2 ^ (width t - 1) - 1 else 2 ^ width t - 1)"

definition in_range :: "ctype \<Rightarrow> int \<Rightarrow> bool" where
  "in_range t x \<longleftrightarrow> lim_min t \<le> x \<and> x \<le> lim_max t"

definition cast :: "ctype \<Rightarrow> int \<Rightarrow> int" where
  "cast t x = (x - lim_min t) mod 2 ^ width t + lim_min t"

definition arith :: "ctype \<Rightarrow> int \<Rightarrow> int option" where
  "arith t x = (if in_range t x then Some x else if is_signed t then None else Some (cast t x))"

definition make_unsigned :: "ctype \<Rightarrow> ctype" where
  "make_unsigned t = t\<lparr>is_signed := False\<rparr>"

definition int8 :: ctype where "int8 = \<lparr>is_signed = True, width = 8\<rparr>"
definition uint8 :: ctype where "uint8 = \<lparr>is_signed = False, width = 8\<rparr>"
definition int32 :: ctype where "int32 = \<lparr>is_signed = True, width = 32\<rparr>"
definition uint32 :: ctype where "uint32 = \<lparr>is_signed = False, width = 32\<rparr>"
definition int64 :: ctype where "int64 = \<lparr>is_signed = True, width = 64\<rparr>"
definition uint64 :: ctype where "uint64 = \<lparr>is_signed = False, width = 64\<rparr>"

text \<open>The widths of the standard and extended integer types.\<close>

definition integral :: "ctype \<Rightarrow> bool" where
  "integral t \<longleftrightarrow> width t \<in> {8, 16, 32, 64, 128}"

lemmas ctype_defs = int8_def uint8_def int32_def uint32_def int64_def uint64_def

lemmas lim_defs = lim_min_def lim_max_def

section \<open>Laws\<close>

lemma lim_span: "0 < width t \<Longrightarrow> lim_max t = lim_min t + 2 ^ width t - 1"
  by (cases "width t") (simp_all add: lim_defs)

lemma lim_min_le_0 [simp]: "lim_min t \<le> 0"
  by (simp add: lim_min_def)

lemma lim_max_ge_0 [simp]: "0 \<le> lim_max t"
  by (simp add: lim_max_def)

lemma in_range_0 [simp]: "in_range t 0"
  by (simp add: in_range_def)

lemma in_range_lims [simp]: "in_range t (lim_min t)" "in_range t (lim_max t)"
  using lim_min_le_0 [of t] lim_max_ge_0 [of t] by (simp_all add: in_range_def del: lim_min_le_0 lim_max_ge_0)

lemma in_range_between:
  "in_range t x \<Longrightarrow> in_range t y \<Longrightarrow> x \<le> z \<Longrightarrow> z \<le> y \<Longrightarrow> in_range t z"
  by (simp add: in_range_def)

lemma cast_id: "in_range t x \<Longrightarrow> 0 < width t \<Longrightarrow> cast t x = x"
  using lim_span [of t] by (simp add: cast_def in_range_def)

lemma cast_in_range: "0 < width t \<Longrightarrow> in_range t (cast t x)"
  using lim_span [of t] pos_mod_bound [of "2 ^ width t" "x - lim_min t"]
  by (simp add: cast_def in_range_def)

lemma cast_mod: "cast t x mod 2 ^ width t = x mod 2 ^ width t"
  by (simp add: cast_def mod_simps)

lemma arith_Some: "in_range t x \<Longrightarrow> arith t x = Some x"
  by (simp add: arith_def)

lemma arith_unsigned: "\<not> is_signed t \<Longrightarrow> 0 < width t \<Longrightarrow> arith t x = Some (x mod 2 ^ width t)"
  by (auto simp: arith_def cast_def in_range_def lim_defs)

lemma make_unsigned_simps [simp]:
  "is_signed (make_unsigned t) = False" "width (make_unsigned t) = width t"
  by (simp_all add: make_unsigned_def)

lemma integral_width: "integral t \<Longrightarrow> 0 < width t"
  by (auto simp: integral_def)

lemma integral_make_unsigned [simp]: "integral (make_unsigned t) = integral t"
  by (simp add: integral_def)

lemma lim_max_mono:
  assumes "width s - of_bool (is_signed s) \<le> width t - of_bool (is_signed t)"
  shows "lim_max s \<le> lim_max t"
proof -
  have eq: "lim_max t = 2 ^ (width t - of_bool (is_signed t)) - 1" for t
    by (simp add: lim_max_def)
  show ?thesis
    unfolding eq by (intro diff_right_mono power_increasing assms) simp
qed

lemma lim_min_mono:
  assumes "width s \<le> width t" and "is_signed s = is_signed t"
  shows "lim_min t \<le> lim_min s"
  using assms power_increasing [of "width s - 1" "width t - 1" "2::int"]
  by (auto simp: lim_min_def)

lemma cast_in_range_id: "integral t \<Longrightarrow> lim_min t \<le> x \<Longrightarrow> x \<le> lim_max t \<Longrightarrow> cast t x = x"
  by (simp add: cast_id in_range_def integral_width)

lemma unsigned_lim_min: "\<not> is_signed t \<Longrightarrow> lim_min t = 0"
  by (simp add: lim_min_def)

section \<open>Comparison in C++\<close>

text \<open>Integral promotion and the usual arithmetic conversions.\<close>

definition promote :: "ctype \<Rightarrow> ctype" where
  "promote t = (if width t < 32 then int32 else t)"

definition common_type :: "ctype \<Rightarrow> ctype \<Rightarrow> ctype" where
  "common_type t1 t2 = (let a = promote t1; b = promote t2 in
     if is_signed a = is_signed b then (if width a < width b then b else a)
     else if is_signed a then (if width a \<le> width b then b else a)
     else (if width b \<le> width a then a else b))"

definition cxx_less :: "ctype \<Rightarrow> int \<Rightarrow> ctype \<Rightarrow> int \<Rightarrow> bool" where
  "cxx_less t1 a t2 b \<longleftrightarrow> cast (common_type t1 t2) a < cast (common_type t1 t2) b"

end
