(* ===== verification/CheckedMath.thy ===== *)
theory CheckedMath
  imports CInt Folly_Prelude "HOL-Library.Signed_Division"
begin

text \<open>
  The checked arithmetic of \<open>folly/lang/CheckedMath.h\<close>: additions, products, quotients and
  remainders that report overflow. A function returns whether it succeeded and what it stores in
  \<open>*result\<close>; \<^term>\<open>None\<close> is undefined behaviour or a call for which there is no overload. Operands
  narrower than \<open>int\<close> are promoted, as in C++. The theorems show that the generic routines, written
  without a wider type, agree with the exact arithmetic of the integers, and so with the compiler's
  builtins.
\<close>

section \<open>Definitions\<close>

type_synonym checked_result = "(bool \<times> int) option"

definition generic_checked_add :: "ctype \<Rightarrow> int \<Rightarrow> int \<Rightarrow> checked_result" where
  "generic_checked_add t a b =
     (if is_signed t then
        if a \<ge> 0 then
          do { d \<leftarrow> arith (promote t) (lim_max t - a);
               if d < b then Some (False, 0)
               else do { s \<leftarrow> arith (promote t) (a + b); Some (True, cast t s) } }
        else
          do { d \<leftarrow> arith (promote t) (lim_min t - a);
               if b < d then Some (False, 0)
               else do { s \<leftarrow> arith (promote t) (a + b); Some (True, cast t s) } }
      else
        do { d \<leftarrow> arith (promote t) (lim_max t - b);
             if a \<le> d then do { s \<leftarrow> arith (promote t) (a + b); Some (True, cast t s) }
             else Some (False, 0) })"

definition generic_checked_small_mul :: "ctype \<Rightarrow> int \<Rightarrow> int \<Rightarrow> checked_result" where
  "generic_checked_small_mul t a b =
     (let res = word_of_int a * word_of_int b :: u64;
          overflowMask = NOT (push_bit (width t) 1 - 1) in
      if res AND overflowMask \<noteq> 0 then Some (False, 0) else Some (True, cast t (uint res)))"

definition generic_checked_mul64 :: "u64 \<Rightarrow> u64 \<Rightarrow> checked_result" where
  "generic_checked_mul64 a b =
     (let halfBits = 32; halfMask = push_bit halfBits 1 - 1;
          lhs_high = drop_bit halfBits a; lhs_low = a AND halfMask;
          rhs_high = drop_bit halfBits b; rhs_low = b AND halfMask in
      if lhs_high = 0 \<and> rhs_high = 0 then Some (True, uint (lhs_low * rhs_low))
      else if lhs_high \<noteq> 0 \<and> rhs_high \<noteq> 0 then Some (False, 0)
      else let mid_bits1 = lhs_low * rhs_high in
      if drop_bit halfBits mid_bits1 \<noteq> 0 then Some (False, 0)
      else let mid_bits2 = lhs_high * rhs_low in
      if drop_bit halfBits mid_bits2 \<noteq> 0 then Some (False, 0)
      else let mid_bits = mid_bits1 + mid_bits2 in
      if drop_bit halfBits mid_bits \<noteq> 0 then Some (False, 0)
      else let bot_bits = lhs_low * rhs_low in
      do { (ok, result) \<leftarrow> generic_checked_add uint64 (uint bot_bits) (uint (push_bit halfBits mid_bits));
           if \<not> ok then Some (False, 0) else Some (True, result) })"

definition generic_checked_mul :: "ctype \<Rightarrow> int \<Rightarrow> int \<Rightarrow> checked_result" where
  "generic_checked_mul t a b =
     (if width t < 64 then generic_checked_small_mul t a b
      else if width t = 64 then generic_checked_mul64 (word_of_int a) (word_of_int b)
      else None)"

text \<open>
  The overflow builtins of the compiler compute the exact result and report whether it fits; they
  store the wrapped value, which is reset on failure. \<open>_umul128\<close> gives both halves of a product.
\<close>

definition builtin_overflow :: "ctype \<Rightarrow> int \<Rightarrow> bool \<times> int" where
  "builtin_overflow t x = (\<not> in_range t x, cast t x)"

datatype mul_platform = Builtin | Umul128 | Generic

definition checked_add :: "bool \<Rightarrow> ctype \<Rightarrow> int \<Rightarrow> int \<Rightarrow> checked_result" where
  "checked_add builtin t a b =
     (if builtin then
        (case builtin_overflow t (a + b) of (overflow, result) \<Rightarrow>
           if \<not> overflow then Some (True, result) else Some (False, 0))
      else generic_checked_add t a b)"

definition checked_add3 :: "bool \<Rightarrow> ctype \<Rightarrow> int \<Rightarrow> int \<Rightarrow> int \<Rightarrow> checked_result" where
  "checked_add3 builtin t a b c = do {
     (ok, tmp) \<leftarrow> checked_add builtin t a b;
     if \<not> ok then Some (False, 0)
     else do {
       (ok, tmp) \<leftarrow> checked_add builtin t tmp c;
       if \<not> ok then Some (False, 0) else Some (True, tmp) } }"

definition checked_add4 :: "bool \<Rightarrow> ctype \<Rightarrow> int \<Rightarrow> int \<Rightarrow> int \<Rightarrow> int \<Rightarrow> checked_result" where
  "checked_add4 builtin t a b c d = do {
     (ok, tmp) \<leftarrow> checked_add builtin t a b;
     if \<not> ok then Some (False, 0)
     else do {
       (ok, tmp) \<leftarrow> checked_add builtin t tmp c;
       if \<not> ok then Some (False, 0)
       else do {
         (ok, tmp) \<leftarrow> checked_add builtin t tmp d;
         if \<not> ok then Some (False, 0) else Some (True, tmp) } } }"

definition checked_div :: "ctype \<Rightarrow> int \<Rightarrow> int \<Rightarrow> checked_result" where
  "checked_div t dividend divisor =
     (if divisor = 0 then Some (False, 0)
      else do { q \<leftarrow> arith (promote t) (dividend sdiv divisor); Some (True, cast t q) })"

text \<open>A remainder is undefined when the quotient is.\<close>

definition checked_mod :: "ctype \<Rightarrow> int \<Rightarrow> int \<Rightarrow> checked_result" where
  "checked_mod t dividend divisor =
     (if divisor = 0 then Some (False, 0)
      else do { q \<leftarrow> arith (promote t) (dividend sdiv divisor);
                Some (True, cast t (dividend smod divisor)) })"

definition checked_mul :: "mul_platform \<Rightarrow> ctype \<Rightarrow> int \<Rightarrow> int \<Rightarrow> checked_result" where
  "checked_mul platform t a b =
     (case platform of
        Builtin \<Rightarrow>
          (case builtin_overflow t (a * b) of (overflow, result) \<Rightarrow>
             if \<not> overflow then Some (True, result) else Some (False, 0))
      | Umul128 \<Rightarrow>
          if width t < 64 then generic_checked_mul t a b
          else if width t = 64 then
            (let high = a * b div 2 ^ 64; low = a * b mod 2 ^ 64 in
             if high = 0 then Some (True, cast t low) else Some (False, 0))
          else None
      | Generic \<Rightarrow> generic_checked_mul t a b)"

definition checked_muladd :: "bool \<Rightarrow> mul_platform \<Rightarrow> ctype \<Rightarrow> int \<Rightarrow> int \<Rightarrow> int \<Rightarrow> checked_result" where
  "checked_muladd builtin platform t base mul add = do {
     (ok, tmp) \<leftarrow> checked_mul platform t base mul;
     if \<not> ok then Some (False, 0)
     else do {
       (ok, tmp) \<leftarrow> checked_add builtin t tmp add;
       if \<not> ok then Some (False, 0) else Some (True, tmp) } }"

text \<open>Pointer arithmetic on the address; \<open>sz\<close> is the size of the type pointed to.\<close>

definition checked_add_pointer :: "bool \<Rightarrow> mul_platform \<Rightarrow> nat \<Rightarrow> int \<Rightarrow> int \<Rightarrow> checked_result" where
  "checked_add_pointer builtin platform sz a b = do {
     (ret, result) \<leftarrow> checked_muladd builtin platform uint64 (cast uint64 b) (int sz) a;
     Some (ret, result) }"

section \<open>Exactness\<close>

definition checked :: "ctype \<Rightarrow> int \<Rightarrow> checked_result" where
  "checked t x = Some (if in_range t x then (True, x) else (False, 0))"

lemma promote_props:
  assumes "integral t"
  shows "in_range t x \<Longrightarrow> in_range (promote t) x" "integral (promote t)"
  using assms by (auto simp: promote_def in_range_def lim_defs integral_def int32_def split: if_splits)

lemma builtin_checked:
  assumes "integral t"
  shows "(case builtin_overflow t x of (overflow, result) \<Rightarrow>
    if \<not> overflow then Some (True, result) else Some (False, 0)) = checked t x"
  using assms by (simp add: builtin_overflow_def checked_def cast_id integral_width)

lemma arith_cast:
  assumes "integral t" and "in_range t x"
  shows "do { s \<leftarrow> arith (promote t) x; Some (True, cast t s) } = Some (True, x)"
  using assms promote_props(1) [OF assms] by (simp add: arith_Some cast_id integral_width)

lemma generic_checked_add_correct:
  assumes "integral t" and "in_range t a" and "in_range t b"
  shows "generic_checked_add t a b = checked t (a + b)"
proof -
  have a: "lim_min t \<le> a" "a \<le> lim_max t" and b: "lim_min t \<le> b" "b \<le> lim_max t"
    using assms(2,3) by (simp_all add: in_range_def)
  have diff: "arith (promote t) x = Some x" if "lim_min t \<le> x" "x \<le> lim_max t" for x
    using promote_props(1) [OF assms(1)] that by (simp add: arith_Some in_range_def)
  note sum = arith_cast [OF assms(1), of "a + b"]
  consider "is_signed t" "a \<ge> 0" | "is_signed t" "a < 0" | "\<not> is_signed t" by linarith
  then show ?thesis
  proof cases
    case 1
    then have "in_range t (a + b) \<longleftrightarrow> \<not> lim_max t - a < b" using a b by (auto simp: in_range_def)
    moreover have "lim_min t \<le> lim_max t - a" using a lim_min_le_0 [of t] by linarith
    ultimately show ?thesis
      using 1 sum by (simp add: generic_checked_add_def checked_def diff)
  next
    case 2
    then have "in_range t (a + b) \<longleftrightarrow> \<not> b < lim_min t - a" using a b by (auto simp: in_range_def)
    moreover have "lim_min t - a \<le> lim_max t" using a lim_max_ge_0 [of t] by linarith
    ultimately show ?thesis
      using 2 sum by (simp add: generic_checked_add_def checked_def diff)
  next
    case 3
    then have "in_range t (a + b) \<longleftrightarrow> a \<le> lim_max t - b" using a b by (auto simp: in_range_def unsigned_lim_min)
    moreover have "lim_min t \<le> lim_max t - b" "lim_max t - b \<le> lim_max t" using 3 b by (auto simp: unsigned_lim_min)
    ultimately show ?thesis
      using 3 sum by (simp add: generic_checked_add_def checked_def diff)
  qed
qed

lemma checked_add_correct:
  assumes "integral t" and "in_range t a" and "in_range t b"
  shows "checked_add builtin t a b = checked t (a + b)"
  using generic_checked_add_correct [OF assms] builtin_checked [OF assms(1)] by (simp add: checked_add_def)


section \<open>Products\<close>

lemma and_not_mask:
  fixes x :: u64
  assumes "n < 64"
  shows "x AND NOT (push_bit n 1 - 1) = 0 \<longleftrightarrow> uint x < 2 ^ n"
proof -
  have m: "push_bit n 1 - 1 = (mask n :: u64)" by (simp add: mask_eq_exp_minus_1)
  have "x AND NOT (mask n) = 0 \<longleftrightarrow> take_bit n x = x"
    by (auto simp: take_bit_eq_mask bit_eq_iff bit_and_iff bit_not_iff)
  also have "\<dots> \<longleftrightarrow> take_bit n (uint x) = uint x"
    using assms by (simp add: word_uint_eq_iff unsigned_take_bit_eq)
  finally show ?thesis unfolding m by (simp add: take_bit_int_eq_self_iff)
qed

lemma uint_mult_exact:
  fixes a b :: u64
  shows "uint a * uint b < 2 ^ 64 \<Longrightarrow> uint (a * b) = uint a * uint b"
  by (simp add: uint_word_ariths)

lemma generic_checked_small_mul_correct:
  assumes "width t \<le> 32" and "0 < width t" and "\<not> is_signed t" and "in_range t a" and "in_range t b"
  shows "generic_checked_small_mul t a b = checked t (a * b)"
proof -
  have ab: "0 \<le> a" "a < 2 ^ width t" "0 \<le> b" "b < 2 ^ width t"
    using assms(3-5) by (simp_all add: in_range_def lim_defs)
  have "(2::int) ^ width t \<le> 2 ^ 32" by (intro power_increasing assms) simp
  with ab have a32: "a < 2 ^ 32" "b < 2 ^ 32" by linarith+
  have "a * b < 2 ^ 32 * 2 ^ 32" using mult_strict_mono [of a "2 ^ 32" b "2 ^ 32"] ab a32 by simp
  then have u: "uint (word_of_int a * word_of_int b :: u64) = a * b"
    using ab a32 by (subst uint_mult_exact) (simp_all add: uint_word_of_int_eq take_bit_int_eq_self)
  have "in_range t (a * b) \<longleftrightarrow> a * b < 2 ^ width t"
    using assms(3) ab by (auto simp: in_range_def lim_defs)
  moreover have "width t < 64" using assms(1) by simp
  note and_not_mask [OF this, of "word_of_int a * word_of_int b", unfolded u]
  ultimately show ?thesis
    unfolding generic_checked_small_mul_def Let_def using assms(2) by (simp add: u checked_def cast_id)
qed

lemma uint_halves:
  fixes a :: u64
  shows "uint (drop_bit 32 a) = uint a div 2 ^ 32" "uint (a AND (push_bit 32 1 - 1)) = uint a mod 2 ^ 32"
    "drop_bit 32 a = 0 \<longleftrightarrow> uint a < 2 ^ 32"
proof -
  show d: "uint (drop_bit 32 a) = uint a div 2 ^ 32"
    unfolding drop_bit_eq_div uint_div_distrib by simp
  have "push_bit 32 1 - 1 = (mask 32 :: u64)" by (simp add: mask_eq_exp_minus_1)
  then have "a AND (push_bit 32 1 - 1) = take_bit 32 a" by (simp only: take_bit_eq_mask)
  then show "uint (a AND (push_bit 32 1 - 1)) = uint a mod 2 ^ 32"
    by (simp add: unsigned_take_bit_eq take_bit_eq_mod [where 'a = int])
  show "drop_bit 32 a = 0 \<longleftrightarrow> uint a < 2 ^ 32"
    unfolding word_uint_eq_iff d using uint_ge_0 [of a]
    by (auto simp: zdiv_eq_0_iff)
qed

lemma generic_checked_mul64_correct:
  "generic_checked_mul64 a b = checked uint64 (uint a * uint b)"
proof -
  define H :: int where "H = 2 ^ 32"
  define ah al bh bl where "ah = uint a div H" "al = uint a mod H" "bh = uint b div H" "bl = uint b mod H"
  note ad = this
  define lh ll rh rl where "lh = drop_bit 32 a" "ll = a AND (push_bit 32 1 - 1)"
    "rh = drop_bit 32 b" "rl = b AND (push_bit 32 1 - 1)"
  note wd = this
  have u: "uint lh = ah" "uint ll = al" "uint rh = bh" "uint rl = bl"
    by (simp_all only: wd ad H_def uint_halves)
  have H: "2 ^ 64 = H * H" "0 < H" by (simp_all add: H_def)
  have "0 \<le> uint a" "uint a < H * H" "0 \<le> uint b" "uint b < H * H"
    using uint_lt2p [of a] uint_lt2p [of b] H by simp_all
  moreover have "x div H < H" if "x < H * H" for x
  proof (rule ccontr)
    assume "\<not> x div H < H"
    then have "H * H \<le> H * (x div H)" using H(2) by (intro mult_left_mono) simp_all
    moreover have "H * (x div H) \<le> x" using mult_div_mod_eq [of H x] pos_mod_sign [OF H(2), of x] by linarith
    ultimately show False using that by linarith
  qed
  ultimately have r: "0 \<le> ah" "ah < H" "0 \<le> al" "al < H" "0 \<le> bh" "bh < H" "0 \<le> bl" "bl < H"
    using H(2) by (simp_all add: ad pos_imp_zdiv_nonneg_iff)
  have A: "uint a = ah * H + al" and B: "uint b = bh * H + bl"
    by (simp_all add: ad)
  have AB: "uint a * uint b = ah * bh * (H * H) + (al * bh + ah * bl) * H + al * bl"
    unfolding A B by (simp add: algebra_simps)
  have fits: "in_range uint64 x \<longleftrightarrow> 0 \<le> x \<and> x < H * H" for x
    by (auto simp: in_range_def lim_defs uint64_def H_def)
  have ex: "uint (v * w) = uint v * uint w" if "uint v < H" "uint w < H" for v w :: u64
    using that mult_strict_mono [of "uint v" H "uint w" H] H by (intro uint_mult_exact) simp
  note def = generic_checked_mul64_def [of a b, unfolded Let_def, folded wd]
  have z: "lh = 0 \<longleftrightarrow> ah = 0" "rh = 0 \<longleftrightarrow> bh = 0" using u by (auto simp: word_uint_eq_iff)
  have bot: "uint (ll * rl) = al * bl" "0 \<le> al * bl" "al * bl < H * H"
    using ex [of ll rl] r mult_strict_mono [of al H bl H] by (simp_all add: u)
  consider "ah = 0" "bh = 0" | "ah \<noteq> 0" "bh \<noteq> 0" | "(ah = 0) \<noteq> (bh = 0)" by blast
  then show ?thesis
  proof cases
    case 1
    then show ?thesis using bot by (simp add: def z AB checked_def fits)
  next
    case 2
    then have "1 * (H * H) \<le> ah * bh * (H * H)" using r H by (intro mult_right_mono) (auto simp: int_one_le_iff_zero_less)
    moreover have "0 \<le> (al * bh + ah * bl) * H" using r H by simp
    ultimately have "\<not> uint a * uint b < H * H" using bot(2) unfolding AB by linarith
    then show ?thesis using 2 by (simp add: def z checked_def fits)
  next
    case 3
    define m where "m = al * bh + ah * bl"
    have mid: "uint (ll * rh) = al * bh" "uint (lh * rl) = ah * bl" using ex r by (simp_all add: u)
    have m: "uint (ll * rh + lh * rl) = m" using 3 mid z by (cases "ah = 0") (auto simp: m_def)
    have AB: "uint a * uint b = al * bl + m * H" using 3 unfolding AB by (auto simp: m_def)
    have m0: "0 \<le> al * bh" "0 \<le> ah * bl" "al * bh = 0 \<or> ah * bl = 0" using 3 r by auto
    then have over: "drop_bit 32 (ll * rh) \<noteq> 0 \<or> drop_bit 32 (lh * rl) \<noteq> 0 \<or> drop_bit 32 (ll * rh + lh * rl) \<noteq> 0
      \<longleftrightarrow> \<not> m < H"
      using mid m by (auto simp: uint_halves(3) H_def m_def)
    show ?thesis
    proof (cases "m < H")
      case False
      then have "H * H \<le> m * H" using H(2) by (intro mult_right_mono) simp_all
      then have "\<not> uint a * uint b < H * H" using bot(2) unfolding AB by linarith
      with False over 3 show ?thesis by (auto simp: def z checked_def fits)
    next
      case True
      then have mH: "0 \<le> m * H" "m * H < H * H" using m0 H(2) by (simp_all add: m_def)
      have "uint (push_bit 32 (ll * rh + lh * rl)) = m * H"
        unfolding push_bit_eq_mult using mH m by (subst uint_mult_exact) (simp_all add: H_def)
      moreover have "generic_checked_add uint64 (al * bl) (m * H) = checked uint64 (al * bl + m * H)"
        using mH bot fits by (intro generic_checked_add_correct) (simp_all add: integral_def uint64_def)
      ultimately show ?thesis
        using True over 3 bot(1) by (auto simp: def z AB checked_def)
    qed
  qed
qed

lemma checked_mul_correct:
  assumes "integral t" and "\<not> is_signed t" and "in_range t a" and "in_range t b"
    and "platform = Builtin \<or> width t \<le> 64"
  shows "checked_mul platform t a b = checked t (a * b)"
proof -
  have gen: "generic_checked_mul t a b = checked t (a * b)" if "width t \<le> 64"
  proof (cases "width t < 64")
    case True
    with assms(1) have "width t \<le> 32" by (auto simp: integral_def)
    with assms True show ?thesis
      by (simp add: generic_checked_mul_def generic_checked_small_mul_correct integral_width)
  next
    case False
    with that have w: "width t = 64" by simp
    then have t: "t = uint64" using assms(2) by (cases t) (simp add: uint64_def)
    have "0 \<le> a" "a < 2 ^ 64" "0 \<le> b" "b < 2 ^ 64"
      using assms(3,4) by (simp_all add: t in_range_def lim_defs uint64_def)
    then show ?thesis
      using w by (simp add: generic_checked_mul_def t generic_checked_mul64_correct uint_word_of_int_eq
          take_bit_int_eq_self)
  qed
  have "a * b div 2 ^ 64 = 0 \<longleftrightarrow> in_range t (a * b)" if "width t = 64"
    using that assms(2-4) by (auto simp: in_range_def lim_defs zdiv_eq_0_iff)
  then show ?thesis
    using gen assms(5) builtin_checked [OF assms(1), of "a * b"]
    by (cases platform)
      (auto simp: checked_mul_def Let_def checked_def in_range_def lim_defs assms(2) cast_id not_less)
qed

lemma checked_bind:
  "do { (ok, tmp) \<leftarrow> checked t x; if \<not> ok then Some (False, 0) else f tmp } =
    (if in_range t x then f x else Some (False, 0))"
  by (simp add: checked_def)

text \<open>A failing partial sum of unsigned values means that the whole sum does not fit.\<close>

lemma unsigned_partial:
  assumes "\<not> is_signed t" and "0 \<le> x" and "0 \<le> y"
  shows "in_range t (x + y) \<Longrightarrow> in_range t x"
  using assms by (simp add: in_range_def unsigned_lim_min)

lemma sums_correct:
  assumes "integral t" and "\<not> is_signed t" and "in_range t a" and "in_range t b" and "in_range t c"
    and "in_range t d"
  shows "checked_add3 builtin t a b c = checked t (a + b + c)"
    "checked_add4 builtin t a b c d = checked t (a + b + c + d)"
proof -
  have p: "0 \<le> a" "0 \<le> b" "0 \<le> c" "0 \<le> d"
    using assms(2-6) by (simp_all add: in_range_def unsigned_lim_min)
  note partial = unsigned_partial [OF assms(2)]
  show "checked_add3 builtin t a b c = checked t (a + b + c)"
    unfolding checked_add3_def checked_add_correct [OF assms(1,3,4)] checked_bind
    using p partial [of "a + b" c] checked_add_correct [OF assms(1) _ assms(5)]
    by (auto simp: checked_def)
  show "checked_add4 builtin t a b c d = checked t (a + b + c + d)"
    unfolding checked_add4_def checked_add_correct [OF assms(1,3,4)] checked_bind
    using p partial [of "a + b" "c + d"] partial [of "a + b + c" d] checked_add_correct [OF assms(1) _ assms(5)]
      checked_add_correct [OF assms(1) _ assms(6)]
    by (auto simp: checked_def add.assoc)
qed

lemma muladd_correct:
  assumes "integral t" and "\<not> is_signed t" and "in_range t a" and "in_range t b" and "in_range t c"
    and "platform = Builtin \<or> width t \<le> 64"
  shows "checked_muladd builtin platform t a b c = checked t (a * b + c)"
proof -
  have "0 \<le> a" "0 \<le> b" "0 \<le> c"
    using assms(2-5) by (simp_all add: in_range_def unsigned_lim_min)
  then show ?thesis
    unfolding checked_muladd_def checked_mul_correct [OF assms(1-4,6)] checked_bind
    using unsigned_partial [OF assms(2), of "a * b" c] checked_add_correct [OF assms(1) _ assms(5)]
    by (auto simp: checked_def)
qed

section \<open>Quotients\<close>

lemma quotient_in_range:
  assumes "integral t" and "in_range t a" and "in_range t b" and "b \<noteq> 0"
    and "\<not> (is_signed t \<and> a = lim_min t \<and> b = - 1)"
  shows "in_range t (a sdiv b)" "in_range t (a smod b)"
  supply lim_min_le_0 [simp del] lim_max_ge_0 [simp del]
proof -
  have a: "lim_min t \<le> a" "a \<le> lim_max t" and b: "lim_min t \<le> b"
    using assms(2,3) by (simp_all add: in_range_def)
  have neg: "is_signed t" "lim_max t = - lim_min t - 1" if "x < 0" "lim_min t \<le> x" for x
    using that by (auto simp: lim_defs split: if_splits)
  define r where "r = \<bar>a\<bar> mod \<bar>b\<bar>"
  have r: "r \<le> \<bar>a\<bar>" "0 \<le> r" "a smod b = sgn a * r"
    using assms(4) by (simp_all add: r_def zmod_le_nonneg_dividend signed_modulo_int_def)
  then show "in_range t (a smod b)"
    using a lim_min_le_0 [of t] lim_max_ge_0 [of t]
    by (cases a "0 :: int" rule: linorder_cases) (simp_all add: in_range_def)
  define q where "q = \<bar>a\<bar> div \<bar>b\<bar>"
  have q: "0 \<le> q" "q \<le> \<bar>a\<bar>" "a sdiv b = sgn a * sgn b * q"
    using assms(4) zdiv_mono2 [of "\<bar>a\<bar>" 1 "\<bar>b\<bar>"]
    by (simp_all add: q_def pos_imp_zdiv_nonneg_iff signed_divide_int_def)
  have "q \<le> lim_max t" if "a < 0" "b < 0"
  proof (cases "a = lim_min t")
    case True
    with assms(5) that neg [OF that(1) a(1)] have "b \<le> - 2" by auto
    then have "q \<le> - a div 2" using that zdiv_mono2 [of "- a" 2 "- b"] by (simp add: q_def)
    also have "\<dots> < - a" using that by (intro int_div_less_self) simp_all
    finally show ?thesis using True neg [OF that(1) a(1)] by simp
  next
    case False
    then show ?thesis using q a neg [OF that(1) a(1)] that by simp
  qed
  then show "in_range t (a sdiv b)"
    using q a b assms(4) neg [OF _ b] lim_min_le_0 [of t] lim_max_ge_0 [of t]
    by (cases a "0 :: int" rule: linorder_cases; cases b "0 :: int" rule: linorder_cases)
      (auto simp: in_range_def)
qed

lemma quotients_correct:
  assumes "integral t" and "in_range t a" and "in_range t b"
    and "\<not> (is_signed t \<and> a = lim_min t \<and> b = - 1)"
  shows "checked_div t a b = Some (if b = 0 then (False, 0) else (True, a sdiv b))"
    "checked_mod t a b = Some (if b = 0 then (False, 0) else (True, a smod b))"
proof -
  have "in_range t (a sdiv b)" "in_range t (a smod b)" if "b \<noteq> 0"
    using quotient_in_range [OF assms(1-3) that assms(4)] .
  then show "checked_div t a b = Some (if b = 0 then (False, 0) else (True, a sdiv b))"
    "checked_mod t a b = Some (if b = 0 then (False, 0) else (True, a smod b))"
    using promote_props(1) [OF assms(1)]
    by (simp_all add: checked_div_def checked_mod_def arith_Some cast_id integral_width [OF assms(1)])
qed

section \<open>Properties\<close>

text \<open>
  C11. The checked operations are exact on every integer type, with and without the compiler's
  builtins: they succeed with the mathematical sum, product or product-sum exactly when the type has
  it, and otherwise store zero and fail, without undefined behaviour on the way; a quotient and a
  remainder are exact unless the divisor is zero, which is reported, or the most negative value is
  divided by -1, which is not.
\<close>

theorem checked_arithmetic_exact:
  assumes "integral t" and "in_range t a" and "in_range t b" and "in_range t c" and "in_range t d"
  shows "checked_add builtin t a b = checked t (a + b)
    \<and> (\<not> is_signed t \<longrightarrow>
        checked_add3 builtin t a b c = checked t (a + b + c)
      \<and> checked_add4 builtin t a b c d = checked t (a + b + c + d)
      \<and> (platform = Builtin \<or> width t \<le> 64 \<longrightarrow>
          checked_mul platform t a b = checked t (a * b)
        \<and> checked_muladd builtin platform t a b c = checked t (a * b + c)))
    \<and> (\<not> (is_signed t \<and> a = lim_min t \<and> b = - 1) \<longrightarrow>
        checked_div t a b = Some (if b = 0 then (False, 0) else (True, a sdiv b))
      \<and> checked_mod t a b = Some (if b = 0 then (False, 0) else (True, a smod b)))
    \<and> checked_div int32 (- (2 ^ 31)) (- 1) = None \<and> checked_div int8 (- 128) (- 1) = Some (True, - 128)"
proof (intro conjI impI)
  show "checked_div int32 (- (2 ^ 31)) (- 1) = None" "checked_div int8 (- 128) (- 1) = Some (True, - 128)"
    by (simp_all add: checked_div_def promote_def arith_def in_range_def lim_defs cast_def ctype_defs
        signed_divide_int_def)
qed (use assms checked_add_correct sums_correct checked_mul_correct muladd_correct quotients_correct in \<open>auto\<close>)

theorem checked_arithmetic_exact_witness:
  "checked_mul Generic uint64 (2 ^ 40) (2 ^ 23) = Some (True, 2 ^ 63)
    \<and> checked_mul Generic uint64 (2 ^ 40) (2 ^ 24) = Some (False, 0)
    \<and> checked_add False int8 100 27 = Some (True, 127) \<and> checked_add False int8 100 28 = Some (False, 0)"
  using checked_arithmetic_exact [of uint64 "2 ^ 40" "2 ^ 23" 0 0 False Generic]
    checked_arithmetic_exact [of uint64 "2 ^ 40" "2 ^ 24" 0 0 False Generic]
    checked_arithmetic_exact [of int8 100 27 0 0 False Generic]
    checked_arithmetic_exact [of int8 100 28 0 0 False Generic]
  by (simp add: integral_def in_range_def lim_defs ctype_defs checked_def)

end
