(* ===== verification/ConstexprMath.thy ===== *)
theory ConstexprMath
  imports CheckedMath
begin

text \<open>
  The integer part of \<open>folly/ConstexprMath.h\<close>: minimum, maximum and clamping, integer
  logarithms and powers, the positions of the first and last set bit, and the additions,
  subtractions and casts that clamp to the limits of the type instead of overflowing.
  The templates take the C++ type as a \<^typ>\<open>ctype\<close>. Each arithmetic operation of the source is
  an \<^const>\<open>arith\<close>, so that a result \<^term>\<open>Some x\<close> also says that no signed operation overflows
  on the way. The floating-point functions of the file are not modelled.
\<close>

section \<open>Definitions\<close>

fun constexpr_max :: "int \<Rightarrow> int list \<Rightarrow> int" where
  "constexpr_max a [] = a"
| "constexpr_max a (x # ts) = constexpr_max (if x < a then a else x) ts"

fun constexpr_min :: "int \<Rightarrow> int list \<Rightarrow> int" where
  "constexpr_min a [] = a"
| "constexpr_min a (x # ts) = constexpr_min (if x < a then x else a) ts"

definition constexpr_clamp :: "int \<Rightarrow> int \<Rightarrow> int \<Rightarrow> int" where
  "constexpr_clamp v lo hi = (let a = (if v < lo then lo else v);
                                  b = (if hi < a then hi else a) in b)"

text \<open>Called with 0 the recursion does not end.\<close>

partial_function (option) constexpr_log2_loop :: "nat \<Rightarrow> nat \<Rightarrow> nat option" where
  "constexpr_log2_loop a e = (if e = 1 then Some a else constexpr_log2_loop (a + 1) (e div 2))"

definition constexpr_log2 :: "nat \<Rightarrow> nat option" where
  "constexpr_log2 t = constexpr_log2_loop 0 t"

definition constexpr_log2_ceil :: "nat \<Rightarrow> nat option" where
  "constexpr_log2_ceil t = do {
     l2 \<leftarrow> constexpr_log2 t;
     Some (l2 + (if (2::nat) ^ l2 < t then 1 else 0)) }"

text \<open>Integral base, unsigned exponent.\<close>

fun constexpr_ipow :: "ctype \<Rightarrow> int \<Rightarrow> nat \<Rightarrow> int option" where
  "constexpr_ipow t base exp =
     (if exp = 0 then Some 1
      else if exp = 1 then Some base
      else let hexp = exp div 2 in do {
        d \<leftarrow> constexpr_ipow t base hexp;
        let r = (if hexp * 2 = exp then 1 else base);
        dd \<leftarrow> arith t (d * d);
        arith t (dd * r) })"

declare constexpr_ipow.simps [simp del]

definition constexpr_pow :: "ctype \<Rightarrow> int \<Rightarrow> nat \<Rightarrow> int option" where
  "constexpr_pow t base exp = constexpr_ipow t base exp"

definition constexpr_find_last_set :: "ctype \<Rightarrow> int \<Rightarrow> nat option" where
  "constexpr_find_last_set t x =
     (if x = 0 then Some 0
      else map_option Suc (constexpr_log2 (nat (cast (make_unsigned t) x))))"

fun constexpr_find_first_set_loop :: "nat \<Rightarrow> nat \<Rightarrow> nat \<Rightarrow> nat" where
  "constexpr_find_first_set_loop s a u =
     (if s = 0 then a
      else constexpr_find_first_set_loop (s div 2)
             (a + s * of_bool (drop_bit a u mod 2 ^ s = 0)) u)"

declare constexpr_find_first_set_loop.simps [simp del]

definition constexpr_find_first_set :: "ctype \<Rightarrow> int \<Rightarrow> nat" where
  "constexpr_find_first_set t x =
     (if x = 0 then 0
      else 1 + constexpr_find_first_set_loop (width t div 2) 0 (nat (cast (make_unsigned t) x)))"

text \<open>
  The flags of the addition say whether the compiler has the overflow builtin that \<open>checked_add\<close>
  uses, and whether the addition is evaluated at compile time.
\<close>

definition constexpr_add_overflow_clamped :: "bool \<Rightarrow> bool \<Rightarrow> ctype \<Rightarrow> int \<Rightarrow> int \<Rightarrow> int option" where
  "constexpr_add_overflow_clamped builtin constant_evaluated t a b =
     (if \<not> constant_evaluated then
        do { (ok, ret) \<leftarrow> checked_add builtin t a b;
             if \<not> ok then
               (if is_signed t \<and> a < 0 \<and> b < 0 then Some (lim_min t) else Some (lim_max t))
             else Some ret }
      else if width t < width int64 then
        do { s \<leftarrow> arith int64 (cast int64 a + cast int64 b);
             Some (cast t (constexpr_clamp s (cast int64 (lim_min t)) (cast int64 (lim_max t)))) }
      else if \<not> a < 0 then
        do { m \<leftarrow> arith t (lim_max t - a); arith t (a + constexpr_min b [m]) }
      else if \<not> b < 0 then arith t (a + b)
      else do { m \<leftarrow> arith t (lim_min t - a); arith t (a + constexpr_max b [m]) })"

definition constexpr_sub_overflow_clamped :: "bool \<Rightarrow> bool \<Rightarrow> ctype \<Rightarrow> int \<Rightarrow> int \<Rightarrow> int option" where
  "constexpr_sub_overflow_clamped builtin constant_evaluated t a b =
     (if \<not> is_signed t then (if a < b then Some 0 else arith t (a - b))
      else if width t < width int64 then
        do { d \<leftarrow> arith int64 (cast int64 a - cast int64 b);
             Some (cast t (constexpr_clamp d (cast int64 (lim_min t)) (cast int64 (lim_max t)))) }
      else if (a < 0) = (b < 0) then arith t (a - b)
      else if lim_min t < b then
        do { nb \<leftarrow> arith t (- b); constexpr_add_overflow_clamped builtin constant_evaluated t a nb }
      else if a < 0 then arith t (a - b)
      else Some (lim_max t))"

text \<open>The integral overload: \<open>dst\<close> from a value of type \<open>src\<close>.\<close>

definition constexpr_clamp_cast :: "ctype \<Rightarrow> ctype \<Rightarrow> int \<Rightarrow> int" where
  "constexpr_clamp_cast dst src x =
     (if is_signed src = is_signed dst then
        (if width src \<le> width dst then cast dst x
         else cast dst (constexpr_clamp x (cast src (lim_min dst)) (cast src (lim_max dst))))
      else if is_signed src \<and> \<not> is_signed dst then
        (if x < 0 then 0
         else if width src \<le> width dst then cast dst x
         else cast dst (constexpr_min x [cast src (lim_max dst)]))
      else
        (if width src < width dst then cast dst x
         else cast dst (constexpr_min x [cast src (lim_max dst)])))"

section \<open>Clamping\<close>

definition clamp_to :: "ctype \<Rightarrow> int \<Rightarrow> int" where
  "clamp_to t x = max (lim_min t) (min (lim_max t) x)"

lemma clamp_to_in_range [simp]: "in_range t (clamp_to t x)"
  using order_trans [OF lim_min_le_0 lim_max_ge_0, of t t] by (simp add: clamp_to_def in_range_def)

lemma clamp_to_id: "in_range t x \<Longrightarrow> clamp_to t x = x"
  by (simp add: clamp_to_def in_range_def)

lemma constexpr_clamp_eq: "lo \<le> hi \<Longrightarrow> constexpr_clamp v lo hi = max lo (min hi v)"
  by (simp add: constexpr_clamp_def)

lemma constexpr_min_1 [simp]: "constexpr_min a [x] = min a x"
  by (simp add: min_def)

lemma constexpr_max_1 [simp]: "constexpr_max a [x] = max a x"
  by (simp add: max_def)

declare constexpr_min.simps [simp del] constexpr_max.simps [simp del]


lemma narrow_cases:
  assumes "integral t" and "width t < width int64"
  shows "width t = 8 \<or> width t = 16 \<or> width t = 32"
  using assms by (auto simp: integral_def int64_def)

lemma narrow_bounds:
  assumes "integral t" and "width t < width int64" and "in_range t x"
  shows "- (2 ^ 32) < x \<and> x < 2 ^ 32"
  using narrow_cases [OF assms(1,2)] assms(3)
  by (auto simp: in_range_def lim_defs split: if_splits)

lemma int64_bounds: "in_range int64 x \<longleftrightarrow> - (2 ^ 63) \<le> x \<and> x < 2 ^ 63"
  by (auto simp: in_range_def lim_defs int64_def)

lemma narrow_arith:
  assumes "integral t" and "width t < width int64" and "in_range t a" and "in_range t b"
  shows "cast int64 a = a" "cast int64 (lim_min t) = lim_min t" "cast int64 (lim_max t) = lim_max t"
    "arith int64 (a + b) = Some (a + b)" "arith int64 (a - b) = Some (a - b)"
proof -
  note bounds = narrow_bounds [OF assms(1,2)]
  have "in_range int64 x" if "in_range t x" for x
    using bounds [OF that] by (simp add: int64_bounds)
  then show "cast int64 a = a" "cast int64 (lim_min t) = lim_min t" "cast int64 (lim_max t) = lim_max t"
    using assms(3) by (simp_all add: cast_id int64_def)
  show "arith int64 (a + b) = Some (a + b)" "arith int64 (a - b) = Some (a - b)"
    using bounds [OF assms(3)] bounds [OF assms(4)] by (simp_all add: arith_Some int64_bounds)
qed

lemma narrow_clamp:
  assumes "integral t" and "width t < width int64"
  shows "cast t (constexpr_clamp x (lim_min t) (lim_max t)) = clamp_to t x"
proof -
  have "lim_min t \<le> lim_max t"
    by (rule order_trans [OF lim_min_le_0 lim_max_ge_0])
  then show ?thesis
    using clamp_to_in_range [of t x] integral_width [OF assms(1)]
    by (simp add: constexpr_clamp_eq cast_id clamp_to_def)
qed

lemma signed_if_negative: "lim_min t < 0 \<Longrightarrow> is_signed t" "is_signed t \<Longrightarrow> lim_max t = - lim_min t - 1"
  by (auto simp: lim_defs split: if_splits)

lemma add_overflow_clamped_correct:
  assumes "integral t" and "width t \<le> 64" and "in_range t a" and "in_range t b"
  shows "constexpr_add_overflow_clamped builtin ce t a b = Some (clamp_to t (a + b))"
proof -
  have a: "lim_min t \<le> a" "a \<le> lim_max t" and b: "lim_min t \<le> b" "b \<le> lim_max t"
    using assms(3,4) by (simp_all add: in_range_def)
  have sgn: "is_signed t" if "a < 0" using that a(1) signed_if_negative(1) by simp
  consider "\<not> ce" | "ce" "width t < width int64" | "ce" "\<not> width t < width int64" by blast
  then show ?thesis
  proof cases
    case 1
    then show ?thesis
      using a b sgn lim_min_le_0 [of t] lim_max_ge_0 [of t]
      by (auto simp: constexpr_add_overflow_clamped_def checked_add_correct [OF assms(1,3,4)] checked_def
          clamp_to_def in_range_def)
  next
    case 2
    then show ?thesis
      using narrow_arith [OF assms(1) 2(2)] assms(3,4)
      by (simp add: constexpr_add_overflow_clamped_def narrow_clamp [OF assms(1) 2(2)])
  next
    case 3
    show ?thesis
    proof (cases "a < 0")
      case True
      with sgn have "lim_max t = - lim_min t - 1" by (simp add: signed_if_negative(2))
      with True 3 a b show ?thesis
        by (auto simp: constexpr_add_overflow_clamped_def arith_def in_range_def clamp_to_def min_def max_def)
    next
      case False
      have "lim_min t \<le> lim_max t - a" "lim_min t \<le> a + min b (lim_max t - a)"
        using False a b by (auto intro: order_trans [OF lim_min_le_0])
      then have "arith t (lim_max t - a) = Some (lim_max t - a)"
        "arith t (a + min b (lim_max t - a)) = Some (a + min b (lim_max t - a))"
        using False a by (simp_all add: arith_Some in_range_def)
      moreover have "clamp_to t (a + b) = a + min b (lim_max t - a)"
        using \<open>lim_min t \<le> a + min b (lim_max t - a)\<close> by (auto simp: clamp_to_def min_def)
      ultimately show ?thesis
        using False 3 by (simp add: constexpr_add_overflow_clamped_def)
    qed
  qed
qed

lemma sub_overflow_clamped_correct:
  assumes "integral t" and "width t \<le> 64" and "in_range t a" and "in_range t b"
  shows "constexpr_sub_overflow_clamped builtin ce t a b = Some (clamp_to t (a - b))"
proof -
  have a: "lim_min t \<le> a" "a \<le> lim_max t" and b: "lim_min t \<le> b" "b \<le> lim_max t"
    using assms(3,4) by (simp_all add: in_range_def)
  consider "\<not> is_signed t" | "is_signed t" "width t < width int64"
    | "is_signed t" "\<not> width t < width int64" by blast
  then show ?thesis
  proof cases
    case 1
    then show ?thesis
      using a b by (auto simp: constexpr_sub_overflow_clamped_def arith_def in_range_def clamp_to_def lim_defs)
  next
    case 2
    show ?thesis
      using narrow_arith [OF assms(1) 2(2)] assms(3,4)
      by (simp add: constexpr_sub_overflow_clamped_def 2 narrow_clamp [OF assms(1) 2(2)])
  next
    case 3
    have span: "lim_max t = - lim_min t - 1"
      using 3(1) by (simp add: lim_defs)
    have neg: "in_range t (- b)" if "lim_min t < b"
      using that b span by (simp add: in_range_def)
    show ?thesis
      using a b 3 span neg add_overflow_clamped_correct [OF assms(1,2,3) neg, of builtin ce]
      by (auto simp: constexpr_sub_overflow_clamped_def arith_def in_range_def clamp_to_def)
  qed
qed

lemma clamp_cast_correct:
  assumes "integral dst" and "integral src" and "in_range src x"
  shows "constexpr_clamp_cast dst src x = clamp_to dst x"
proof -
  note c = cast_in_range_id [OF assms(1)] cast_in_range_id [OF assms(2)]
  have x: "lim_min src \<le> x" "x \<le> lim_max src"
    using assms(3) by (simp_all add: in_range_def)
  have ll: "lim_min dst \<le> lim_max dst" "lim_min src \<le> lim_max dst" "lim_min dst \<le> lim_max src"
    by (auto intro: order_trans [OF lim_min_le_0])
  consider "is_signed src = is_signed dst" | "is_signed src" "\<not> is_signed dst"
    | "\<not> is_signed src" "is_signed dst" by blast
  then show ?thesis
  proof cases
    case 1
    show ?thesis
    proof (cases "width src \<le> width dst")
      case True
      then have "lim_max src \<le> lim_max dst"
        using 1 by (intro lim_max_mono) auto
      with True 1 lim_min_mono [of src dst] x show ?thesis
        by (auto simp: constexpr_clamp_cast_def clamp_to_def c)
    next
      case False
      then have "lim_max dst \<le> lim_max src"
        using 1 by (intro lim_max_mono) auto
      then have "cast src (lim_min dst) = lim_min dst" "cast src (lim_max dst) = lim_max dst"
        using False 1 lim_min_mono [of dst src] ll by (simp_all add: c)
      with 1 False ll show ?thesis
        by (simp add: constexpr_clamp_cast_def constexpr_clamp_eq clamp_to_def c)
    qed
  next
    case 2
    then have min0: "lim_min dst = 0" by (simp add: unsigned_lim_min)
    show ?thesis
    proof (cases "width src \<le> width dst")
      case True
      then have "lim_max src \<le> lim_max dst"
        using 2 by (intro lim_max_mono) auto
      with True 2 x min0 lim_max_ge_0 [of dst] show ?thesis
        by (auto simp: constexpr_clamp_cast_def clamp_to_def c)
    next
      case False
      then have "lim_max dst \<le> lim_max src"
        using 2 by (intro lim_max_mono) auto
      then have "cast src (lim_max dst) = lim_max dst"
        using ll by (simp add: c)
      with 2 False min0 show ?thesis
        by (auto simp: constexpr_clamp_cast_def clamp_to_def c min_def)
    qed
  next
    case 3
    then have x0: "0 \<le> x" using x(1) by (simp add: unsigned_lim_min)
    then have "lim_min dst \<le> x" by (rule order_trans [OF lim_min_le_0])
    show ?thesis
    proof (cases "width src < width dst")
      case True
      then have "lim_max src \<le> lim_max dst"
        using 3 by (intro lim_max_mono) auto
      with True 3 x \<open>lim_min dst \<le> x\<close> show ?thesis
        by (auto simp: constexpr_clamp_cast_def clamp_to_def c)
    next
      case False
      then have "lim_max dst \<le> lim_max src"
        using 3 by (intro lim_max_mono) auto
      then have "cast src (lim_max dst) = lim_max dst"
        using ll by (simp add: c)
      with 3 False \<open>lim_min dst \<le> x\<close> ll show ?thesis
        by (auto simp: constexpr_clamp_cast_def clamp_to_def c min_def)
    qed
  qed
qed

section \<open>Logarithms, powers and bit positions\<close>

lemma constexpr_log2_loop_correct:
  "0 < e \<Longrightarrow> constexpr_log2_loop a e = Some (a + bit_length e - 1)"
proof (induction e arbitrary: a rule: less_induct)
  case (less e)
  have bl1: "bit_length 1 = 1" by (simp add: bit_length.simps)
  show ?case
  proof (cases "e = 1")
    case True
    then show ?thesis by (subst constexpr_log2_loop.simps) (simp add: bl1 [simplified])
  next
    case False
    with less.prems have e: "0 < e div 2" "e div 2 < e" by auto
    have "bit_length e = Suc (bit_length (e div 2))"
      using less.prems by (subst bit_length.simps) simp
    with False less.IH [OF e(2,1), of "a + 1"] show ?thesis
      by (subst constexpr_log2_loop.simps) simp
  qed
qed

lemma constexpr_log2_correct: "0 < n \<Longrightarrow> constexpr_log2 n = Some (bit_length n - 1)"
  by (simp add: constexpr_log2_def constexpr_log2_loop_correct)

lemma bit_length_bounds:
  assumes "0 < n"
  shows "2 ^ (bit_length n - 1) \<le> n" "n < 2 ^ bit_length n" "0 < bit_length n"
proof -
  show pos: "0 < bit_length n" using assms by (subst bit_length.simps) simp
  then have "\<not> bit_length n \<le> bit_length n - 1" by simp
  then show "2 ^ (bit_length n - 1) \<le> n" by (simp add: bit_length_le_iff)
  show "n < 2 ^ bit_length n" using bit_length_le_iff [of n "bit_length n"] by simp
qed

lemma constexpr_ipow_correct:
  assumes "\<not> is_signed t" and "0 < width t" and "in_range t base"
  shows "constexpr_ipow t base exp = Some (base ^ exp mod 2 ^ width t)"
proof (induction exp rule: less_induct)
  case (less exp)
  have small: "1 mod 2 ^ width t = (1::int)" "base mod 2 ^ width t = base"
    using assms by (auto simp: in_range_def lim_defs)
  show ?case
  proof (cases "exp \<le> 1")
    case True
    then consider "exp = 0" | "exp = 1" by linarith
    then show ?thesis
      using small by cases (simp_all add: constexpr_ipow.simps)
  next
    case False
    then have "exp div 2 < exp" by simp
    note IH = less.IH [OF this]
    have "exp = exp div 2 + exp div 2 + exp mod 2" by presburger
    then have pow: "base ^ exp = base ^ (exp div 2) * base ^ (exp div 2) * base ^ (exp mod 2)"
      by (metis power_add)
    have "base ^ (exp mod 2) = (if exp div 2 * 2 = exp then 1 else base)"
      by (cases "even exp") (auto elim!: oddE)
    moreover have "d mod m * (d mod m) * r mod m = d * d * r mod m" for d r m :: int
      by (metis mod_mult_left_eq mod_mult_eq)
    ultimately show ?thesis
      using False IH pow
      by (subst constexpr_ipow.simps)
        (simp add: Let_def arith_unsigned [OF assms(1,2)] mod_simps)
  qed
qed


lemma find_first_set_loop_correct:
  assumes "s = 0 \<or> (\<exists>j. s = 2 ^ j)" and "bit u p" and "\<forall>i < p. \<not> bit u i"
    and "a \<le> p" and "p < a + (if s = 0 then 1 else 2 * s)"
  shows "constexpr_find_first_set_loop s a u = p"
  using assms
proof (induction s a u rule: constexpr_find_first_set_loop.induct)
  case (1 s a u)
  show ?case
  proof (cases "s = 0")
    case True
    with 1(5,6) show ?thesis by (simp add: constexpr_find_first_set_loop.simps)
  next
    case False
    with 1(2) obtain j where j: "s = 2 ^ j" by blast
    have "drop_bit a u mod 2 ^ s = 0 \<longleftrightarrow> (\<forall>i < s. \<not> bit u (a + i))"
      by (auto simp: take_bit_eq_mod [symmetric] bit_eq_iff bit_take_bit_iff bit_drop_bit_eq)
    also have "\<dots> \<longleftrightarrow> a + s \<le> p"
    proof
      assume *: "\<forall>i < s. \<not> bit u (a + i)"
      show "a + s \<le> p"
        using * [rule_format, of "p - a"] 1(3,5) by (cases "p - a < s") auto
    qed (use 1(4) in auto)
    finally have cond: "drop_bit a u mod 2 ^ s = 0 \<longleftrightarrow> a + s \<le> p" .
    have half: "s div 2 = 0 \<or> (\<exists>j. s div 2 = 2 ^ j)" "(if s div 2 = 0 then 1 else 2 * (s div 2)) = s"
      unfolding j by (cases j; auto)+
    have "constexpr_find_first_set_loop (s div 2) (a + s * of_bool (drop_bit a u mod 2 ^ s = 0)) u = p"
      by (rule 1(1)) (use False half(1) 1(3-6) cond in \<open>auto simp: half(2)\<close>)
    with False show ?thesis
      by (subst constexpr_find_first_set_loop.simps) simp
  qed
qed

lemma integral_half: "integral t \<Longrightarrow> \<exists>j. width t div 2 = 2 ^ j"
proof -
  assume "integral t"
  then consider "width t = 8" | "width t = 16" | "width t = 32" | "width t = 64" | "width t = 128"
    by (auto simp: integral_def)
  then show ?thesis
  proof cases
    case 1 then show ?thesis by (intro exI [of _ 2]) simp
  next
    case 2 then show ?thesis by (intro exI [of _ 3]) simp
  next
    case 3 then show ?thesis by (intro exI [of _ 4]) simp
  next
    case 4 then show ?thesis by (intro exI [of _ 5]) simp
  next
    case 5 then show ?thesis by (intro exI [of _ 6]) simp
  qed
qed

lemma lowest_bit_exists:
  fixes u :: nat
  assumes "0 < u"
  shows "\<exists>p. bit u p \<and> (\<forall>i < p. \<not> bit u i)"
proof -
  have "\<exists>p. bit u p"
    using assms by (metis bit_0_eq bit_eqI bot_apply bot_bool_def less_numeral_extra(3))
  then show ?thesis
    by (intro exI [of _ "LEAST p. bit u p"]) (auto intro: LeastI dest: not_less_Least)
qed

section \<open>Properties\<close>

text \<open>
  C25. For every integral type of at most 64 bits and operands of that type,
  \<open>constexpr_add_overflow_clamped\<close> (compile-time and run-time path) and
  \<open>constexpr_sub_overflow_clamped\<close> perform no overflowing signed operation and return the exact
  sum and difference clamped to the limits of the type; \<open>constexpr_clamp_cast\<close> between any two
  integral types returns the argument clamped to the limits of the destination. Every result
  is a value of its type.
\<close>
theorem clamped_arithmetic:
  assumes "integral t" and "width t \<le> 64" and "in_range t a" and "in_range t b" and "integral dst"
  shows "constexpr_add_overflow_clamped builtin ce t a b = Some (clamp_to t (a + b))
    \<and> constexpr_sub_overflow_clamped builtin ce t a b = Some (clamp_to t (a - b))
    \<and> constexpr_clamp_cast dst t a = clamp_to dst a
    \<and> in_range t (clamp_to t (a + b)) \<and> in_range t (clamp_to t (a - b))
    \<and> in_range dst (clamp_to dst a)"
  using add_overflow_clamped_correct sub_overflow_clamped_correct clamp_cast_correct assms by simp

theorem clamped_arithmetic_witness:
  "constexpr_add_overflow_clamped True True int64 (2 ^ 63 - 1) 5 = Some (2 ^ 63 - 1)
   \<and> constexpr_sub_overflow_clamped False False int64 (- (2 ^ 63)) 5 = Some (- (2 ^ 63))
   \<and> constexpr_clamp_cast uint8 int64 (- (2 ^ 63)) = 0"
  using clamped_arithmetic [of int64 "2 ^ 63 - 1" 5 uint8 True True]
    clamped_arithmetic [of int64 "- (2 ^ 63)" 5 uint8 False False]
  by (simp add: integral_def in_range_def lim_defs clamp_to_def ctype_defs)

text \<open>
  C26. For a nonzero value of an integral type, \<open>constexpr_find_last_set\<close> ends and returns the
  1-based position of the highest set bit of its unsigned reading, and
  \<open>constexpr_find_first_set\<close> returns the 1-based position of the lowest set bit.
\<close>
theorem find_set_positions:
  assumes "integral t" and "in_range t x" and "x \<noteq> 0"
    and "u = nat (cast (make_unsigned t) x)"
  shows "(\<exists>n. constexpr_find_last_set t x = Some n \<and> 2 ^ (n - 1) \<le> u \<and> u < 2 ^ n \<and> n \<le> width t)
    \<and> (\<exists>p. constexpr_find_first_set t x = p + 1 \<and> bit u p \<and> (\<forall>i < p. \<not> bit u i))"
proof -
  have w: "0 < width t" using assms(1) by (rule integral_width)
  have range: "in_range (make_unsigned t) (cast (make_unsigned t) x)"
    using cast_in_range [of "make_unsigned t"] w by simp
  then have bound: "u < 2 ^ width t"
    by (simp add: assms(4) in_range_def lim_defs nat_less_iff)
  have "(2::int) ^ width t = 2 * 2 ^ (width t - 1)"
    using w by (cases "width t") simp_all
  then have "\<bar>x\<bar> < 2 ^ width t"
    using assms(2) by (auto simp: in_range_def lim_defs split: if_splits)
  then have "\<not> 2 ^ width t dvd x"
    using assms(3) dvd_imp_le_int [of x "2 ^ width t"] by auto
  then have "cast (make_unsigned t) x \<noteq> 0"
    by (simp add: cast_def lim_min_def mod_eq_0_iff_dvd)
  with range have pos: "0 < u"
    by (simp add: assms(4) in_range_def lim_defs)
  have last: "constexpr_find_last_set t x = Some (bit_length u)"
    using assms(3) bit_length_bounds(3) [OF pos] constexpr_log2_correct [OF pos]
    by (simp add: constexpr_find_last_set_def assms(4))
  have "bit_length u \<le> width t" using bound by (simp add: bit_length_le_iff)
  moreover obtain p where p: "bit u p" "\<forall>i < p. \<not> bit u i"
    using lowest_bit_exists [OF pos] by blast
  have "u \<ge> 2 ^ p" using p(1) by (metis bit_nat_iff bit_iff_odd div_less even_zero linorder_not_less)
  with bound have "p < width t"
    by (metis le_less_trans nat_power_less_imp_less zero_less_numeral)
  then have "constexpr_find_first_set_loop (width t div 2) 0 u = p"
    using assms(1) integral_half p
    by (intro find_first_set_loop_correct) (auto simp: integral_def)
  then have "constexpr_find_first_set t x = p + 1"
    using assms(3) by (simp add: constexpr_find_first_set_def assms(4))
  ultimately show ?thesis
    using last p bit_length_bounds [OF pos] by blast
qed

theorem find_set_positions_witness:
  "\<exists>p. constexpr_find_first_set int32 (- 24) = p + 1 \<and> bit (nat (2 ^ 32 - 24)) p"
  using find_set_positions [of int32 "- 24" "nat (2 ^ 32 - 24)"]
  by (auto simp: integral_def in_range_def lim_defs cast_def make_unsigned_def ctype_defs)

end
