(* ===== verification/ToAscii.thy ===== *)
theory ToAscii
  imports ConstexprMath
begin

text \<open>
  Printing of unsigned integers in a base between 2 and 36: \<open>folly/lang/ToAscii.h\<close> and the
  128-bit printing of \<open>folly/Conv.h\<close>. The output buffer is the list of bytes from the output
  pointer on; a store outside it, and a read outside a lookup table, is \<^term>\<open>None\<close>. A
  \<open>uint64_t\<close> is a \<^typ>\<open>nat\<close> below \<open>2 ^ 64\<close>; the one multiplication that can wrap is written with
  its modulus. The target is little-endian. \<open>kIsArchAmd64\<close> and \<open>kIsMobile\<close> are arguments.
\<close>

section \<open>Alphabets and tables\<close>

definition to_ascii_alphabet :: "bool \<Rightarrow> u8 \<Rightarrow> u8" where
  "to_ascii_alphabet Upper b = (if b < 10 then 48 + b else (if Upper then 65 else 97) + (b - 10))"

definition to_ascii_array :: "nat \<Rightarrow> bool \<Rightarrow> u8 list" where
  "to_ascii_array Base Upper = map (\<lambda>i. to_ascii_alphabet Upper (of_nat i)) [0..<Base]"

definition to_ascii_array_at :: "nat \<Rightarrow> bool \<Rightarrow> u8 \<Rightarrow> u8 option" where
  "to_ascii_array_at Base Upper index =
     (if unat index < Base then Some (to_ascii_array Base Upper ! unat index) else None)"

definition to_ascii_table :: "nat \<Rightarrow> bool \<Rightarrow> u16 list" where
  "to_ascii_table Base Upper = map (\<lambda>i.
     ucast (to_ascii_alphabet Upper (of_nat (i div Base)))
     OR push_bit 8 (ucast (to_ascii_alphabet Upper (of_nat (i mod Base))))) [0..<Base * Base]"

definition to_ascii_table_at :: "nat \<Rightarrow> bool \<Rightarrow> nat \<Rightarrow> u16 option" where
  "to_ascii_table_at Base Upper i =
     (if i < Base * Base then Some (to_ascii_table Base Upper ! i) else None)"

text \<open>The recursion ends for every base from 2 on; no other base is instantiated.\<close>

fun to_ascii_powers_size :: "nat \<Rightarrow> nat \<Rightarrow> nat" where
  "to_ascii_powers_size Base v =
     1 + (if v < Base \<or> Base < 2 then 0 else to_ascii_powers_size Base (v div Base))"

declare to_ascii_powers_size.simps [simp del]

text \<open>The table for \<open>uint64_t\<close>, whose largest value is \<open>~uint64_t(0)\<close>.\<close>

definition powers_size :: "nat \<Rightarrow> nat" where
  "powers_size Base = to_ascii_powers_size Base (2 ^ 64 - 1)"

definition to_ascii_powers :: "nat \<Rightarrow> nat list" where
  "to_ascii_powers Base =
     map (\<lambda>i. nat (the (constexpr_pow uint64 (int Base) i))) [0..<powers_size Base]"

section \<open>The number of digits\<close>

function to_ascii_size_imuls_loop :: "nat \<Rightarrow> nat \<Rightarrow> nat \<Rightarrow> nat \<Rightarrow> nat" where
  "to_ascii_size_imuls_loop Base v i p =
     (if i < powers_size Base then
        (if v < p then i + of_bool (i = 0)
         else to_ascii_size_imuls_loop Base v (i + 1) (p * Base mod 2 ^ 64))
      else powers_size Base)"
  by pat_completeness auto
termination
  by (relation "measure (\<lambda>(Base, v, i, p). powers_size Base - i)") auto

declare to_ascii_size_imuls_loop.simps [simp del]

definition to_ascii_size_imuls :: "nat \<Rightarrow> nat \<Rightarrow> nat" where
  "to_ascii_size_imuls Base v = to_ascii_size_imuls_loop Base v 0 1"

fun to_ascii_size_idivs_loop :: "nat \<Rightarrow> nat \<Rightarrow> nat \<Rightarrow> nat" where
  "to_ascii_size_idivs_loop Base i v =
     (if v \<ge> Base \<and> 2 \<le> Base then to_ascii_size_idivs_loop Base (i + 1) (v div Base) else i)"

declare to_ascii_size_idivs_loop.simps [simp del]

definition to_ascii_size_idivs :: "nat \<Rightarrow> nat \<Rightarrow> nat" where
  "to_ascii_size_idivs Base v = to_ascii_size_idivs_loop Base 1 v"

fun to_ascii_size_array_loop :: "nat list \<Rightarrow> nat \<Rightarrow> nat \<Rightarrow> nat" where
  "to_ascii_size_array_loop [] i v = i"
| "to_ascii_size_array_loop (p # ps) i v =
     (if v < p then i + of_bool (i = 0) else to_ascii_size_array_loop ps (i + 1) v)"

definition to_ascii_size_array :: "nat \<Rightarrow> nat \<Rightarrow> nat" where
  "to_ascii_size_array Base v = to_ascii_size_array_loop (to_ascii_powers Base) 0 v"

text \<open>
  The constant \<open>size_t(blog2r * 256)\<close> with \<open>blog2r = 8. / double(blog2m)\<close> is the integer part of
  \<open>2048 / blog2m\<close>: scaling by 256 is exact, and the rounding of the quotient of two small
  integers does not reach the next integer.
\<close>

definition to_ascii_size_clzll :: "nat \<Rightarrow> nat \<Rightarrow> nat option" where
  "to_ascii_size_clzll Base v =
     (if v = 0 then Some 1
      else let vlog2 = 64 - builtin_clzll (of_nat v) in
        if Base AND (Base - 1) = 0 then do {
          blog2 \<leftarrow> constexpr_log2 Base;
          Some (vlog2 div blog2 + of_bool (vlog2 mod blog2 \<noteq> 0)) }
        else do {
          b8 \<leftarrow> constexpr_pow uint64 (int Base) 8;
          blog2m \<leftarrow> constexpr_log2 (nat b8);
          let vlogb = vlog2 * (2048 div blog2m) div 256;
          Some (vlogb + of_bool (vlogb < powers_size Base \<and> v \<ge> to_ascii_powers Base ! vlogb)) })"

definition to_ascii_size_route :: "bool \<Rightarrow> nat \<Rightarrow> nat \<Rightarrow> nat option" where
  "to_ascii_size_route kIsArchAmd64 Base v =
     (if kIsArchAmd64 \<and> Base AND (Base - 1) = 0 then to_ascii_size_clzll Base v
      else Some (to_ascii_size_array Base v))"

section \<open>The digits\<close>

text \<open>\<open>out[i] = x\<close> and \<open>memcpy(out + i, &val, 2)\<close>\<close>

definition store :: "u8 list \<Rightarrow> nat \<Rightarrow> u8 \<Rightarrow> u8 list option" where
  "store out i x = (if i < length out then Some (out[i := x]) else None)"

definition store16 :: "u8 list \<Rightarrow> nat \<Rightarrow> u16 \<Rightarrow> u8 list option" where
  "store16 out i val = do { out \<leftarrow> store out i (ucast val); store out (i + 1) (ucast (drop_bit 8 val)) }"

primrec to_ascii_with_basic_loop ::
  "nat \<Rightarrow> (u8 \<Rightarrow> u8 option) \<Rightarrow> u8 list \<Rightarrow> nat \<Rightarrow> nat \<Rightarrow> u8 list option" where
  "to_ascii_with_basic_loop Base xlate out 0 v = do { c \<leftarrow> xlate (of_nat v); store out 0 c }"
| "to_ascii_with_basic_loop Base xlate out (Suc pos) v =
     (let q = v div Base; r = v mod Base in do {
        c \<leftarrow> xlate (of_nat r);
        out \<leftarrow> store out (Suc pos) c;
        to_ascii_with_basic_loop Base xlate out pos q })"

definition to_ascii_with_basic ::
  "nat \<Rightarrow> (u8 \<Rightarrow> u8 option) \<Rightarrow> u8 list \<Rightarrow> nat \<Rightarrow> nat \<Rightarrow> u8 list option" where
  "to_ascii_with_basic Base xlate out sz v =
     to_ascii_with_basic_loop Base xlate out ((sz + (2 ^ 64 - 1)) mod 2 ^ 64) v"

definition to_ascii_with_array :: "nat \<Rightarrow> bool \<Rightarrow> u8 list \<Rightarrow> nat \<Rightarrow> nat \<Rightarrow> u8 list option" where
  "to_ascii_with_array Base Upper out sz v =
     to_ascii_with_basic Base (to_ascii_array_at Base Upper) out sz v"

fun to_ascii_with_table :: "nat \<Rightarrow> bool \<Rightarrow> u8 list \<Rightarrow> nat \<Rightarrow> nat \<Rightarrow> u8 list option" where
  "to_ascii_with_table Base Upper out pos v =
     (if pos > 2 then
        let q = v div (Base * Base); r = v mod (Base * Base) in do {
          val \<leftarrow> to_ascii_table_at Base Upper r;
          out \<leftarrow> store16 out (pos - 2) val;
          to_ascii_with_table Base Upper out (pos - 2) q }
      else do {
        val \<leftarrow> to_ascii_table_at Base Upper v;
        if pos = 2 then store16 out 0 val
        else store out 0 (ucast (drop_bit 8 val)) })"

declare to_ascii_with_table.simps [simp del]

text \<open>The overloads of \<open>to_ascii_with_route\<close>: known size, bounded buffer, array of \<open>N\<close> bytes.\<close>

definition to_ascii_with_route :: "bool \<Rightarrow> nat \<Rightarrow> bool \<Rightarrow> u8 list \<Rightarrow> nat \<Rightarrow> nat \<Rightarrow> u8 list option" where
  "to_ascii_with_route kIsMobile Base Upper out sz v =
     (if kIsMobile then to_ascii_with_array Base Upper out sz v
      else to_ascii_with_table Base Upper out sz v)"

definition to_ascii_with ::
  "bool \<Rightarrow> bool \<Rightarrow> nat \<Rightarrow> bool \<Rightarrow> u8 list \<Rightarrow> nat \<Rightarrow> nat \<Rightarrow> (nat \<times> u8 list) option" where
  "to_ascii_with amd64 kIsMobile Base Upper out room v = do {
     sz \<leftarrow> to_ascii_size_route amd64 Base v;
     if room < sz then Some (0, out)
     else do { out \<leftarrow> to_ascii_with_route kIsMobile Base Upper out sz v; Some (sz, out) } }"

definition to_ascii_with_arr :: "bool \<Rightarrow> nat \<Rightarrow> bool \<Rightarrow> u8 list \<Rightarrow> nat \<Rightarrow> (nat \<times> u8 list) option" where
  "to_ascii_with_arr amd64 Base Upper out v = do {
     sz \<leftarrow> to_ascii_size_route amd64 Base v;
     out \<leftarrow> to_ascii_with_table Base Upper out sz v;
     Some (sz, out) }"

definition to_ascii_size_decimal :: "bool \<Rightarrow> nat \<Rightarrow> nat option" where
  "to_ascii_size_decimal amd64 v = to_ascii_size_route amd64 10 v"

definition to_ascii_decimal :: "bool \<Rightarrow> u8 list \<Rightarrow> nat \<Rightarrow> (nat \<times> u8 list) option" where
  "to_ascii_decimal amd64 out v = to_ascii_with_arr amd64 10 False out v"

section \<open>128-bit values\<close>

text \<open>\<open>append\<close>: 19 digits at \<open>outb + p\<close>.\<close>

definition kBase :: nat where "kBase = 10000000000000000000"
definition kBaseDigits :: nat where "kBaseDigits = 19"

definition append128 :: "bool \<Rightarrow> nat \<Rightarrow> nat \<times> u8 list \<Rightarrow> (nat \<times> u8 list) option" where
  "append128 kIsMobile v s = (case s of (p, out) \<Rightarrow> do {
     r \<leftarrow> to_ascii_with_route kIsMobile 10 False (drop p out) kBaseDigits v;
     Some (p + kBaseDigits, take p out @ r) })"

definition unsafeTelescope128 :: "bool \<Rightarrow> bool \<Rightarrow> u8 list \<Rightarrow> nat \<Rightarrow> (nat \<times> u8 list) option" where
  "unsafeTelescope128 amd64 kIsMobile out x =
     (let leading = (\<lambda>v. to_ascii_with amd64 kIsMobile 10 False out (length out) v) in
      if x div 2 ^ 64 > 0 then
        let rem = x mod kBase; x = x div kBase in
        if x div 2 ^ 64 > 0 then
          let rem2 = x mod kBase; x = x div kBase in do {
            s \<leftarrow> leading x;
            s \<leftarrow> append128 kIsMobile rem2 s;
            append128 kIsMobile rem s }
        else do { s \<leftarrow> leading x; append128 kIsMobile rem s }
      else leading x)"


section \<open>Lemmas on the number of digits\<close>

text \<open>\<open>n\<close> is the number of digits of \<open>v\<close>.\<close>

definition is_size :: "nat \<Rightarrow> nat \<Rightarrow> nat \<Rightarrow> bool" where
  "is_size Base v n \<longleftrightarrow> 0 < n \<and> v < Base ^ n \<and> (n = 1 \<or> Base ^ (n - 1) \<le> v)"

lemma is_size_le:
  assumes "2 \<le> Base" and "is_size Base v n" and "w < Base ^ m" and "v \<le> w" and "0 < m"
  shows "n \<le> m"
proof (rule ccontr)
  assume "\<not> n \<le> m"
  then have "n \<noteq> 1" "m \<le> n - 1" using assms(5) by auto
  then have "Base ^ m \<le> Base ^ (n - 1)" using assms(1) by (intro power_increasing) auto
  also have "\<dots> \<le> v" using assms(2) \<open>n \<noteq> 1\<close> by (simp add: is_size_def)
  finally show False using assms(3,4) by simp
qed

lemma is_size_unique:
  "2 \<le> Base \<Longrightarrow> is_size Base v n \<Longrightarrow> is_size Base v m \<Longrightarrow> n = m"
  using is_size_le [of Base v n v m] is_size_le [of Base v m v n] by (simp add: is_size_def)

lemma is_size_step:
  assumes "Base \<le> v" and "2 \<le> Base" and "is_size Base (v div Base) m"
  shows "is_size Base v (Suc m)"
proof -
  have "v div Base < Base ^ m" and m: "0 < m" using assms(3) by (simp_all add: is_size_def)
  then have "v < Base ^ Suc m"
    using assms(2) by (simp add: div_less_iff_less_mult mult.commute)
  moreover have "Base ^ m \<le> v"
  proof (cases "m = 1")
    case False
    with assms(3) have "Base ^ (m - 1) \<le> v div Base" by (simp add: is_size_def)
    then have "Base ^ (m - 1) * Base \<le> v"
      using assms(2) by (simp add: less_eq_div_iff_mult_less_eq)
    with m show ?thesis by (cases m) (simp_all add: mult.commute)
  qed (use assms(1) in simp)
  ultimately show ?thesis by (simp add: is_size_def)
qed

lemma to_ascii_powers_size_correct: "2 \<le> Base \<Longrightarrow> is_size Base v (to_ascii_powers_size Base v)"
proof (induction v rule: less_induct)
  case (less v)
  show ?case
  proof (cases "v < Base")
    case True
    then show ?thesis by (subst to_ascii_powers_size.simps) (simp add: is_size_def)
  next
    case False
    then have "v div Base < v" using less.prems by (intro div_less_dividend) auto
    from less.IH [OF this less.prems] False less.prems show ?thesis
      by (subst to_ascii_powers_size.simps) (simp add: is_size_step)
  qed
qed

lemma powers_size_bounds:
  assumes "2 \<le> Base"
  shows "0 < powers_size Base" "v < 2 ^ 64 \<Longrightarrow> v < Base ^ powers_size Base"
    "i < powers_size Base \<Longrightarrow> Base ^ i < 2 ^ 64"
proof -
  have s: "is_size Base (2 ^ 64 - 1) (powers_size Base)"
    using to_ascii_powers_size_correct [OF assms] by (simp add: powers_size_def)
  then show pos: "0 < powers_size Base" by (simp add: is_size_def)
  show "v < Base ^ powers_size Base" if "v < 2 ^ 64" using s that by (simp add: is_size_def)
  show "Base ^ i < 2 ^ 64" if "i < powers_size Base"
  proof (cases "powers_size Base = 1")
    case False
    with s have "Base ^ (powers_size Base - 1) \<le> 2 ^ 64 - 1" by (simp add: is_size_def)
    moreover have "Base ^ i \<le> Base ^ (powers_size Base - 1)"
      using that assms by (intro power_increasing) auto
    ultimately have "Base ^ i \<le> 2 ^ 64 - 1" by (rule order_trans [rotated])
    then show ?thesis by simp
  qed (use that in simp)
qed

lemma to_ascii_size_idivs_loop_correct:
  "2 \<le> Base \<Longrightarrow> Suc (to_ascii_size_idivs_loop Base i v) = i + to_ascii_powers_size Base v"
proof (induction v arbitrary: i rule: less_induct)
  case (less v)
  show ?case
  proof (cases "v < Base")
    case True
    then show ?thesis
      by (simp add: to_ascii_size_idivs_loop.simps [of Base i v] to_ascii_powers_size.simps [of Base v])
  next
    case False
    then have "v div Base < v" using less.prems by (intro div_less_dividend) auto
    from less.IH [OF this less.prems, of "i + 1"] False less.prems show ?thesis
      by (simp add: to_ascii_size_idivs_loop.simps [of Base i v] to_ascii_powers_size.simps [of Base v])
  qed
qed

lemma to_ascii_size_idivs_correct: "2 \<le> Base \<Longrightarrow> is_size Base v (to_ascii_size_idivs Base v)"
  using to_ascii_size_idivs_loop_correct [of Base 1 v] to_ascii_powers_size_correct [of Base v]
  by (simp add: to_ascii_size_idivs_def)

lemma to_ascii_powers_eq:
  assumes "2 \<le> Base" and "Base \<le> 36"
  shows "to_ascii_powers Base = map (\<lambda>i. Base ^ i) [0..<powers_size Base]"
proof -
  have "constexpr_pow uint64 (int Base) i = Some (int (Base ^ i))" if "i < powers_size Base" for i
  proof -
    have "int (Base ^ i) < int (2 ^ 64)" using powers_size_bounds(3) [OF assms(1) that] by (simp only: of_nat_less_iff)
    then have "int Base ^ i mod 2 ^ 64 = int Base ^ i" by simp
    then show ?thesis
      using constexpr_ipow_correct [of uint64 "int Base" i] assms(2)
      by (simp add: constexpr_pow_def uint64_def in_range_def lim_defs)
  qed
  then show ?thesis by (simp add: to_ascii_powers_def nat_power_eq)
qed

text \<open>Both loops scan the powers upwards; the scan stops at the first power above the value.\<close>

lemma scan_step:
  assumes "k = 0 \<or> Base ^ (k - 1) \<le> v" and "v < Base ^ k" and "2 \<le> Base"
  shows "is_size Base v (k + of_bool (k = 0))"
  using assms by (cases "k = 0") (auto simp: is_size_def)

lemma to_ascii_size_array_loop_correct:
  assumes "2 \<le> Base" and "v < Base ^ n" and "0 < n" and "k \<le> n" and "k = 0 \<or> Base ^ (k - 1) \<le> v"
  shows "is_size Base v (to_ascii_size_array_loop (map (\<lambda>i. Base ^ i) [k..<n]) k v)"
  using assms(4,5)
proof (induction "n - k" arbitrary: k)
  case 0
  then have "k = n" by simp
  with 0 assms(2,3) show ?case by (auto simp: is_size_def)
next
  case (Suc d)
  then have "k < n" by simp
  with Suc scan_step [OF Suc.prems(2) _ assms(1)] show ?case
    by (auto simp: upt_conv_Cons)
qed

lemma to_ascii_size_array_correct:
  assumes "2 \<le> Base" and "Base \<le> 36" and "v < 2 ^ 64"
  shows "is_size Base v (to_ascii_size_array Base v)"
  unfolding to_ascii_size_array_def to_ascii_powers_eq [OF assms(1,2)]
  using assms powers_size_bounds [OF assms(1)]
  by (intro to_ascii_size_array_loop_correct) auto

lemma to_ascii_size_imuls_loop_correct:
  assumes "2 \<le> Base" and "v < 2 ^ 64" and "k \<le> powers_size Base" and "k = 0 \<or> Base ^ (k - 1) \<le> v"
    and "k < powers_size Base \<longrightarrow> p = Base ^ k"
  shows "is_size Base v (to_ascii_size_imuls_loop Base v k p)"
  using assms(3-5)
proof (induction "powers_size Base - k" arbitrary: k p)
  case 0
  then have "k = powers_size Base" by simp
  with 0 powers_size_bounds [OF assms(1)] assms(2) show ?case
    by (subst to_ascii_size_imuls_loop.simps) (auto simp: is_size_def)
next
  case (Suc d)
  then have k: "k < powers_size Base" and p: "p = Base ^ k" by auto
  have "is_size Base v (to_ascii_size_imuls_loop Base v (k + 1) (p * Base mod 2 ^ 64))" if "\<not> v < p"
  proof (rule Suc.hyps(1))
    show "k + 1 < powers_size Base \<longrightarrow> p * Base mod 2 ^ 64 = Base ^ (k + 1)"
      using powers_size_bounds(3) [OF assms(1), of "k + 1"] p by (auto simp: mult.commute)
  qed (use Suc.hyps(2) k p that in auto)
  with k p scan_step [OF Suc.prems(2) _ assms(1)] show ?case
    by (subst to_ascii_size_imuls_loop.simps) auto
qed


lemma to_ascii_size_imuls_correct:
  "2 \<le> Base \<Longrightarrow> v < 2 ^ 64 \<Longrightarrow> is_size Base v (to_ascii_size_imuls Base v)"
  using powers_size_bounds [of Base]
  by (auto simp: to_ascii_size_imuls_def intro: to_ascii_size_imuls_loop_correct)

lemma clzll_bit_length: "v < 2 ^ 64 \<Longrightarrow> 64 - builtin_clzll (of_nat v) = bit_length v"
  by (simp add: clz_bit_length unsigned_of_nat take_bit_nat_eq_self)

lemma and_pred_eq_0:
  fixes n :: nat
  assumes "0 < n" and "n AND (n - 1) = 0"
  shows "\<exists>j. n = 2 ^ j"
  using assms
proof (induction n rule: less_induct)
  case (less n)
  have rec: "n AND (n - 1) = of_bool (odd n \<and> odd (n - 1)) + 2 * ((n div 2) AND ((n - 1) div 2))"
    by (rule and_rec)
  show ?case
  proof (cases "even n")
    case True
    then obtain m where m: "n = 2 * m" by (elim evenE)
    with less.prems(1) have "0 < m" "(n - 1) div 2 = m - 1" by auto
    with rec less.prems(2) m less.IH [of m] obtain j where "m = 2 ^ j" by auto
    with m show ?thesis by (intro exI [of _ "Suc j"]) simp
  next
    case False
    then obtain m where m: "n = 2 * m + 1" by (elim oddE)
    with rec less.prems(2) have "m = 0" by simp
    with m show ?thesis by (intro exI [of _ 0]) simp
  qed
qed

lemma power_of_two_cases:
  assumes "2 \<le> Base" and "Base AND (Base - 1) = 0"
  shows "\<exists>j. 0 < j \<and> Base = 2 ^ j \<and> bit_length Base = Suc j"
proof -
  obtain j where j: "Base = 2 ^ j" using and_pred_eq_0 [of Base] assms by auto
  with assms(1) have "0 < j" by (cases j) auto
  moreover have "bit_length (2 ^ j) = Suc j"
    using bit_length_le_iff [of "2 ^ j" j] bit_length_le_iff [of "2 ^ j" "Suc j"] by auto
  ultimately show ?thesis using j by blast
qed

lemma ceil_div_size:
  assumes "0 < j" and "0 < v"
  shows "is_size (2 ^ j) v (bit_length v div j + of_bool (bit_length v mod j \<noteq> 0))"
proof -
  define L where "L = bit_length v"
  define c where "c = L div j + of_bool (L mod j \<noteq> 0)"
  note b = bit_length_bounds [OF assms(2), folded L_def]
  have L: "L = j * (L div j) + L mod j" "L mod j < j" using assms(1) by simp_all
  have c: "L \<le> j * c \<and> j * (c - 1) \<le> L - 1 \<and> 0 < c"
  proof (cases "L mod j = 0")
    case True
    with L b(3) obtain d where "L div j = Suc d" by (cases "L div j") auto
    with True L(1) assms(1) show ?thesis by (simp add: c_def)
  next
    case False
    then have "j * (L div j) \<le> L - 1" using L(1) by linarith
    moreover have "L \<le> j + j * (L div j)" using L by linarith
    ultimately show ?thesis using False by (simp add: c_def)
  qed
  have "v < 2 ^ (j * c)"
    by (rule less_le_trans [OF b(2)]) (use c in \<open>auto intro: power_increasing\<close>)
  moreover have "2 ^ (j * (c - 1)) \<le> v"
    by (rule order_trans [OF _ b(1)]) (use c in \<open>auto intro: power_increasing\<close>)
  ultimately have "is_size (2 ^ j) v c"
    using c by (simp add: is_size_def power_mult [symmetric])
  then show ?thesis by (simp only: L_def c_def)
qed

lemma clzll_power_of_two:
  assumes "2 \<le> Base" and "Base \<le> 36" and "Base AND (Base - 1) = 0" and "v < 2 ^ 64"
  shows "\<exists>n. to_ascii_size_clzll Base v = Some n \<and> is_size Base v n"
proof (cases "v = 0")
  case True
  with assms(1) show ?thesis by (simp add: to_ascii_size_clzll_def is_size_def)
next
  case False
  obtain j where j: "0 < j" "Base = 2 ^ j" "bit_length Base = Suc j"
    using power_of_two_cases [OF assms(1,3)] by blast
  then have "constexpr_log2 Base = Some j"
    using constexpr_log2_correct [of Base] assms(1) by simp
  with False assms j ceil_div_size [of j v] show ?thesis
    by (simp add: to_ascii_size_clzll_def clzll_bit_length Let_def)
qed

text \<open>For base 10 the approximation of the logarithm is good enough for every bit length.\<close>

lemma decimal_log_approximation:
  assumes "L \<in> {1..64}" and "k = L * 78 div 256"
  shows "k < 20 \<and> (2::nat) ^ L \<le> 10 ^ (k + 1) \<and> (0 < k \<longrightarrow> (10::nat) ^ (k - 1) \<le> 2 ^ (L - 1))"
proof (cases "L = 1")
  case True
  with assms(2) show ?thesis by simp
next
  case False
  have "list_all (\<lambda>L. let k = L * 78 div 256 in
      k < 20 \<and> (2::nat) ^ L \<le> 10 ^ (k + 1) \<and> (0 < k \<longrightarrow> (10::nat) ^ (k - 1) \<le> 2 ^ (L - 1))) [2..<65]"
    by (simp add: Let_def)
  moreover have "L \<in> set [2..<65]" using assms(1) False by (simp del: upt_rec_numeral)
  ultimately show ?thesis using assms(2) by (auto simp: list_all_iff Let_def simp del: upt_rec_numeral)
qed

lemma powers_size_10: "powers_size 10 = 20"
proof -
  have "is_size 10 (2 ^ 64 - 1) 20" by (simp add: is_size_def)
  then show ?thesis
    using is_size_unique [of 10 "2 ^ 64 - 1" "powers_size 10" 20] to_ascii_powers_size_correct [of 10 "2 ^ 64 - 1"]
    by (simp add: powers_size_def)
qed

lemma clzll_decimal:
  assumes "v < 2 ^ 64"
  shows "\<exists>n. to_ascii_size_clzll 10 v = Some n \<and> is_size 10 v n"
proof (cases "v = 0")
  case True
  then show ?thesis by (simp add: to_ascii_size_clzll_def is_size_def)
next
  case False
  define L where "L = bit_length v"
  define k where "k = L * 78 div 256"
  have b: "2 ^ (L - 1) \<le> v" "v < 2 ^ L" "0 < L"
    using bit_length_bounds [of v] False by (simp_all add: L_def)
  have "L \<le> 64" using assms by (simp add: L_def bit_length_le_iff)
  with b(3) have k: "k < 20" "(2::nat) ^ L \<le> 10 ^ (k + 1)" "0 < k \<longrightarrow> (10::nat) ^ (k - 1) \<le> 2 ^ (L - 1)"
    using decimal_log_approximation [of L k] by (simp_all add: k_def)
  have "bit_length 100000000 = 27" by (simp add: bit_length.simps)
  then have "constexpr_log2 100000000 = Some 26"
    by (simp add: constexpr_log2_correct)
  moreover have "constexpr_pow uint64 10 8 = Some 100000000"
    using constexpr_ipow_correct [of uint64 10 8]
    by (simp add: constexpr_pow_def uint64_def in_range_def lim_defs)
  moreover have "(10::nat) AND (10 - 1) \<noteq> 0" by simp
  moreover have "to_ascii_powers 10 ! k = 10 ^ k"
    using to_ascii_powers_eq [of 10] k(1) by (simp add: powers_size_10)
  ultimately have eq: "to_ascii_size_clzll 10 v = Some (k + of_bool (10 ^ k \<le> v))"
    using False assms k(1) k_def [folded L_def]
    by (simp add: to_ascii_size_clzll_def clzll_bit_length Let_def L_def [symmetric] powers_size_10)
  have "is_size 10 v (k + of_bool (10 ^ k \<le> v))"
  proof (cases "10 ^ k \<le> v")
    case True
    with b(2) k(2) show ?thesis by (auto simp: is_size_def)
  next
    case small: False
    then have "0 < k" using False by (cases k) auto
    with small b(1) k(3) show ?thesis by (auto simp: is_size_def)
  qed
  with eq show ?thesis by blast
qed

lemma to_ascii_size_route_correct:
  assumes "2 \<le> Base" and "Base \<le> 36" and "v < 2 ^ 64"
  shows "\<exists>n. to_ascii_size_route amd64 Base v = Some n \<and> is_size Base v n"
  using assms clzll_power_of_two [of Base v] to_ascii_size_array_correct [of Base v]
  by (simp add: to_ascii_size_route_def)


section \<open>Lemmas on the digits\<close>

text \<open>The last \<open>n\<close> digits of a number, most significant first, and the value of a digit list.\<close>

primrec pdigits :: "nat \<Rightarrow> nat \<Rightarrow> nat \<Rightarrow> nat list" where
  "pdigits Base 0 v = []"
| "pdigits Base (Suc n) v = pdigits Base n (v div Base) @ [v mod Base]"

definition digits_value :: "nat \<Rightarrow> nat list \<Rightarrow> nat" where
  "digits_value Base ds = foldl (\<lambda>a d. a * Base + d) 0 ds"

definition digit_char :: "bool \<Rightarrow> nat \<Rightarrow> u8" where
  "digit_char Upper d = to_ascii_alphabet Upper (of_nat d)"

lemma length_pdigits [simp]: "length (pdigits Base n v) = n"
  by (induction n arbitrary: v) simp_all

lemma pdigits_less: "0 < Base \<Longrightarrow> d \<in> set (pdigits Base n v) \<Longrightarrow> d < Base"
  by (induction n arbitrary: v) auto

lemma digits_value_snoc [simp]: "digits_value Base (ds @ [d]) = digits_value Base ds * Base + d"
  by (simp add: digits_value_def)

lemma digits_value_Nil [simp]: "digits_value Base [] = 0"
  by (simp add: digits_value_def)

lemma digits_value_pdigits: "v < Base ^ n \<Longrightarrow> digits_value Base (pdigits Base n v) = v"
proof (induction n arbitrary: v)
  case (Suc n)
  then have "v div Base < Base ^ n" by (simp add: less_mult_imp_div_less mult.commute)
  with Suc.IH show ?case by simp
qed simp

lemma digits_value_append:
  "digits_value Base (xs @ ys) = digits_value Base xs * Base ^ length ys + digits_value Base ys"
  by (induction ys rule: rev_induct) (simp_all add: append_assoc [symmetric] algebra_simps del: append_assoc)

lemma pdigits_digits_value:
  "\<forall>d \<in> set ds. d < Base \<Longrightarrow> pdigits Base (length ds) (digits_value Base ds) = ds"
  by (induction ds rule: rev_induct) simp_all

lemma digits_value_less: "\<forall>d \<in> set ds. d < Base \<Longrightarrow> digits_value Base ds < Base ^ length ds"
proof (induction ds rule: rev_induct)
  case (snoc d ds)
  then have "digits_value Base ds + 1 \<le> Base ^ length ds" "d + 1 \<le> Base" by auto
  then have "(digits_value Base ds + 1) * Base \<le> Base ^ length ds * Base" by (intro mult_right_mono) auto
  with \<open>d + 1 \<le> Base\<close> show ?case by (simp add: algebra_simps)
qed simp

lemma to_ascii_array_at_digit:
  assumes "d < Base" and "Base \<le> 36"
  shows "to_ascii_array_at Base Upper (of_nat d) = Some (digit_char Upper d)"
proof -
  have "unat (of_nat d :: u8) = d"
    using assms by (simp add: unsigned_of_nat take_bit_nat_eq_self)
  with assms show ?thesis by (simp add: to_ascii_array_at_def to_ascii_array_def digit_char_def)
qed

lemma to_ascii_table_at_digits:
  assumes "i < Base * Base"
  shows "\<exists>val. to_ascii_table_at Base Upper i = Some val
    \<and> ucast val = digit_char Upper (i div Base) \<and> ucast (drop_bit 8 val) = digit_char Upper (i mod Base)"
proof -
  have "ucast (ucast a OR push_bit 8 (ucast b) :: u16) = a"
    "ucast (drop_bit 8 (ucast a OR push_bit 8 (ucast b) :: u16)) = b" for a b :: u8
    by (rule bit_word_eqI, auto simp: bit_simps dest: bit_imp_le_length)+
  with assms show ?thesis
    by (simp add: to_ascii_table_at_def to_ascii_table_def digit_char_def)
qed

lemma basic_loop_writes:
  assumes "\<forall>d < Base. xlate (of_nat d) = Some (digit_char Upper d)" and "v < Base ^ Suc pos"
    and "Suc pos \<le> length out"
  shows "to_ascii_with_basic_loop Base xlate out pos v
    = Some (map (digit_char Upper) (pdigits Base (Suc pos) v) @ drop (Suc pos) out)"
  using assms(2,3)
proof (induction pos arbitrary: out v)
  case 0
  with assms(1) show ?case by (cases out) (simp_all add: store_def)
next
  case (Suc pos)
  define c where "c = digit_char Upper (v mod Base)"
  have base: "0 < Base" using Suc.prems(1) by (cases Base) auto
  have "v div Base < Base ^ Suc pos"
    using Suc.prems(1) by (simp add: less_mult_imp_div_less mult.commute)
  moreover have "drop (Suc pos) (out[Suc pos := c]) = c # drop (Suc (Suc pos)) out"
    using Suc.prems(2) by (simp add: drop_update_swap Cons_nth_drop_Suc [symmetric])
  ultimately show ?case
    using Suc.IH [of "v div Base" "out[Suc pos := c]"] Suc.prems(2) assms(1) base
    by (simp add: Let_def store_def c_def)
qed

lemma store16_writes:
  assumes "i + 2 \<le> length out"
  shows "store16 out i val = Some (take i out @ [ucast val, ucast (drop_bit 8 val)] @ drop (i + 2) out)"
proof -
  have "drop i out = out ! i # out ! Suc i # drop (i + 2) out"
    using assms by (simp add: Cons_nth_drop_Suc)
  then have out: "out = take i out @ out ! i # out ! Suc i # drop (i + 2) out"
    by (metis append_take_drop_id)
  have "length (take i out) = i" using assms by simp
  then have "store (take i out @ a # b # ys) i x = Some (take i out @ x # b # ys)"
    "store (take i out @ a # b # ys) (i + 1) x = Some (take i out @ a # x # ys)" for a b x ys
    by (simp_all add: store_def list_update_append)
  then show ?thesis
    unfolding store16_def by (subst out) (simp del: One_nat_def)
qed


lemma mod_square:
  fixes v :: nat
  assumes "0 < b"
  shows "v mod (b * b) div b = v div b mod b" "v mod (b * b) mod b = v mod b"
  using assms by (simp_all add: mod_mult2_eq)

lemma table_writes:
  assumes "0 < Base" and "0 < pos" and "v < Base ^ pos" and "pos \<le> length out"
  shows "to_ascii_with_table Base Upper out pos v
    = Some (map (digit_char Upper) (pdigits Base pos v) @ drop pos out)"
  using assms(2-4)
proof (induction pos arbitrary: out v rule: less_induct)
  case (less pos)
  consider "pos = 1" | "pos = 2" | n where "pos = Suc (Suc n)" "0 < n"
  proof -
    have "pos = 1 \<or> pos = 2 \<or> pos = Suc (Suc (pos - 2)) \<and> 0 < pos - 2"
      using less.prems(1) by arith
    then show ?thesis using that by blast
  qed
  then show ?case
  proof cases
    case 1
    then have "v < Base * Base" using less.prems(2) assms(1) by (simp add: less_le_trans)
    from to_ascii_table_at_digits [OF this, of Upper] 1 less.prems(3) show ?thesis
      by (cases out) (auto simp: to_ascii_with_table.simps store_def)
  next
    case 2
    then have v: "v < Base * Base" using less.prems(2) by (simp add: power2_eq_square)
    then have "v div Base < Base" by (simp add: less_mult_imp_div_less)
    with to_ascii_table_at_digits [OF v, of Upper] 2 less.prems(3) store16_writes [of 0 out]
    show ?thesis
      by (auto simp: to_ascii_with_table.simps numeral_2_eq_2)
  next
    case 3
    define r where "r = v mod (Base * Base)"
    have "r < Base * Base" using assms(1) by (simp add: r_def)
    then obtain val where val: "to_ascii_table_at Base Upper r = Some val"
      "ucast val = digit_char Upper (r div Base)" "ucast (drop_bit 8 val) = digit_char Upper (r mod Base)"
      using to_ascii_table_at_digits by blast
    define out' where "out' = take n out @ [ucast val, ucast (drop_bit 8 val)] @ drop pos out"
    have len: "length out' = length out" "drop n out' = [ucast val, ucast (drop_bit 8 val)] @ drop pos out"
      using less.prems(3) 3(1) by (simp_all add: out'_def)
    have "v < Base * Base * Base ^ n" using less.prems(2) 3(1) by (simp add: ac_simps)
    then have "v div (Base * Base) < Base ^ n" by (simp add: less_mult_imp_div_less mult.commute)
    then have IH: "to_ascii_with_table Base Upper out' n (v div (Base * Base))
      = Some (map (digit_char Upper) (pdigits Base n (v div (Base * Base))) @ drop n out')"
      using less.IH [of n _ out'] 3 len less.prems(3) by simp
    have "store16 out n val = Some out'"
      using store16_writes [of n out val] less.prems(3) 3(1) by (simp add: out'_def)
    with IH val(1) 3 have "to_ascii_with_table Base Upper out pos v
      = Some (map (digit_char Upper) (pdigits Base n (v div (Base * Base))) @ drop n out')"
      by (subst to_ascii_with_table.simps) (simp add: Let_def r_def [symmetric])
    then show ?thesis
      using 3(1) val(2,3) len(2) mod_square [OF assms(1), of v]
      by (simp add: r_def div_mult2_eq)
  qed
qed

lemma to_ascii_with_route_writes:
  assumes "0 < Base" and "Base \<le> 36" and "0 < n" and "v < Base ^ n" and "n \<le> length out" and "n \<le> 2 ^ 64"
  shows "to_ascii_with_route kIsMobile Base Upper out n v
    = Some (map (digit_char Upper) (pdigits Base n v) @ drop n out)"
proof -
  obtain m where m: "n = Suc m" using assms(3) by (cases n) auto
  have "to_ascii_with_array Base Upper out n v
    = Some (map (digit_char Upper) (pdigits Base n v) @ drop n out)"
    using basic_loop_writes [of Base "to_ascii_array_at Base Upper" Upper v m out]
      to_ascii_array_at_digit [OF _ assms(2)] assms m
    by (simp add: to_ascii_with_array_def to_ascii_with_basic_def)
  moreover note table_writes [OF assms(1,3,4,5), of Upper]
  ultimately show ?thesis by (simp add: to_ascii_with_route_def)
qed

text \<open>The digits a value is printed with.\<close>

definition numeral_string :: "nat \<Rightarrow> bool \<Rightarrow> nat \<Rightarrow> u8 list" where
  "numeral_string Base Upper v = map (digit_char Upper) (pdigits Base (to_ascii_powers_size Base v) v)"

lemma is_size_numeral:
  assumes "2 \<le> Base" and "is_size Base v n"
  shows "length (numeral_string Base Upper v) = n"
    "map (digit_char Upper) (pdigits Base n v) = numeral_string Base Upper v"
  using is_size_unique [OF assms(1,2) to_ascii_powers_size_correct [OF assms(1)]]
  by (simp_all add: numeral_string_def)

lemma size_route_numeral:
  assumes "2 \<le> Base" and "Base \<le> 36" and "v < 2 ^ 64"
  shows "to_ascii_size_route amd64 Base v = Some (length (numeral_string Base Upper v))"
proof -
  obtain n where "to_ascii_size_route amd64 Base v = Some n" "is_size Base v n"
    using to_ascii_size_route_correct [OF assms] by blast
  then show ?thesis using is_size_numeral(1) [OF assms(1)] by simp
qed

lemma numeral_fits:
  assumes "2 \<le> Base" and "v < 2 ^ 64"
  shows "0 < length (numeral_string Base Upper v)"
    "length (numeral_string Base Upper v) \<le> powers_size Base" "powers_size Base \<le> 64"
proof -
  have s: "is_size Base v (length (numeral_string Base Upper v))"
    using to_ascii_powers_size_correct [OF assms(1)] by (simp add: numeral_string_def)
  then show "0 < length (numeral_string Base Upper v)" by (simp add: is_size_def)
  show "length (numeral_string Base Upper v) \<le> powers_size Base"
    using is_size_le [OF assms(1) s] powers_size_bounds [OF assms(1)] assms(2) by blast
  have "2 ^ 64 - 1 < Base ^ 64"
    using power_mono [of 2 Base 64] assms(1) by simp
  moreover have "is_size Base (2 ^ 64 - 1) (powers_size Base)"
    using to_ascii_powers_size_correct [OF assms(1)] by (simp add: powers_size_def)
  ultimately show "powers_size Base \<le> 64"
    using is_size_le [OF assms(1), of "2 ^ 64 - 1" "powers_size Base" "2 ^ 64 - 1" 64] by simp
qed

lemma route_writes_numeral:
  assumes "2 \<le> Base" and "Base \<le> 36" and "v < 2 ^ 64" and "length (numeral_string Base Upper v) \<le> length out"
  shows "to_ascii_with_route kIsMobile Base Upper out (length (numeral_string Base Upper v)) v
    = Some (numeral_string Base Upper v @ drop (length (numeral_string Base Upper v)) out)"
    "to_ascii_with_table Base Upper out (length (numeral_string Base Upper v)) v
    = Some (numeral_string Base Upper v @ drop (length (numeral_string Base Upper v)) out)"
proof -
  define n where "n = length (numeral_string Base Upper v)"
  have s: "is_size Base v n"
    using to_ascii_powers_size_correct [OF assms(1)] by (simp add: n_def numeral_string_def)
  have "n \<le> 64" "0 < n"
    using numeral_fits(1,2) [OF assms(1,3), of Upper] numeral_fits(3) [OF assms(1,3)]
    by (simp_all add: n_def)
  then show "to_ascii_with_route kIsMobile Base Upper out (length (numeral_string Base Upper v)) v
    = Some (numeral_string Base Upper v @ drop (length (numeral_string Base Upper v)) out)"
    "to_ascii_with_table Base Upper out (length (numeral_string Base Upper v)) v
    = Some (numeral_string Base Upper v @ drop (length (numeral_string Base Upper v)) out)"
    using to_ascii_with_route_writes [of Base n v out kIsMobile Upper] table_writes [of Base n v out Upper]
      s assms is_size_numeral(2) [OF assms(1) s, of Upper]
    by (simp_all add: is_size_def n_def [symmetric])
qed

lemma numeral_string_value:
  assumes "2 \<le> Base"
  shows "\<exists>ds. numeral_string Base Upper v = map (digit_char Upper) ds \<and> digits_value Base ds = v
    \<and> (\<forall>d \<in> set ds. d < Base) \<and> ds \<noteq> [] \<and> (hd ds = 0 \<longrightarrow> v = 0 \<and> ds = [0])"
proof -
  define n where "n = to_ascii_powers_size Base v"
  have s: "is_size Base v n" using to_ascii_powers_size_correct [OF assms] by (simp add: n_def)
  then obtain m where m: "n = Suc m" by (cases n) (auto simp: is_size_def)
  define ds where "ds = pdigits Base n v"
  have "digits_value Base ds = v"
    using s unfolding ds_def is_size_def by (intro digits_value_pdigits) simp
  moreover have "\<forall>d \<in> set ds. d < Base"
    using assms pdigits_less [of Base _ n v] by (simp add: ds_def)
  moreover have "length ds = Suc m" by (simp add: ds_def m)
  ultimately have ds: "digits_value Base ds = v" "\<forall>d \<in> set ds. d < Base" "length ds = Suc m" by blast+
  have "v = 0 \<and> ds = [0]" if hd0: "hd ds = 0"
  proof -
    obtain es where es: "ds = 0 # es" using ds(3) hd0 by (cases ds) auto
    then have v: "digits_value Base es = v"
      using ds(1) digits_value_append [of Base "[0]" es] by (simp add: digits_value_def)
    have "v < Base ^ m" using digits_value_less [of es Base] ds(2,3) es v by simp
    then have "m = 0" using s m by (auto simp: is_size_def)
    then have "es = []" using ds(3) es by simp
    then show ?thesis using es v by simp
  qed
  moreover have "numeral_string Base Upper v = map (digit_char Upper) ds"
    by (simp only: numeral_string_def ds_def n_def)
  moreover have "ds \<noteq> []" using ds(3) by auto
  ultimately show ?thesis using ds(1,2) by (intro exI [of _ ds]) simp
qed


lemma pdigits_split: "pdigits Base (n + m) v = pdigits Base n (v div Base ^ m) @ pdigits Base m v"
  by (induction m arbitrary: v) (simp_all add: div_mult2_eq)

lemma pdigits_mod: "0 < Base \<Longrightarrow> pdigits Base m (v mod Base ^ m) = pdigits Base m v"
proof (induction m arbitrary: v)
  case (Suc m)
  have "v mod Base ^ Suc m = Base * (v div Base mod Base ^ m) + v mod Base"
    by (simp add: mod_mult2_eq)
  then have "v mod Base ^ Suc m div Base = v div Base mod Base ^ m" "v mod Base ^ Suc m mod Base = v mod Base"
    using Suc.prems by simp_all
  with Suc show ?case by (simp del: power_Suc)
qed simp

lemma numeral_string_split:
  assumes "2 \<le> Base" and "0 < v div Base ^ m"
  shows "numeral_string Base Upper v
    = numeral_string Base Upper (v div Base ^ m) @ map (digit_char Upper) (pdigits Base m (v mod Base ^ m))"
proof -
  define n where "n = to_ascii_powers_size Base (v div Base ^ m)"
  have s: "is_size Base (v div Base ^ m) n"
    using to_ascii_powers_size_correct [OF assms(1)] by (simp add: n_def)
  have "v < Base ^ (n + m)"
    using s assms(1) by (simp add: is_size_def power_add div_less_iff_less_mult)
  moreover have "Base ^ (n - 1) \<le> v div Base ^ m"
    using s assms(2) by (auto simp: is_size_def)
  then have "Base ^ (n - 1 + m) \<le> v"
    using assms(1) by (simp add: power_add less_eq_div_iff_mult_less_eq)
  ultimately have "is_size Base v (n + m)"
    using s by (cases n) (auto simp: is_size_def)
  then show ?thesis
    using is_size_numeral(2) [OF assms(1), of v "n + m" Upper] is_size_numeral(2) [OF assms(1) s, of Upper] assms(1)
    by (simp add: pdigits_split pdigits_mod)
qed

lemma to_ascii_with_writes:
  assumes "2 \<le> Base" and "Base \<le> 36" and "v < 2 ^ 64" and "room \<le> length out"
  shows "to_ascii_with amd64 kIsMobile Base Upper out room v =
    (if room < length (numeral_string Base Upper v) then Some (0, out)
     else Some (length (numeral_string Base Upper v),
                numeral_string Base Upper v @ drop (length (numeral_string Base Upper v)) out))"
  using size_route_numeral [OF assms(1-3), of amd64 Upper] route_writes_numeral(1) [OF assms(1-3), of Upper out kIsMobile] assms(4)
  by (simp add: to_ascii_with_def)

lemma append128_writes:
  assumes "v < kBase" and "length xs + 19 \<le> length out"
  shows "append128 kIsMobile v (length xs, xs @ drop (length xs) out)
    = Some (length xs + 19, xs @ map (digit_char False) (pdigits 10 19 v) @ drop (length xs + 19) out)"
  using assms to_ascii_with_route_writes [of 10 19 v "drop (length xs) out" kIsMobile False]
  by (simp add: append128_def kBase_def kBaseDigits_def add.commute)

lemma two_le_ten: "2 \<le> (10::nat)"
  by simp

lemma telescope_correct:
  assumes "x < 2 ^ 128" and "length (numeral_string 10 False x) \<le> length out"
  shows "unsafeTelescope128 amd64 kIsMobile out x
    = Some (length (numeral_string 10 False x),
            numeral_string 10 False x @ drop (length (numeral_string 10 False x)) out)"
proof -
  have kB: "kBase = 10 ^ 19" by (simp add: kBase_def)
  have leading: "to_ascii_with amd64 kIsMobile 10 False out (length out) v
    = Some (length (numeral_string 10 False v), numeral_string 10 False v @ drop (length (numeral_string 10 False v)) out)"
    if "v < 2 ^ 64" "length (numeral_string 10 False v) \<le> length out" for v
    using to_ascii_with_writes [of 10 v "length out" out amd64 kIsMobile False] that by simp
  have step: "append128 kIsMobile (v mod kBase)
      (length (numeral_string 10 False (v div kBase)),
       numeral_string 10 False (v div kBase) @ drop (length (numeral_string 10 False (v div kBase))) out)
    = Some (length (numeral_string 10 False v), numeral_string 10 False v @ drop (length (numeral_string 10 False v)) out)
    \<and> length (numeral_string 10 False (v div kBase)) \<le> length out"
    if "0 < v div kBase" "length (numeral_string 10 False v) \<le> length out" for v
  proof -
    have eq: "numeral_string 10 False v
      = numeral_string 10 False (v div kBase) @ map (digit_char False) (pdigits 10 19 (v mod kBase))"
      using numeral_string_split [of 10 v 19 False] that(1) by (simp add: kB)
    have "v mod kBase < kBase" by (simp add: kBase_def)
    from append128_writes [OF this, of "numeral_string 10 False (v div kBase)" out kIsMobile] that(2) eq
    show ?thesis by simp
  qed
  have big: "0 < v div kBase" if "0 < v div 2 ^ 64" for v
    using that by (simp add: kBase_def div_greater_zero_iff)
  have small: "x div kBase div kBase < 2 ^ 64"
    using assms(1) by (simp add: kBase_def div_mult2_eq [symmetric] div_less_iff_less_mult)
  consider "x div 2 ^ 64 = 0" | "0 < x div 2 ^ 64" "x div kBase div 2 ^ 64 = 0"
    | "0 < x div 2 ^ 64" "0 < x div kBase div 2 ^ 64" by blast
  then show ?thesis
  proof cases
    case 1
    then have "x < 2 ^ 64" by (simp add: div_eq_0_iff)
    with 1 assms(2) leading show ?thesis by (simp add: unsafeTelescope128_def Let_def)
  next
    case 2
    then have "x div kBase < 2 ^ 64" by (simp add: div_eq_0_iff)
    with 2 step [OF big [OF 2(1)] assms(2)] leading [of "x div kBase"] show ?thesis
      by (simp add: unsafeTelescope128_def Let_def)
  next
    case 3
    note s1 = step [OF big [OF 3(1)] assms(2)]
    note s2 = step [OF big [OF 3(2)] conjunct2 [OF s1]]
    from 3 s1 s2 leading [OF small conjunct2 [OF s2]] show ?thesis
      by (simp add: unsafeTelescope128_def Let_def)
  qed
qed

text \<open>
  In some bases that are no power of two the approximated logarithm of
  \<open>to_ascii_size_clzll\<close> is off by more than the one digit it corrects; \<open>to_ascii_size_route\<close>
  does not use it there.
\<close>

lemma clzll_base_3: "to_ascii_size_clzll 3 524288 = Some 13 \<and> is_size 3 524288 12"
proof -
  have "is_size 3 (2 ^ 64 - 1) 41" by (simp add: is_size_def)
  then have size: "powers_size 3 = 41"
    using is_size_unique [of 3 "2 ^ 64 - 1" "powers_size 3" 41] to_ascii_powers_size_correct [of 3 "2 ^ 64 - 1"]
    by (simp add: powers_size_def)
  have "bit_length 6561 = 13" "bit_length 524288 = 20" by (simp_all add: bit_length.simps)
  then have l: "constexpr_log2 6561 = Some 12" "64 - builtin_clzll (of_nat 524288) = 20"
    using clzll_bit_length [of 524288] by (simp_all add: constexpr_log2_correct)
  have p: "constexpr_pow uint64 3 8 = Some 6561"
    using constexpr_ipow_correct [of uint64 3 8] by (simp add: constexpr_pow_def uint64_def in_range_def lim_defs)
  have a: "(3::nat) AND (3 - 1) \<noteq> 0" and t: "to_ascii_powers 3 ! 13 = 3 ^ 13"
    using to_ascii_powers_eq [of 3] size by simp_all
  have "to_ascii_size_clzll 3 524288 = Some 13"
    using l p a t size by (simp add: to_ascii_size_clzll_def Let_def)
  then show ?thesis by (simp add: is_size_def)
qed


section \<open>Properties\<close>

text \<open>
  C27. For every base from 2 to 36 and every 64-bit value the digit counters by multiplication,
  by division and by table scan agree, \<open>to_ascii_size_route\<close> returns their result on every
  target, the count-leading-zeros variant does for base 10 and for powers of two, and the count
  is at most the buffer size \<open>to_ascii_size_max\<close> promises.
\<close>
theorem to_ascii_sizes_agree:
  assumes "2 \<le> Base" and "Base \<le> 36" and "v < 2 ^ 64"
  shows "\<exists>n. is_size Base v n \<and> to_ascii_size_imuls Base v = n \<and> to_ascii_size_idivs Base v = n
    \<and> to_ascii_size_array Base v = n \<and> to_ascii_size_route amd64 Base v = Some n
    \<and> (Base = 10 \<or> Base AND (Base - 1) = 0 \<longrightarrow> to_ascii_size_clzll Base v = Some n)
    \<and> n \<le> powers_size Base"
proof -
  define n where "n = to_ascii_size_idivs Base v"
  have s: "is_size Base v n" using to_ascii_size_idivs_correct [OF assms(1)] by (simp add: n_def)
  note eq = is_size_unique [OF assms(1) _ s]
  have "to_ascii_size_imuls Base v = n" "to_ascii_size_array Base v = n"
    using eq to_ascii_size_imuls_correct [OF assms(1,3)] to_ascii_size_array_correct [OF assms] by blast+
  moreover have "to_ascii_size_route amd64 Base v = Some n"
    using eq to_ascii_size_route_correct [OF assms, of amd64] by auto
  moreover have "to_ascii_size_clzll Base v = Some n" if "Base = 10 \<or> Base AND (Base - 1) = 0"
    using that eq clzll_decimal [OF assms(3)] clzll_power_of_two [OF assms(1,2) _ assms(3)] by auto
  moreover have "n \<le> powers_size Base"
    using is_size_le [OF assms(1) s] powers_size_bounds [OF assms(1)] assms(3) by blast
  ultimately show ?thesis using s by (intro exI [of _ n]) (simp add: n_def)
qed

theorem to_ascii_sizes_agree_witness:
  "\<exists>n. is_size 16 4096 n \<and> to_ascii_size_route True 16 4096 = Some n \<and> n \<le> powers_size 16"
proof -
  have *: "2 \<le> (16::nat)" "16 \<le> (36::nat)" "4096 < (2::nat) ^ 64" by simp_all
  show ?thesis
    using to_ascii_sizes_agree [OF *, of True] by (elim exE conjE, intro exI conjI) assumption+
qed

text \<open>
  C28. For every base from 2 to 36, every 64-bit value and every buffer, \<open>to_ascii_with\<close> (mobile
  and table variant, any target) returns 0 and writes nothing when the digits do not fit in the
  given room; otherwise it writes exactly the digits of the value, most significant first and
  without leading zero, to the front of the buffer, leaves the rest alone and returns their
  number. It stays inside the buffer and inside its lookup tables.
\<close>
theorem to_ascii_prints_digits:
  assumes "2 \<le> Base" and "Base \<le> 36" and "v < 2 ^ 64" and "room \<le> length out"
  shows "\<exists>ds. digits_value Base ds = v \<and> (\<forall>d \<in> set ds. d < Base) \<and> (hd ds = 0 \<longrightarrow> ds = [0]) \<and> ds \<noteq> []
    \<and> to_ascii_with amd64 kIsMobile Base Upper out room v =
       (if room < length ds then Some (0, out)
        else Some (length ds, map (digit_char Upper) ds @ drop (length ds) out))"
proof -
  obtain ds where ds: "numeral_string Base Upper v = map (digit_char Upper) ds" "digits_value Base ds = v"
    "\<forall>d \<in> set ds. d < Base" "ds \<noteq> []" "hd ds = 0 \<longrightarrow> v = 0 \<and> ds = [0]"
    using numeral_string_value [OF assms(1), of Upper v] by (elim exE conjE)
  have "to_ascii_with amd64 kIsMobile Base Upper out room v =
       (if room < length ds then Some (0, out)
        else Some (length ds, map (digit_char Upper) ds @ drop (length ds) out))"
    unfolding to_ascii_with_writes [OF assms] ds(1) by simp
  with ds(2-5) show ?thesis by (intro exI [of _ ds]) simp
qed

theorem to_ascii_prints_digits_witness:
  "\<exists>ds. digits_value 16 ds = 255 \<and> to_ascii_with True False 16 False [0, 0, 0] 3 255 =
     (if 3 < length ds then Some (0, [0, 0, 0]) else Some (length ds, map (digit_char False) ds @ drop (length ds) [0, 0, 0]))"
proof -
  have *: "2 \<le> (16::nat)" "16 \<le> (36::nat)" "255 < (2::nat) ^ 64" "3 \<le> length [0, 0, 0 :: u8]"
    by simp_all
  show ?thesis
    using to_ascii_prints_digits [OF *, of True False False] by (elim exE conjE, intro exI conjI) assumption+
qed

text \<open>
  \<open>unsafeTelescope128\<close> prints every 128-bit value: with 39 bytes of room it writes the decimal
  digits of the value without leading zero, whichever of its three cases applies, and returns
  their number.
\<close>
theorem telescope_prints_decimal:
  assumes "x < 2 ^ 128" and "39 \<le> length out"
  shows "\<exists>ds. digits_value 10 ds = x \<and> (\<forall>d \<in> set ds. d < 10) \<and> (hd ds = 0 \<longrightarrow> ds = [0]) \<and> length ds \<le> 39
    \<and> unsafeTelescope128 amd64 kIsMobile out x =
       Some (length ds, map (digit_char False) ds @ drop (length ds) out)"
proof -
  obtain ds where ds: "numeral_string 10 False x = map (digit_char False) ds" "digits_value 10 ds = x"
    "\<forall>d \<in> set ds. d < 10" "ds \<noteq> []" "hd ds = 0 \<longrightarrow> x = 0 \<and> ds = [0]"
    using numeral_string_value [OF two_le_ten, of False x] by (elim exE conjE)
  have "is_size 10 x (length (numeral_string 10 False x))"
    using to_ascii_powers_size_correct [of 10 x] by (simp add: numeral_string_def)
  then have "length (numeral_string 10 False x) \<le> 39"
    using is_size_le [of 10 x _ x 39] assms(1) by simp
  then have "length ds \<le> 39" "unsafeTelescope128 amd64 kIsMobile out x =
       Some (length ds, map (digit_char False) ds @ drop (length ds) out)"
    using telescope_correct [OF assms(1), of out amd64 kIsMobile] assms(2) ds(1) by simp_all
  with ds(2-5) show ?thesis by (intro exI [of _ ds]) simp
qed

theorem telescope_prints_decimal_witness:
  "\<exists>ds. digits_value 10 ds = 2 ^ 100 \<and> unsafeTelescope128 True False (replicate 40 0) (2 ^ 100) =
       Some (length ds, map (digit_char False) ds @ drop (length ds) (replicate 40 0))"
proof -
  have *: "2 ^ 100 < (2::nat) ^ 128" "39 \<le> length (replicate 40 (0 :: u8))" by simp_all
  show ?thesis
    using telescope_prints_decimal [OF *, of True False] by (elim exE conjE, intro exI conjI) assumption+
qed

end
