(* ===== verification/Traits.thy ===== *)
theory Traits
  imports ConstexprMath
begin

text \<open>
  The integral comparisons of \<open>folly/Traits.h\<close>. A comparison of two C++ integers converts both
  to their common type first; \<open>is_negative\<close>, \<open>less_than\<close> and \<open>greater_than\<close> exist to compare values
  of different signedness correctly in spite of that. The model keeps the conversions, so that
  the theorems say for which pairs of types this succeeds.
\<close>

section \<open>The functions\<close>

definition is_negative :: "ctype \<Rightarrow> int \<Rightarrow> bool" where
  "is_negative t x \<longleftrightarrow> is_signed t \<and> x < 0"

definition is_non_positive :: "ctype \<Rightarrow> int \<Rightarrow> bool" where
  "is_non_positive t x \<longleftrightarrow> x = 0 \<or> is_negative t x"

definition is_positive :: "ctype \<Rightarrow> int \<Rightarrow> bool" where
  "is_positive t x \<longleftrightarrow> \<not> is_non_positive t x"

definition is_non_negative :: "ctype \<Rightarrow> int \<Rightarrow> bool" where
  "is_non_negative t x \<longleftrightarrow> x = 0 \<or> is_positive t x"

definition less_than_impl :: "ctype \<Rightarrow> int \<Rightarrow> ctype \<Rightarrow> int \<Rightarrow> bool" where
  "less_than_impl RHS rhs LHS lhs =
     (if \<not> is_signed RHS \<and> is_negative LHS lhs then True
      else if \<not> is_signed LHS \<and> is_negative RHS rhs then False
      else if cxx_less LHS (lim_max LHS) RHS rhs then True
      else if \<not> cxx_less LHS (lim_min LHS) RHS rhs then False
      else cxx_less LHS lhs RHS rhs)"

definition greater_than_impl :: "ctype \<Rightarrow> int \<Rightarrow> ctype \<Rightarrow> int \<Rightarrow> bool" where
  "greater_than_impl RHS rhs LHS lhs =
     (if \<not> is_signed RHS \<and> is_negative LHS lhs then False
      else if \<not> is_signed LHS \<and> is_negative RHS rhs then True
      else if cxx_less LHS (lim_max LHS) RHS rhs then False
      else if cxx_less RHS rhs LHS (lim_min LHS) then True
      else cxx_less RHS rhs LHS lhs)"

definition less_than :: "ctype \<Rightarrow> int \<Rightarrow> ctype \<Rightarrow> int \<Rightarrow> bool" where
  "less_than RHS rhs LHS lhs = less_than_impl RHS rhs LHS lhs"

definition greater_than :: "ctype \<Rightarrow> int \<Rightarrow> ctype \<Rightarrow> int \<Rightarrow> bool" where
  "greater_than RHS rhs LHS lhs = greater_than_impl RHS rhs LHS lhs"

section \<open>Lemmas\<close>

lemma common_type_bits:
  "width t1 - of_bool (is_signed t1) \<le> width (common_type t1 t2) - of_bool (is_signed (common_type t1 t2))"
  "width t2 - of_bool (is_signed t2) \<le> width (common_type t1 t2) - of_bool (is_signed (common_type t1 t2))"
  "width t1 \<le> width (common_type t1 t2)" "width t2 \<le> width (common_type t1 t2)"
  by (auto simp: common_type_def promote_def Let_def int32_def)

lemma common_type_max:
  "lim_max t1 \<le> lim_max (common_type t1 t2)" "lim_max t2 \<le> lim_max (common_type t1 t2)"
  by (intro lim_max_mono common_type_bits)+

lemma common_type_min:
  assumes "is_signed (common_type t1 t2)"
  shows "lim_min (common_type t1 t2) \<le> lim_min t1" "lim_min (common_type t1 t2) \<le> lim_min t2"
proof -
  have "lim_min (common_type t1 t2) \<le> lim_min t" if "width t \<le> width (common_type t1 t2)" for t
    using that assms by (cases "is_signed t") (simp_all add: lim_min_mono unsigned_lim_min)
  then show "lim_min (common_type t1 t2) \<le> lim_min t1" "lim_min (common_type t1 t2) \<le> lim_min t2"
    by (simp_all add: common_type_bits)
qed

lemma common_type_width: "integral t1 \<Longrightarrow> integral t2 \<Longrightarrow> integral (common_type t1 t2)"
proof -
  have "common_type t1 t2 \<in> {t1, t2, int32}"
    by (simp add: common_type_def promote_def Let_def)
  moreover have "integral int32" by (simp add: integral_def int32_def)
  ultimately show "integral t1 \<Longrightarrow> integral t2 \<Longrightarrow> integral (common_type t1 t2)" by auto
qed

text \<open>Conversion to the common type keeps a value that is not negative or when the type is signed.\<close>

lemma common_type_keeps:
  assumes "integral t1" and "integral t2" and "in_range t1 x \<or> in_range t2 x"
    and "0 \<le> x \<or> is_signed (common_type t1 t2)"
  shows "cast (common_type t1 t2) x = x"
proof (rule cast_in_range_id [OF common_type_width [OF assms(1,2)]])
  show "x \<le> lim_max (common_type t1 t2)"
    using common_type_max(1) [of t1 t2] common_type_max(2) [of t2 t1] assms(3) by (auto simp: in_range_def)
  show "lim_min (common_type t1 t2) \<le> x"
    using assms(3,4) common_type_min [of t1 t2] order_trans [OF lim_min_le_0]
    by (fastforce simp: in_range_def)
qed

lemma common_type_commute:
  "integral t1 \<Longrightarrow> integral t2 \<Longrightarrow> common_type t1 t2 = common_type t2 t1"
  by (auto simp: common_type_def promote_def Let_def intro!: ctype.equality)

lemma cxx_less_correct:
  assumes "integral t1" and "integral t2" and "in_range t1 x" and "in_range t2 y"
    and "0 \<le> x \<and> 0 \<le> y \<or> is_signed (common_type t1 t2)"
  shows "cxx_less t1 x t2 y \<longleftrightarrow> x < y" "cxx_less t2 y t1 x \<longleftrightarrow> y < x"
  using assms common_type_keeps [OF assms(1,2)] common_type_commute [OF assms(1,2)]
  by (auto simp: cxx_less_def)

text \<open>
  The pairs of types on which the comparison with the lowest value goes wrong: the common type of
  the signed left and the unsigned right operand is unsigned.
\<close>

definition comparison_wraps :: "ctype \<Rightarrow> ctype \<Rightarrow> bool" where
  "comparison_wraps RHS LHS \<longleftrightarrow> is_signed LHS \<and> \<not> is_signed RHS \<and> 32 \<le> width RHS \<and> width LHS \<le> width RHS"

lemma common_type_signed:
  assumes "is_signed LHS" and "\<not> comparison_wraps RHS LHS"
  shows "is_signed (common_type LHS RHS)"
  using assms
  by (auto simp: comparison_wraps_def common_type_def promote_def Let_def int32_def)

lemma less_than_correct:
  assumes "integral LHS" and "integral RHS" and "in_range LHS lhs" and "in_range RHS rhs"
    and "\<not> comparison_wraps RHS LHS"
  shows "less_than_impl RHS rhs LHS lhs \<longleftrightarrow> lhs < rhs"
    "greater_than_impl RHS rhs LHS lhs \<longleftrightarrow> rhs < lhs"
proof -
  have l: "lim_min LHS \<le> lhs" "lhs \<le> lim_max LHS" and r: "lim_min RHS \<le> rhs"
    using assms(3,4) by (simp_all add: in_range_def)
  have neg: "is_negative LHS lhs \<longleftrightarrow> lhs < 0" "is_negative RHS rhs \<longleftrightarrow> rhs < 0"
    using l r by (auto simp: is_negative_def lim_min_def split: if_splits)
  show "less_than_impl RHS rhs LHS lhs \<longleftrightarrow> lhs < rhs"
    "greater_than_impl RHS rhs LHS lhs \<longleftrightarrow> rhs < lhs"
  proof (atomize (full), cases "is_signed LHS")
    case True
    note c = cxx_less_correct [OF assms(1,2) _ assms(4) disjI2 [OF common_type_signed [OF True assms(5)]]]
    show "(less_than_impl RHS rhs LHS lhs \<longleftrightarrow> lhs < rhs) \<and> (greater_than_impl RHS rhs LHS lhs \<longleftrightarrow> rhs < lhs)"
      using l r by (auto simp: less_than_impl_def greater_than_impl_def neg True c [OF assms(3)] c [OF in_range_lims(1)]
          c [OF in_range_lims(2)] unsigned_lim_min)
  next
    case False
    then have "0 \<le> lhs" "lim_min LHS = 0" using l(1) by (simp_all add: unsigned_lim_min)
    show "(less_than_impl RHS rhs LHS lhs \<longleftrightarrow> lhs < rhs) \<and> (greater_than_impl RHS rhs LHS lhs \<longleftrightarrow> rhs < lhs)"
    proof (cases "rhs < 0")
      case rneg: True
      with False neg \<open>0 \<le> lhs\<close> show ?thesis
        by (auto simp: less_than_impl_def greater_than_impl_def)
    next
      case rpos: False
      then have "0 \<le> x \<and> 0 \<le> rhs \<or> is_signed (common_type LHS RHS)" if "0 \<le> x" for x
        using that by simp
      note c = cxx_less_correct [OF assms(1,2) _ assms(4) this]
      show ?thesis
        using l rpos \<open>0 \<le> lhs\<close> \<open>lim_min LHS = 0\<close>
        by (auto simp: less_than_impl_def greater_than_impl_def neg False c [OF assms(3)] c [OF in_range_0]
            c [OF in_range_lims(2)])
    qed
  qed
qed

section \<open>Properties\<close>

text \<open>
  C29. \<open>less_than\<close> and \<open>greater_than\<close> compare the mathematical values of two integers of any
  integral types, unless the left operand is signed and the right one unsigned, at least 32
  bits wide and at least as wide as the left one; in that case the value 3 of \<open>int32_t\<close> is
  reported as not less than, and as greater than, the value 5 of \<open>uint32_t\<close>.
\<close>
theorem integral_comparisons:
  assumes "integral LHS" and "integral RHS" and "in_range LHS lhs" and "in_range RHS rhs"
    and "\<not> comparison_wraps RHS LHS"
  shows "(less_than RHS rhs LHS lhs \<longleftrightarrow> lhs < rhs) \<and> (greater_than RHS rhs LHS lhs \<longleftrightarrow> rhs < lhs)
    \<and> \<not> less_than uint32 5 int32 3 \<and> greater_than uint32 5 int32 3"
proof -
  have "\<not> less_than uint32 5 int32 3" "greater_than uint32 5 int32 3"
    by (simp_all add: less_than_def greater_than_def less_than_impl_def greater_than_impl_def cxx_less_def
        common_type_def promote_def is_negative_def cast_def lim_defs ctype_defs)
  with less_than_correct [OF assms] show ?thesis
    by (simp add: less_than_def greater_than_def)
qed

theorem integral_comparisons_witness:
  "less_than uint32 5 int64 (- 1) \<and> \<not> greater_than uint32 5 int64 (- 1)"
  using integral_comparisons [of int64 uint32 "- 1" 5]
  by (simp add: integral_def in_range_def lim_defs comparison_wraps_def ctype_defs)

end
