(* ===== verification/Conv.thy ===== *)
theory Conv
  imports ToAscii Traits
begin

text \<open>
  Conversions between strings and integers or booleans, from \<open>folly/Conv.cpp\<close> and
  \<open>folly/Conv.h\<close>. A string is a range \<open>[b, e)\<close> of the readable memory \<open>m\<close>; pointers are indices,
  and a read outside the memory or outside a lookup table is undefined behaviour,
  \<^term>\<open>None\<close>. \<open>Expected<T, ConversionCode>\<close> is a sum with the error on the left. \<open>char\<close> is signed,
  as on the x86 targets. The templates take the target type as a \<^typ>\<open>ctype\<close>. \<open>isdigit\<close> and \<open>isspace\<close>
  are those of the C locale. Floating-point conversions are not modelled.
\<close>

section \<open>Codes and characters\<close>

datatype ConversionCode =
    SUCCESS | EMPTY_INPUT_STRING | NO_DIGITS | BOOL_OVERFLOW | BOOL_INVALID_VALUE
  | NON_DIGIT_CHAR | INVALID_LEADING_CHAR | POSITIVE_OVERFLOW | NEGATIVE_OVERFLOW
  | STRING_TO_FLOAT_ERROR | NON_WHITESPACE_AFTER_END | ARITH_POSITIVE_OVERFLOW
  | ARITH_NEGATIVE_OVERFLOW | ARITH_LOSS_OF_PRECISION | NUM_ERROR_CODES

type_synonym 'a expected = "ConversionCode + 'a"

definition rd :: "u8 list \<Rightarrow> nat \<Rightarrow> u8 option" where
  "rd m i = (if i < length m then Some (m ! i) else None)"

definition ascii :: "string \<Rightarrow> u8 list" where
  "ascii s = map of_char s"

definition isdigit :: "u8 \<Rightarrow> bool" where
  "isdigit c \<longleftrightarrow> 48 \<le> c \<and> c \<le> 57"

definition isspace :: "u8 \<Rightarrow> bool" where
  "isspace c \<longleftrightarrow> 9 \<le> c \<and> c \<le> 13 \<or> c = 32"

text \<open>The condition \<open>(*b < '\\t' || *b > '\\r') && *b != ' '\<close> on signed characters.\<close>

definition not_blank :: "u8 \<Rightarrow> bool" where
  "not_blank c \<longleftrightarrow> (sint c < 9 \<or> 13 < sint c) \<and> c \<noteq> 32"

section \<open>Tables\<close>

function findFirstNonDigit :: "u8 list \<Rightarrow> nat \<Rightarrow> nat \<Rightarrow> nat option" where
  "findFirstNonDigit m b e =
     (if b < e then do {
        x \<leftarrow> rd m b;
        let c = (scast x :: u32) - 48;
        if c \<ge> 10 then Some b else findFirstNonDigit m (b + 1) e }
      else Some b)"
  by pat_completeness auto
termination
  by (relation "measure (\<lambda>(m, b, e). e - b)") auto

declare findFirstNonDigit.simps [simp del]

definition MaxString :: "nat \<Rightarrow> string" where
  "MaxString w = (if w = 8 then ''255''
     else if w = 16 then ''65535''
     else if w = 32 then ''4294967295''
     else if w = 64 then ''18446744073709551615''
     else ''340282366920938463463374607431768211455'')"

definition OOR :: nat where "OOR = 10000"

definition shift1 :: "nat list" where
  "shift1 = replicate 48 OOR @ [0, 1, 2, 3, 4, 5, 6, 7, 8, 9] @ replicate 198 OOR"

definition shift10 :: "nat list" where
  "shift10 = replicate 48 OOR @ [0, 10, 20, 30, 40, 50, 60, 70, 80, 90] @ replicate 198 OOR"

definition shift100 :: "nat list" where
  "shift100 = replicate 48 OOR @ [0, 100, 200, 300, 400, 500, 600, 700, 800, 900] @ replicate 198 OOR"

definition shift1000 :: "nat list" where
  "shift1000 = replicate 48 OOR
     @ [0, 1000, 2000, 3000, 4000, 5000, 6000, 7000, 8000, 9000] @ replicate 198 OOR"

text \<open>\<open>table[static_cast<size_t>(c)]\<close>: the cast of a \<open>char\<close> extends its sign.\<close>

definition shift_at :: "nat list \<Rightarrow> u8 \<Rightarrow> nat option" where
  "shift_at table c = (let i = unat (scast c :: u64) in
     if i < length table then Some (table ! i) else None)"

definition kErrorStrings :: "(string \<times> bool) list" where
  "kErrorStrings = [
     (''Success'', True),
     (''Empty input string'', True),
     (''No digits found in input string'', True),
     (''Integer overflow when parsing bool (must be 0 or 1)'', True),
     (''Invalid value for bool'', True),
     (''Non-digit character found'', True),
     (''Invalid leading character'', True),
     (''Overflow during conversion'', True),
     (''Negative overflow during conversion'', True),
     (''Unable to convert string to floating point value'', True),
     (''Non-whitespace character found after end of conversion'', True),
     (''Overflow during arithmetic conversion'', False),
     (''Negative overflow during arithmetic conversion'', False),
     (''Loss of precision during arithmetic conversion'', False)]"

primrec code_index :: "ConversionCode \<Rightarrow> nat" where
  "code_index SUCCESS = 0"
| "code_index EMPTY_INPUT_STRING = 1"
| "code_index NO_DIGITS = 2"
| "code_index BOOL_OVERFLOW = 3"
| "code_index BOOL_INVALID_VALUE = 4"
| "code_index NON_DIGIT_CHAR = 5"
| "code_index INVALID_LEADING_CHAR = 6"
| "code_index POSITIVE_OVERFLOW = 7"
| "code_index NEGATIVE_OVERFLOW = 8"
| "code_index STRING_TO_FLOAT_ERROR = 9"
| "code_index NON_WHITESPACE_AFTER_END = 10"
| "code_index ARITH_POSITIVE_OVERFLOW = 11"
| "code_index ARITH_NEGATIVE_OVERFLOW = 12"
| "code_index ARITH_LOSS_OF_PRECISION = 13"
| "code_index NUM_ERROR_CODES = 14"

text \<open>\<^term>\<open>None\<close>: the safety check on the index fails and the program aborts.\<close>

definition makeConversionError :: "ConversionCode \<Rightarrow> u8 list \<Rightarrow> (u8 list \<times> ConversionCode) option" where
  "makeConversionError code input =
     (let index = code_index code in
      if \<not> index < length kErrorStrings then None
      else let (str, quote) = kErrorStrings ! index in
        if code = EMPTY_INPUT_STRING \<and> input = [] then Some (ascii str, code)
        else Some (ascii str @ ascii '': ''
          @ (if quote then [34] else []) @ input @ (if quote then [34] else []), code))"

section \<open>Booleans\<close>

definition tolower_ascii :: "u8 \<Rightarrow> u8" where
  "tolower_ascii c = c OR 0x20"

text \<open>Returns the advanced pointer when the whole value matches.\<close>

fun bool_str_cmp :: "u8 list \<Rightarrow> nat \<Rightarrow> nat \<Rightarrow> u8 list \<Rightarrow> nat option option" where
  "bool_str_cmp m p e [] = Some (Some p)"
| "bool_str_cmp m p e (v # vs) =
     (if p = e then Some None
      else do { c \<leftarrow> rd m p;
        if tolower_ascii c \<noteq> v then Some None else bool_str_cmp m (p + 1) e vs })"

text \<open>The first character that is not blank, or \<^term>\<open>Some None\<close> at the end.\<close>

function skipBlanks :: "u8 list \<Rightarrow> nat \<Rightarrow> nat \<Rightarrow> nat option option" where
  "skipBlanks m b e =
     (if b \<ge> e then Some None
      else do { c \<leftarrow> rd m b;
        if not_blank c then Some (Some b) else skipBlanks m (b + 1) e })"
  by pat_completeness auto
termination
  by (relation "measure (\<lambda>(m, b, e). e - b)") auto

declare skipBlanks.simps [simp del]

function bool_digits :: "u8 list \<Rightarrow> nat \<Rightarrow> nat \<Rightarrow> bool \<Rightarrow> (bool \<times> nat) expected option" where
  "bool_digits m b e result =
     (if b < e then do {
        c \<leftarrow> rd m b;
        if isdigit c then
          (if result \<or> (c \<noteq> 48 \<and> c \<noteq> 49) then Some (Inl BOOL_OVERFLOW)
           else bool_digits m (b + 1) e (c = 49))
        else Some (Inr (result, b)) }
      else Some (Inr (result, b)))"
  by pat_completeness auto
termination
  by (relation "measure (\<lambda>(m, b, e, r). e - b)") auto

declare bool_digits.simps [simp del]

text \<open>A word or, failing that, its first letter alone.\<close>

definition bool_word :: "u8 list \<Rightarrow> nat \<Rightarrow> nat \<Rightarrow> string \<Rightarrow> bool \<Rightarrow> (bool \<times> nat) expected option" where
  "bool_word m b e word result = do {
     r \<leftarrow> bool_str_cmp m b e (ascii word);
     case r of Some b' \<Rightarrow> Some (Inr (result, b')) | None \<Rightarrow> Some (Inr (result, b + 1)) }"

text \<open>The result comes with the new begin of the source range.\<close>

definition str_to_bool :: "u8 list \<Rightarrow> nat \<Rightarrow> nat \<Rightarrow> (bool expected \<times> nat) option" where
  "str_to_bool m b0 e = do {
     s \<leftarrow> skipBlanks m b0 e;
     case s of
       None \<Rightarrow> Some (Inl EMPTY_INPUT_STRING, b0)
     | Some b \<Rightarrow> do {
         c \<leftarrow> rd m b;
         r \<leftarrow> (if c \<in> {48, 49} then bool_digits m b e False
              else if c \<in> {121, 89} then bool_word m b e ''yes'' True
              else if c \<in> {110, 78} then bool_word m b e ''no'' False
              else if c \<in> {116, 84} then bool_word m b e ''true'' True
              else if c \<in> {102, 70} then bool_word m b e ''false'' False
              else if c \<in> {111, 79} then do {
                r \<leftarrow> bool_str_cmp m b e (ascii ''on'');
                (case r of Some b' \<Rightarrow> Some (Inr (True, b')) | None \<Rightarrow> do {
                   r \<leftarrow> bool_str_cmp m b e (ascii ''off'');
                   (case r of Some b' \<Rightarrow> Some (Inr (False, b')) | None \<Rightarrow> Some (Inl BOOL_INVALID_VALUE)) }) }
              else Some (Inl BOOL_INVALID_VALUE));
         (case r of Inl err \<Rightarrow> Some (Inl err, b0) | Inr (result, b') \<Rightarrow> Some (Inr result, b')) } }"


section \<open>Integers from digits\<close>

text \<open>
  \<open>SignedValueHandler\<close>: for a signed type \<open>init\<close> reads an optional sign, for an unsigned type it
  does nothing. The result is the error, or whether the value is negative and the pointer.
\<close>

definition sgn_init :: "ctype \<Rightarrow> u8 list \<Rightarrow> nat \<Rightarrow> (bool \<times> nat) expected option" where
  "sgn_init t m b =
     (if is_signed t then do {
        c \<leftarrow> rd m b;
        if \<not> isdigit c then
          (if c = 45 then Some (Inr (True, b + 1))
           else if c \<noteq> 43 then Some (Inl INVALID_LEADING_CHAR)
           else Some (Inr (False, b + 1)))
        else Some (Inr (False, b)) }
      else Some (Inr (False, b)))"

definition sgn_overflow :: "ctype \<Rightarrow> bool \<Rightarrow> ConversionCode" where
  "sgn_overflow t negative =
     (if is_signed t then (if negative then NEGATIVE_OVERFLOW else POSITIVE_OVERFLOW)
      else POSITIVE_OVERFLOW)"

definition sgn_finalize :: "ctype \<Rightarrow> bool \<Rightarrow> int \<Rightarrow> int expected" where
  "sgn_finalize t negative v =
     (if is_signed t then
        (if negative then
           let rv = cast t (cast (make_unsigned t) (- v)) in
           if rv > 0 then Inl NEGATIVE_OVERFLOW else Inr rv
         else
           let rv = cast t v in
           if rv < 0 then Inl POSITIVE_OVERFLOW else Inr rv)
      else Inr v)"

definition digits10 :: "ctype \<Rightarrow> nat" where
  "digits10 t = to_ascii_powers_size 10 (nat (lim_max t)) - 1"

text \<open>\<open>Inl ()\<close>: nothing but zeros.\<close>

function skipZeros :: "u8 list \<Rightarrow> nat \<Rightarrow> nat \<Rightarrow> (unit + nat) option" where
  "skipZeros m b e =
     (if b = e then Some (Inl ())
      else do { c \<leftarrow> rd m b;
        if c \<noteq> 48 then Some (Inr b) else skipZeros m (b + 1) e })"
  by pat_completeness auto
termination
  by (relation "measure (\<lambda>(m, b, e). length m - b)") (auto simp: rd_def split: if_splits)

declare skipZeros.simps [simp del]

text \<open>\<open>strncmp\<close> against a literal, which ends with a zero byte.\<close>

primrec strncmp :: "u8 list \<Rightarrow> nat \<Rightarrow> u8 list \<Rightarrow> nat \<Rightarrow> int option" where
  "strncmp m b s 0 = Some 0"
| "strncmp m b s (Suc n) = do {
     c \<leftarrow> rd m b;
     let d = (case s of [] \<Rightarrow> 0 | x # _ \<Rightarrow> x);
     if c < d then Some (- 1) else if d < c then Some 1
     else if c = 0 then Some 0 else strncmp m (b + 1) (tl s) n }"

text \<open>\<open>size_t(e - b)\<close>\<close>

definition ptr_size :: "nat \<Rightarrow> nat \<Rightarrow> nat" where
  "ptr_size b e = (e + 2 ^ 64 - b) mod 2 ^ 64"

text \<open>The check for overflow: an early return, or the pointer to the first digit to convert.\<close>

definition overflowCompare :: "ctype \<Rightarrow> bool \<Rightarrow> u8 list \<Rightarrow> nat \<Rightarrow> nat \<Rightarrow> (int expected + nat) option" where
  "overflowCompare t negative m b e =
     (let u = make_unsigned t; sz = ptr_size b e in
      if sz > digits10 u then
        (if sz \<noteq> digits10 u + 1 then Some (Inl (Inl (sgn_overflow t negative)))
         else do { d \<leftarrow> strncmp m b (ascii (MaxString (width u))) sz;
           Some (if d > 0 then Inl (Inl (sgn_overflow t negative)) else Inr b) })
      else Some (Inr b))"

definition overflowCheck :: "ctype \<Rightarrow> bool \<Rightarrow> u8 list \<Rightarrow> nat \<Rightarrow> nat \<Rightarrow> (int expected + nat) option" where
  "overflowCheck t negative m b e =
     (if ptr_size b e > digits10 (make_unsigned t) then do {
        z \<leftarrow> (if b < e then do { c \<leftarrow> rd m b;
                if c = 48 then skipZeros m (b + 1) e else Some (Inr b) }
              else Some (Inr b));
        case z of Inl _ \<Rightarrow> Some (Inl (Inr 0)) | Inr b \<Rightarrow> overflowCompare t negative m b e }
      else Some (Inr b))"

text \<open>The loop over four digits at a time; \<^term>\<open>Inl ()\<close> is the jump to \<open>outOfRange\<close>.\<close>

function digitLoop :: "ctype \<Rightarrow> u8 list \<Rightarrow> nat \<Rightarrow> nat \<Rightarrow> int \<Rightarrow> (unit + nat \<times> int) option" where
  "digitLoop u m b e result =
     (if b + 4 \<le> e then do {
        let result = cast u (result * cast u 10000);
        c0 \<leftarrow> rd m b; r0 \<leftarrow> shift_at shift1000 c0;
        c1 \<leftarrow> rd m (b + 1); r1 \<leftarrow> shift_at shift100 c1;
        c2 \<leftarrow> rd m (b + 2); r2 \<leftarrow> shift_at shift10 c2;
        c3 \<leftarrow> rd m (b + 3); r3 \<leftarrow> shift_at shift1 c3;
        let sum = r0 + r1 + r2 + r3;
        if sum \<ge> OOR then Some (Inl ())
        else digitLoop u m (b + 4) e (cast u (result + cast u (int sum))) }
      else Some (Inr (b, result)))"
  by pat_completeness auto
termination
  by (relation "measure (\<lambda>(u, m, b, e, r). e - b)") auto

declare digitLoop.simps [simp del]

text \<open>The last one to three digits.\<close>

definition digitTail :: "ctype \<Rightarrow> u8 list \<Rightarrow> nat \<Rightarrow> nat \<Rightarrow> int \<Rightarrow> nat \<Rightarrow> int expected option" where
  "digitTail u m b e result sz =
     (if e - b = 3 then do {
        c0 \<leftarrow> rd m b; r0 \<leftarrow> shift_at shift100 c0;
        c1 \<leftarrow> rd m (b + 1); r1 \<leftarrow> shift_at shift10 c1;
        c2 \<leftarrow> rd m (b + 2); r2 \<leftarrow> shift_at shift1 c2;
        let sum = r0 + r1 + r2;
        if sum \<ge> OOR then Some (Inl NON_DIGIT_CHAR)
        else Some (Inr (cast u (1000 * result + int sum))) }
      else if e - b = 2 then do {
        c0 \<leftarrow> rd m b; r0 \<leftarrow> shift_at shift10 c0;
        c1 \<leftarrow> rd m (b + 1); r1 \<leftarrow> shift_at shift1 c1;
        let sum = r0 + r1;
        if sum \<ge> OOR then Some (Inl NON_DIGIT_CHAR)
        else Some (Inr (cast u (100 * result + int sum))) }
      else if e - b = 1 then do {
        c0 \<leftarrow> rd m b; sum \<leftarrow> shift_at shift1 c0;
        if sum \<ge> OOR then Some (Inl NON_DIGIT_CHAR)
        else Some (Inr (cast u (10 * result + int sum))) }
      else if sz = 0 then Some (Inl NO_DIGITS)
      else Some (Inr result))"

text \<open>What \<open>digits_to\<close> does once the sign is read.\<close>

definition digits_core :: "ctype \<Rightarrow> bool \<Rightarrow> u8 list \<Rightarrow> nat \<Rightarrow> nat \<Rightarrow> int expected option" where
  "digits_core t negative m b e = do {
     z \<leftarrow> overflowCheck t negative m b e;
     case z of
       Inl early \<Rightarrow> Some early
     | Inr b' \<Rightarrow> do {
         l \<leftarrow> digitLoop (make_unsigned t) m b' e 0;
         case l of
           Inl _ \<Rightarrow> Some (Inl NON_DIGIT_CHAR)
         | Inr (b'', result) \<Rightarrow> do {
             r \<leftarrow> digitTail (make_unsigned t) m b'' e result (ptr_size b' e);
             Some (case r of Inl err \<Rightarrow> Inl err | Inr v \<Rightarrow> sgn_finalize t negative v) } } }"

definition digits_to :: "ctype \<Rightarrow> u8 list \<Rightarrow> nat \<Rightarrow> nat \<Rightarrow> int expected option" where
  "digits_to t m b e = do {
     s \<leftarrow> sgn_init t m b;
     case s of Inl err \<Rightarrow> Some (Inl err) | Inr (negative, b) \<Rightarrow> digits_core t negative m b e }"

section \<open>Integers from strings\<close>

text \<open>The result comes with the new begin of the source range.\<close>

definition str_to_integral :: "ctype \<Rightarrow> u8 list \<Rightarrow> nat \<Rightarrow> nat \<Rightarrow> (int expected \<times> nat) option" where
  "str_to_integral t m b0 past = do {
     s \<leftarrow> skipBlanks m b0 past;
     case s of
       None \<Rightarrow> Some (Inl EMPTY_INPUT_STRING, b0)
     | Some b \<Rightarrow> do {
         i \<leftarrow> sgn_init t m b;
         case i of
           Inl err \<Rightarrow> Some (Inl err, b0)
         | Inr (negative, b) \<Rightarrow>
             if is_signed t \<and> b \<ge> past then Some (Inl NO_DIGITS, b0)
             else do {
               c \<leftarrow> rd m b;
               if \<not> isdigit c then Some (Inl NON_DIGIT_CHAR, b0)
               else do {
                 n \<leftarrow> findFirstNonDigit m (b + 1) past;
                 tmp \<leftarrow> digits_to (make_unsigned t) m b n;
                 case tmp of
                   Inl err \<Rightarrow>
                     Some (Inl (if err = POSITIVE_OVERFLOW then sgn_overflow t negative else err), b0)
                 | Inr v \<Rightarrow>
                     (let res = sgn_finalize t negative v in
                      Some (res, case res of Inr _ \<Rightarrow> n | Inl _ \<Rightarrow> b0)) } } } }"

text \<open>The conversion of a whole string: \<open>parseTo\<close> and the check of what follows the number.\<close>

primrec enforceWhitespaceErr :: "u8 list \<Rightarrow> ConversionCode" where
  "enforceWhitespaceErr [] = SUCCESS"
| "enforceWhitespaceErr (c # cs) = (if \<not> isspace c then NON_WHITESPACE_AFTER_END else enforceWhitespaceErr cs)"

definition CheckTrailingSpace :: "u8 list \<Rightarrow> unit expected" where
  "CheckTrailingSpace sp = (let e = enforceWhitespaceErr sp in if e \<noteq> SUCCESS then Inl e else Inr ())"

definition parseTo :: "ctype \<Rightarrow> u8 list \<Rightarrow> (u8 list \<times> int) expected option" where
  "parseTo t src = do {
     (r, b) \<leftarrow> str_to_integral t src 0 (length src);
     Some (case r of Inl err \<Rightarrow> Inl err | Inr v \<Rightarrow> Inr (drop b src, v)) }"

definition tryTo :: "ctype \<Rightarrow> u8 list \<Rightarrow> int expected option" where
  "tryTo t src = do {
     p \<leftarrow> parseTo t src;
     Some (case p of
       Inl err \<Rightarrow> Inl err
     | Inr (rest, v) \<Rightarrow> (case CheckTrailingSpace rest of Inl err \<Rightarrow> Inl err | Inr _ \<Rightarrow> Inr v)) }"

section \<open>Integers to strings and to other integers\<close>

text \<open>A \<open>char\<close> is appended as the character it is; every other integer as a numeral.\<close>

definition toAppend_char :: "u8 \<Rightarrow> u8 list \<Rightarrow> u8 list" where
  "toAppend_char value result = result @ [value]"

definition toAppend_unsigned :: "bool \<Rightarrow> nat \<Rightarrow> u8 list \<Rightarrow> u8 list option" where
  "toAppend_unsigned amd64 v result = do {
     (n, buffer) \<leftarrow> to_ascii_decimal amd64 (replicate (powers_size 10) 0) v;
     Some (result @ take n buffer) }"

definition toAppend_signed :: "bool \<Rightarrow> int \<Rightarrow> u8 list \<Rightarrow> u8 list option" where
  "toAppend_signed amd64 v result = do {
     let uvalue = (if v < 0 then cast uint64 (cast uint64 (- cast uint64 v - 1) + 1) else cast uint64 v);
     let result = (if v < 0 then result @ [45] else result);
     (n, buffer) \<leftarrow> to_ascii_decimal amd64 (replicate (powers_size 10) 0) (nat uvalue);
     Some (result @ take n buffer) }"

definition digitsEnough :: "ctype \<Rightarrow> nat" where
  "digitsEnough t = digits10 t + 1"

definition toAppend_uint128 :: "bool \<Rightarrow> bool \<Rightarrow> nat \<Rightarrow> u8 list \<Rightarrow> u8 list option" where
  "toAppend_uint128 amd64 kIsMobile v result = do {
     (p, buffer) \<leftarrow> unsafeTelescope128 amd64 kIsMobile (replicate (digitsEnough \<lparr>is_signed = False, width = 128\<rparr>) 0) v;
     Some (result @ take p buffer) }"

definition toAppend_int128 :: "bool \<Rightarrow> bool \<Rightarrow> int \<Rightarrow> u8 list \<Rightarrow> u8 list option" where
  "toAppend_int128 amd64 kIsMobile v result =
     (let usrc = \<lparr>is_signed = False, width = 128\<rparr>;
          buffer = replicate (digitsEnough usrc + 1) 0 in
      if v < 0 then do {
        (p, r) \<leftarrow> unsafeTelescope128 amd64 kIsMobile (drop 1 buffer) (nat (cast usrc (- cast usrc v)));
        Some (result @ take (1 + p) (45 # r)) }
      else do {
        (p, r) \<leftarrow> unsafeTelescope128 amd64 kIsMobile buffer (nat v);
        Some (result @ take p r) })"

text \<open>
  \<open>to<std::string>(value)\<close> for a value of an integer type \<open>t\<close> other than \<open>char\<close>: the overload the type selects.
\<close>

definition toAppend :: "bool \<Rightarrow> bool \<Rightarrow> ctype \<Rightarrow> int \<Rightarrow> u8 list \<Rightarrow> u8 list option" where
  "toAppend amd64 kIsMobile t v result =
     (if width t = 128 then
        (if is_signed t then toAppend_int128 amd64 kIsMobile v result
         else toAppend_uint128 amd64 kIsMobile (nat v) result)
      else if is_signed t then toAppend_signed amd64 v result
      else toAppend_unsigned amd64 (nat v) result)"

text \<open>Checked conversion from one integral type to another.\<close>

definition convertTo :: "ctype \<Rightarrow> ctype \<Rightarrow> int \<Rightarrow> int expected" where
  "convertTo Tgt Src v =
     (if lim_max Tgt < lim_max Src \<and> greater_than Tgt (lim_max Tgt) Src v then Inl ARITH_POSITIVE_OVERFLOW
      else if (is_signed Src \<and> (\<not> is_signed Tgt \<or> width Src > width Tgt)) \<and> less_than Tgt (lim_min Tgt) Src v
      then Inl ARITH_NEGATIVE_OVERFLOW
      else Inr (cast Tgt v))"


section \<open>Lemmas on characters and tables\<close>

lemma sint_u8: "sint (c :: u8) = (if uint c < 128 then uint c else uint c - 256)"
proof -
  have b: "0 \<le> uint c" "uint c < 256" using uint_lt2p [of c] by simp_all
  have "sint c = (uint c + 128) mod 256 - 128"
    unfolding sint_uint signed_take_bit_eq_take_bit_shift by (simp add: take_bit_eq_mod)
  also have "(uint c + 128) mod 256 = (if uint c < 128 then uint c + 128 else uint c - 128)"
  proof (cases "uint c < 128")
    case False
    have "(uint c + 128) mod 256 = (uint c - 128 + 256) mod 256" by (simp add: add.commute)
    also have "\<dots> = (uint c - 128) mod 256" by (rule mod_add_self2)
    also have "\<dots> = uint c - 128" using False b by (intro mod_pos_pos_trivial) simp_all
    finally show ?thesis using False by simp
  qed (use b in simp)
  finally show ?thesis by simp
qed

lemma not_blank_eq: "not_blank c \<longleftrightarrow> \<not> isspace c"
  using uint_lt2p [of c]
  by (auto simp: not_blank_def isspace_def sint_u8 word_le_def word_uint_eq_iff split: if_splits)

lemma uint_scast_u8: "uint (scast (c::u8) :: 'a::len word) = sint c mod 2 ^ LENGTH('a)"
  unfolding scast_eq uint_word_of_int by (rule refl)


lemma non_digit_eq: "10 \<le> (scast c :: u32) - 48 \<longleftrightarrow> \<not> isdigit c"
proof -
  have *: "10 \<le> (k mod 2 ^ 32 - 48) mod 2 ^ 32 \<longleftrightarrow> \<not> (48 \<le> k \<and> k \<le> 57)" if k: "- 128 \<le> k" "k < 128" for k :: int
  proof -
    have "(k mod 2 ^ 32 - 48) mod 2 ^ 32 = (k - 48) mod 2 ^ 32" by (simp add: mod_diff_left_eq)
    also have "\<dots> = (if 48 \<le> k then k - 48 else k - 48 + 2 ^ 32)"
    proof (cases "48 \<le> k")
      case False
      have "(k - 48) mod 2 ^ 32 = (k - 48 + 2 ^ 32) mod 2 ^ 32"
        by (rule mod_add_self2 [symmetric])
      also have "\<dots> = k - 48 + 2 ^ 32" using False k by (intro mod_pos_pos_trivial) simp_all
      finally show ?thesis using False by simp
    qed (use k in simp)
    finally show ?thesis using k by auto
  qed
  have b: "0 \<le> uint c" "uint c < 256" using uint_lt2p [of c] by simp_all
  have "10 \<le> (scast c :: u32) - 48 \<longleftrightarrow> 10 \<le> (sint c mod 2 ^ 32 - 48) mod 2 ^ 32"
    by (simp add: word_le_def uint_word_ariths uint_scast_u8)
  also have "\<dots> \<longleftrightarrow> \<not> (48 \<le> sint c \<and> sint c \<le> 57)"
    using b order_trans [of "- 128" 0 "uint c"] by (intro *) (auto simp: sint_u8)
  also have "\<dots> \<longleftrightarrow> \<not> isdigit c"
    using b by (auto simp: isdigit_def word_le_def sint_u8)
  finally show ?thesis .
qed

text \<open>The value of a digit character.\<close>

definition dig :: "u8 \<Rightarrow> nat" where
  "dig c = unat c - 48"

lemma isdigit_unat: "isdigit c \<longleftrightarrow> 48 \<le> unat c \<and> unat c \<le> 57"
  by (simp add: isdigit_def word_le_nat_alt)

lemma isdigit_dig: "isdigit c \<Longrightarrow> dig c < 10 \<and> unat c = 48 + dig c"
  by (auto simp: isdigit_unat dig_def)

lemma unat_scast_ascii:
  fixes c :: u8
  assumes "unat c < 128"
  shows "unat (scast c :: u64) = unat c"
proof -
  have "int (unat c) < 128" using assms by linarith
  then have c: "uint c < 128" by (simp only: of_nat_unat)
  have "uint (scast c :: u64) = uint c"
    unfolding uint_scast_u8 sint_u8 using c by simp
  then show ?thesis unfolding unat_eq_nat_uint by simp
qed

lemma shift_at_digit:
  assumes "isdigit c" and "length ys = 10"
  shows "shift_at (replicate 48 x @ ys @ zs) c = Some (ys ! dig c)"
  using assms isdigit_dig [OF assms(1)] unat_scast_ascii [of c]
  by (simp add: shift_at_def Let_def nth_append)

lemma nth_digits:
  assumes "d < 10"
  shows "[0, a, 2 * a, 3 * a, 4 * a, 5 * a, 6 * a, 7 * a, 8 * a, 9 * a] ! d = d * (a::nat)"
proof -
  have "d \<in> {0, 1, 2, 3, 4, 5, 6, 7, 8, 9}" using assms by auto
  then show ?thesis by (elim insertE emptyE) simp_all
qed

lemma shift_at_scaled:
  assumes "isdigit c"
  shows "shift_at (replicate 48 x @ [0, a, 2 * a, 3 * a, 4 * a, 5 * a, 6 * a, 7 * a, 8 * a, 9 * a] @ zs) c
    = Some (dig c * a)"
proof -
  have "dig c < 10" using isdigit_dig [OF assms] by simp
  then show ?thesis
    by (subst shift_at_digit [OF assms]) (simp, simp only: nth_digits)
qed

lemma shift_digit:
  assumes "isdigit c"
  shows "shift_at shift1 c = Some (dig c)" "shift_at shift10 c = Some (dig c * 10)"
    "shift_at shift100 c = Some (dig c * 100)" "shift_at shift1000 c = Some (dig c * 1000)"
  using shift_at_scaled [OF assms, of OOR 1 "replicate 198 OOR"]
    shift_at_scaled [OF assms, of OOR 10 "replicate 198 OOR"]
    shift_at_scaled [OF assms, of OOR 100 "replicate 198 OOR"]
    shift_at_scaled [OF assms, of OOR 1000 "replicate 198 OOR"]
  by (simp_all add: shift1_def shift10_def shift100_def shift1000_def)


section \<open>Lemmas on ranges\<close>

definition slice :: "u8 list \<Rightarrow> nat \<Rightarrow> nat \<Rightarrow> u8 list" where
  "slice m b e = take (e - b) (drop b m)"

definition dval :: "u8 list \<Rightarrow> nat \<Rightarrow> nat \<Rightarrow> nat" where
  "dval m b e = digits_value 10 (map dig (slice m b e))"

lemma slice_Cons:
  "b < e \<Longrightarrow> e \<le> length m \<Longrightarrow> slice m b e = m ! b # slice m (b + 1) e"
  by (simp add: slice_def Cons_nth_drop_Suc [symmetric] take_Cons')

lemma slice_Nil [simp]: "e \<le> b \<Longrightarrow> slice m b e = []"
  by (simp add: slice_def)

lemma length_slice: "e \<le> length m \<Longrightarrow> length (slice m b e) = e - b"
  by (simp add: slice_def)

lemma rd_Some: "i < length m \<Longrightarrow> rd m i = Some (m ! i)"
  by (simp add: rd_def)

lemma range_induct [consumes 1, case_names Nil Cons]:
  assumes "b \<le> e" and "\<And>b. b = e \<Longrightarrow> P b" and "\<And>b. b < e \<Longrightarrow> P (b + 1) \<Longrightarrow> P b"
  shows "P (b :: nat)"
  using assms by (induction "e - b" arbitrary: b) auto

lemma skipBlanks_correct:
  assumes "b \<le> e" and "e \<le> length m"
  shows "skipBlanks m b e =
    Some (if list_all isspace (slice m b e) then None
          else Some (b + length (takeWhile isspace (slice m b e))))"
  using assms(1)
proof (induction b rule: range_induct)
  case (Nil b)
  then show ?case by (simp add: skipBlanks.simps)
next
  case (Cons b)
  then show ?case
    using assms(2)
    by (subst skipBlanks.simps) (simp add: rd_Some not_blank_eq slice_Cons)
qed

lemma findFirstNonDigit_correct:
  assumes "b \<le> e" and "e \<le> length m"
  shows "findFirstNonDigit m b e = Some (b + length (takeWhile isdigit (slice m b e)))"
  using assms(1)
proof (induction b rule: range_induct)
  case (Nil b)
  then show ?case by (simp add: findFirstNonDigit.simps)
next
  case (Cons b)
  then show ?case
    using assms(2)
    by (subst findFirstNonDigit.simps) (simp add: rd_Some non_digit_eq slice_Cons)
qed

section \<open>Lemmas on digit strings\<close>

lemma digits_value_Cons:
  "digits_value 10 (d # ds) = d * 10 ^ length ds + digits_value 10 ds"
  using digits_value_append [of 10 "[d]" ds] by (simp add: digits_value_def)

lemma dval_Nil [simp]: "e \<le> b \<Longrightarrow> dval m b e = 0"
  by (simp add: dval_def)

lemma dval_Cons:
  "b < e \<Longrightarrow> e \<le> length m \<Longrightarrow> dval m b e = dig (m ! b) * 10 ^ (e - Suc b) + dval m (b + 1) e"
  by (simp add: dval_def slice_Cons digits_value_Cons length_slice)

lemma dval_less:
  assumes "list_all isdigit (slice m b e)" and "e \<le> length m"
  shows "dval m b e < 10 ^ (e - b)"
proof -
  have "\<forall>d \<in> set (map dig (slice m b e)). d < 10"
    using assms(1) isdigit_dig by (auto simp: list_all_iff)
  from digits_value_less [OF this] show ?thesis
    using assms(2) by (simp add: dval_def length_slice)
qed

text \<open>The digits of the range, as a property of the memory.\<close>

definition digits_in :: "u8 list \<Rightarrow> nat \<Rightarrow> nat \<Rightarrow> bool" where
  "digits_in m b e \<longleftrightarrow> e \<le> length m \<and> (\<forall>i. b \<le> i \<and> i < e \<longrightarrow> isdigit (m ! i))"

lemma digits_in_slice: "e \<le> length m \<Longrightarrow> digits_in m b e \<longleftrightarrow> list_all isdigit (slice m b e)"
proof -
  assume e: "e \<le> length m"
  have "list_all isdigit (slice m b e) \<longleftrightarrow> (\<forall>i < e - b. isdigit (m ! (b + i)))"
    using e by (auto simp: list_all_length length_slice slice_def)
  also have "\<dots> \<longleftrightarrow> (\<forall>i. b \<le> i \<and> i < e \<longrightarrow> isdigit (m ! i))"
  proof (intro iffI allI impI)
    fix i
    assume "\<forall>i < e - b. isdigit (m ! (b + i))" and i: "b \<le> i \<and> i < e"
    then have "i - b < e - b \<longrightarrow> isdigit (m ! (b + (i - b)))" by blast
    with i show "isdigit (m ! i)" by (simp add: diff_less_mono)
  qed auto
  finally show "digits_in m b e \<longleftrightarrow> list_all isdigit (slice m b e)"
    using e by (simp add: digits_in_def)
qed

lemma digits_in_mono: "digits_in m b e \<Longrightarrow> b \<le> b' \<Longrightarrow> digits_in m b' e"
  by (auto simp: digits_in_def)

lemma digits_inD: "digits_in m b e \<Longrightarrow> b \<le> i \<Longrightarrow> i < e \<Longrightarrow> isdigit (m ! i) \<and> i < length m"
  by (auto simp: digits_in_def)

lemma dval_bound: "digits_in m b e \<Longrightarrow> dval m b e < 10 ^ (e - b)"
  using dval_less [of m b e] digits_in_slice [of e m b] by (auto simp: digits_in_def)

lemma dval_step: "digits_in m b e \<Longrightarrow> b < e \<Longrightarrow> dval m b e = dig (m ! b) * 10 ^ (e - Suc b) + dval m (Suc b) e"
  using dval_Cons by (auto simp: digits_in_def)

lemma dval_step4:
  assumes "digits_in m b e" and "b + 4 \<le> e"
  shows "dval m b e = (dig (m ! b) * 1000 + dig (m ! (b + 1)) * 100 + dig (m ! (b + 2)) * 10 + dig (m ! (b + 3)))
    * 10 ^ (e - (b + 4)) + dval m (b + 4) e"
proof -
  obtain k where k: "e = b + 4 + k" using assms(2) le_Suc_ex by blast
  have step: "dval m b' e = dig (m ! b') * 10 ^ (e - Suc b') + dval m (Suc b') e" if "b \<le> b'" "b' < e" for b'
    using that dval_step [OF digits_in_mono [OF assms(1) that(1)]] by simp
  have "e - Suc b = k + 3" "e - Suc (b + 1) = k + 2" "e - Suc (b + 2) = k + 1" "e - Suc (b + 3) = k"
    "e - (b + 4) = k" using k by simp_all
  moreover have "Suc b = b + 1" "Suc (b + 1) = b + 2" "Suc (b + 2) = b + 3" "Suc (b + 3) = b + 4" by simp_all
  moreover have "(10::nat) ^ (k + 3) = 1000 * 10 ^ k" "(10::nat) ^ (k + 2) = 100 * 10 ^ k" "(10::nat) ^ (k + 1) = 10 * 10 ^ k"
    by (simp_all add: power_add)
  moreover have "dval m b e = dig (m ! b) * 10 ^ (e - Suc b) + dval m (Suc b) e"
    "dval m (b + 1) e = dig (m ! (b + 1)) * 10 ^ (e - Suc (b + 1)) + dval m (Suc (b + 1)) e"
    "dval m (b + 2) e = dig (m ! (b + 2)) * 10 ^ (e - Suc (b + 2)) + dval m (Suc (b + 2)) e"
    "dval m (b + 3) e = dig (m ! (b + 3)) * 10 ^ (e - Suc (b + 3)) + dval m (Suc (b + 3)) e"
    by (rule step; simp add: k)+
  ultimately have "dval m b e = dig (m ! b) * (1000 * 10 ^ k) + (dig (m ! (b + 1)) * (100 * 10 ^ k)
    + (dig (m ! (b + 2)) * (10 * 10 ^ k) + (dig (m ! (b + 3)) * 10 ^ k + dval m (b + 4) e)))"
    by (simp only:)
  then show ?thesis
    unfolding \<open>e - (b + 4) = k\<close> by (simp add: algebra_simps)
qed

lemma cast_unsigned: "\<not> is_signed u \<Longrightarrow> cast u x = x mod 2 ^ width u"
  by (simp add: cast_def lim_min_def)

lemma digitLoop_correct:
  assumes "\<not> is_signed u" and "digits_in m b e" and "b \<le> e" and "r mod 2 ^ width u = r"
  shows "\<exists>b' r'. digitLoop u m b e r = Some (Inr (b', r')) \<and> b \<le> b' \<and> b' \<le> e \<and> e - b' < 4
    \<and> r' mod 2 ^ width u = r'
    \<and> (r' * 10 ^ (e - b') + int (dval m b' e)) mod 2 ^ width u
      = (r * 10 ^ (e - b) + int (dval m b e)) mod 2 ^ width u"
  using assms(2-4)
proof (induction "e - b" arbitrary: b r rule: less_induct)
  case less
  show ?case
  proof (cases "b + 4 \<le> e")
    case False
    then show ?thesis
      using less.prems by (subst digitLoop.simps) auto
  next
    case True
    define sum where "sum = dig (m ! b) * 1000 + dig (m ! (b + 1)) * 100 + dig (m ! (b + 2)) * 10 + dig (m ! (b + 3))"
    have ds: "isdigit (m ! b)" "isdigit (m ! (b + 1))" "isdigit (m ! (b + 2))" "isdigit (m ! (b + 3))"
      "b + 3 < length m"
      using digits_inD [OF less.prems(1)] True by simp_all
    then have "dig (m ! b) < 10" "dig (m ! (b + 1)) < 10" "dig (m ! (b + 2)) < 10" "dig (m ! (b + 3)) < 10"
      by (simp_all add: isdigit_dig)
    then have "\<not> sum \<ge> OOR" by (simp add: sum_def OOR_def)
    define r1 where "r1 = cast u (cast u (r * cast u 10000) + cast u (int sum))"
    have eq: "digitLoop u m b e r = digitLoop u m (b + 4) e r1"
      using True ds \<open>\<not> sum \<ge> OOR\<close>
      by (subst digitLoop.simps) (simp add: rd_Some shift_digit Let_def sum_def r1_def)
    have r1: "r1 = (r * 10000 + int sum) mod 2 ^ width u"
      unfolding r1_def cast_unsigned [OF assms(1)] by (simp add: mod_simps)
    have IH: "\<exists>b' r'. digitLoop u m (b + 4) e r1 = Some (Inr (b', r')) \<and> b + 4 \<le> b' \<and> b' \<le> e \<and> e - b' < 4
      \<and> r' mod 2 ^ width u = r' \<and> (r' * 10 ^ (e - b') + int (dval m b' e)) mod 2 ^ width u
        = (r1 * 10 ^ (e - (b + 4)) + int (dval m (b + 4) e)) mod 2 ^ width u"
      using less.hyps [of "b + 4" r1] less.prems(1) True digits_in_mono [of m b e "b + 4"] r1 by simp
    have "(r1 * 10 ^ (e - (b + 4)) + int (dval m (b + 4) e)) mod 2 ^ width u
      = ((r * 10000 + int sum) * 10 ^ (e - (b + 4)) + int (dval m (b + 4) e)) mod 2 ^ width u"
      unfolding r1 by (intro mod_add_cong mod_mult_left_eq refl)
    also have "(r * 10000 + int sum) * 10 ^ (e - (b + 4)) + int (dval m (b + 4) e)
      = r * 10 ^ (e - b) + int (dval m b e)"
    proof -
      have "(10::int) ^ (e - b) = 10000 * 10 ^ (e - (b + 4))"
        using True power_add [of "10::int" 4 "e - (b + 4)"] by simp
      moreover have "dval m b e = sum * 10 ^ (e - (b + 4)) + dval m (b + 4) e"
        using dval_step4 [OF less.prems(1) True] by (simp only: sum_def)
      ultimately show ?thesis by (simp add: algebra_simps)
    qed
    finally have step: "(r1 * 10 ^ (e - (b + 4)) + int (dval m (b + 4) e)) mod 2 ^ width u
      = (r * 10 ^ (e - b) + int (dval m b e)) mod 2 ^ width u" .
    from IH obtain b' r' where "digitLoop u m (b + 4) e r1 = Some (Inr (b', r'))" "b + 4 \<le> b'" "b' \<le> e"
      "e - b' < 4" "r' mod 2 ^ width u = r'" "(r' * 10 ^ (e - b') + int (dval m b' e)) mod 2 ^ width u
        = (r1 * 10 ^ (e - (b + 4)) + int (dval m (b + 4) e)) mod 2 ^ width u"
      by (elim exE conjE)
    then show ?thesis
      unfolding eq step by (intro exI [of _ b'] exI [of _ r']) (simp only:, simp)
  qed
qed


lemma digitTail_correct:
  assumes "\<not> is_signed u" and "digits_in m b e" and "b \<le> e" and "e - b < 4" and "sz \<noteq> 0"
    and "r mod 2 ^ width u = r"
  shows "digitTail u m b e r sz = Some (Inr ((r * 10 ^ (e - b) + int (dval m b e)) mod 2 ^ width u))"
proof -
  have d: "isdigit (m ! i) \<and> i < length m" if "b \<le> i" "i < e" for i
    using digits_inD [OF assms(2) that] .
  have dig: "dig (m ! i) < 10" if "b \<le> i" "i < e" for i
    using isdigit_dig d that by blast
  have step: "dval m b' e = dig (m ! b') * 10 ^ (e - Suc b') + dval m (Suc b') e" if "b \<le> b'" "b' < e" for b'
    using that dval_step [OF digits_in_mono [OF assms(2) that(1)]] by simp
  consider "e = b" | "e = b + 1" | "e = b + 2" | "e = b + 3"
    using assms(3,4) by linarith
  then show ?thesis
  proof cases
    case 1
    with assms(5,6) show ?thesis by (simp add: digitTail_def)
  next
    case 2
    with d [of b] dig [of b] step [of b] show ?thesis
      by (simp add: digitTail_def rd_Some shift_digit OOR_def cast_unsigned [OF assms(1)] mult.commute)
  next
    case 3
    with d [of b] d [of "b + 1"] dig [of b] dig [of "b + 1"] step [of b] step [of "b + 1"] show ?thesis
      by (simp add: digitTail_def rd_Some shift_digit Let_def OOR_def cast_unsigned [OF assms(1)] mult.commute)
  next
    case 4
    with d [of b] d [of "b + 1"] d [of "b + 2"] dig [of b] dig [of "b + 1"] dig [of "b + 2"]
      step [of b] step [of "b + 1"] step [of "b + 2"] show ?thesis
      by (simp add: digitTail_def rd_Some shift_digit Let_def OOR_def cast_unsigned [OF assms(1)] mult.commute add.assoc)
  qed
qed

lemma skipZeros_correct:
  assumes "b \<le> e" and "digits_in m b e"
  shows "skipZeros m b e = Some (Inl ()) \<and> dval m b e = 0
    \<or> (\<exists>b'. skipZeros m b e = Some (Inr b') \<and> b \<le> b' \<and> b' < e \<and> m ! b' \<noteq> 48 \<and> dval m b' e = dval m b e)"
  using assms
proof (induction b rule: range_induct)
  case (Nil b)
  then show ?case by (simp add: skipZeros.simps)
next
  case (Cons b)
  have rd: "rd m b = Some (m ! b)" using digits_inD [OF Cons.prems, of b] Cons.hyps by (simp add: rd_Some)
  show ?case
  proof (cases "m ! b = 48")
    case True
    then have "dval m (b + 1) e = dval m b e"
      using Cons.hyps dval_step [OF Cons.prems] by (simp add: dig_def)
    moreover have "skipZeros m b e = skipZeros m (b + 1) e"
      using True rd Cons.hyps by (subst skipZeros.simps) simp
    ultimately show ?thesis using Cons.IH digits_in_mono [OF Cons.prems] by auto
  next
    case False
    with rd Cons.hyps show ?thesis by (subst skipZeros.simps) (auto intro!: exI [of _ b] simp: skipZeros.simps)
  qed
qed

lemma strncmp_digits:
  assumes "digits_in m b (b + n)" and "length ys = n" and "list_all isdigit ys"
  shows "\<exists>d. strncmp m b ys n = Some d \<and> (d > 0 \<longleftrightarrow> digits_value 10 (map dig ys) < dval m b (b + n))"
  using assms
proof (induction n arbitrary: b ys)
  case 0
  then show ?case by simp
next
  case (Suc n)
  then obtain y zs where ys: "ys = y # zs" "length zs = n" "isdigit y" "list_all isdigit zs" by (cases ys) auto
  define c where "c = m ! b"
  have c: "isdigit c" "rd m b = Some c"
    using digits_inD [OF Suc.prems(1), of b] by (simp_all add: c_def rd_Some)
  have rest: "digits_in m (b + 1) (b + 1 + n)" using digits_in_mono [OF Suc.prems(1), of "b + 1"] by simp
  have val: "dval m b (b + Suc n) = dig c * 10 ^ n + dval m (b + 1) (b + 1 + n)"
    using dval_step [OF Suc.prems(1)] by (simp add: c_def)
  have low: "dval m (b + 1) (b + 1 + n) < 10 ^ n" using dval_bound [OF rest] by simp
  have ylow: "digits_value 10 (map dig zs) < 10 ^ n"
    using digits_value_less [of "map dig zs" 10] ys isdigit_dig by (auto simp: list_all_iff)
  have cy: "c < y \<longleftrightarrow> dig c < dig y" "y < c \<longleftrightarrow> dig y < dig c" "c \<noteq> 0"
    using isdigit_dig [OF c(1)] isdigit_dig [OF ys(3)] by (auto simp: word_less_nat_alt)
  have mono: "x * 10 ^ n + a < z * 10 ^ n + b'" if "x < z" "a < 10 ^ n" for x z a b' :: nat
  proof -
    have "(x + 1) * 10 ^ n \<le> z * 10 ^ n" using that(1) by (intro mult_right_mono) auto
    then show ?thesis using that(2) by simp
  qed
  consider "c < y" | "y < c" | "c = y" by (metis linorder_neqE)
  then show ?case
  proof cases
    case 1
    then have "dig c < dig y" by (simp add: cy)
    from mono [OF this low] have "\<not> digits_value 10 (map dig ys) < dval m b (b + Suc n)"
      unfolding val ys by (simp add: digits_value_Cons ys(2) not_less less_imp_le)
    with 1 c(2) ys show ?thesis by simp
  next
    case 2
    then have "dig y < dig c" by (simp add: cy)
    from mono [OF this ylow] have "digits_value 10 (map dig ys) < dval m b (b + Suc n)"
      unfolding val ys by (simp add: digits_value_Cons ys(2))
    with 2 c(2) ys less_asym [OF 2] show ?thesis by simp
  next
    case 3
    with Suc.IH [OF rest ys(2,4)] c cy(3) ys val show ?thesis
      by (simp add: digits_value_Cons)
  qed
qed


lemma MaxString_correct:
  assumes "integral u"
  shows "list_all isdigit (ascii (MaxString (width u)))"
    "int (digits_value 10 (map dig (ascii (MaxString (width u))))) = 2 ^ width u - 1"
    "is_size 10 (2 ^ width u - 1) (length (ascii (MaxString (width u))))"
  using assms
  by (auto simp: integral_def MaxString_def ascii_def isdigit_def dig_def digits_value_def is_size_def)

lemma digits10_correct:
  assumes "integral u" and "\<not> is_signed u"
  shows "length (ascii (MaxString (width u))) = digits10 u + 1" "10 ^ digits10 u \<le> (2::nat) ^ width u"
    "(2::nat) ^ width u \<le> 10 ^ (digits10 u + 1)" "digits10 u < 100"
proof -
  have max: "nat (lim_max u) = 2 ^ width u - 1"
    using assms(2) by (simp add: lim_max_def nat_diff_distrib nat_power_eq)
  have s: "is_size 10 (2 ^ width u - 1) (digits10 u + 1)"
    using to_ascii_powers_size_correct [of 10 "2 ^ width u - 1"]
    by (auto simp: digits10_def max is_size_def)
  show len: "length (ascii (MaxString (width u))) = digits10 u + 1"
    using is_size_unique [OF two_le_ten MaxString_correct(3) [OF assms(1)] s] .
  have "(2::nat) \<le> 2 ^ width u" using assms(1) by (auto simp: integral_def)
  with s show "10 ^ digits10 u \<le> (2::nat) ^ width u" "(2::nat) ^ width u \<le> 10 ^ (digits10 u + 1)"
    by (auto simp: is_size_def)
  have "length (ascii (MaxString (width u))) \<le> 39"
    by (simp add: MaxString_def ascii_def)
  then show "digits10 u < 100" by (simp add: len)
qed

lemma ptr_size_eq: "b \<le> e \<Longrightarrow> e < 2 ^ 64 \<Longrightarrow> ptr_size b e = e - b"
proof -
  assume "b \<le> e" "e < 2 ^ 64"
  then have "e + 2 ^ 64 - b = (e - b) + 2 ^ 64" "e - b < 2 ^ 64" by auto
  then show ?thesis by (simp only: ptr_size_def mod_add_self2 mod_less)
qed

lemma leading_digit_ge:
  assumes "digits_in m b e" and "b < e" and "m ! b \<noteq> 48"
  shows "10 ^ (e - Suc b) \<le> dval m b e"
proof -
  have "isdigit (m ! b)" using digits_inD [OF assms(1), of b] assms(2) by simp
  then have "unat (m ! b) \<noteq> 48 \<Longrightarrow> 1 \<le> dig (m ! b)" by (auto simp: isdigit_unat dig_def)
  moreover have "unat (m ! b) \<noteq> 48" using assms(3) by (simp add: word_unat_eq_iff)
  ultimately have "1 * 10 ^ (e - Suc b) \<le> dig (m ! b) * 10 ^ (e - Suc b)" by (intro mult_right_mono) auto
  then show ?thesis using dval_step [OF assms(1,2)] by linarith
qed

text \<open>The last part of the overflow check, at the first digit that is not a zero.\<close>

lemma overflow_compare:
  assumes "integral u" and "\<not> is_signed u" and "digits_in m b e" and "b < e" and "m ! b \<noteq> 48"
  shows "e - b = digits10 u + 1 \<Longrightarrow>
      \<exists>d. strncmp m b (ascii (MaxString (width u))) (e - b) = Some d \<and> (d > 0 \<longleftrightarrow> 2 ^ width u \<le> dval m b e)"
    "digits10 u + 1 < e - b \<Longrightarrow> 2 ^ width u \<le> dval m b e"
proof -
  assume len: "e - b = digits10 u + 1"
  note ms = MaxString_correct(1,2) [OF assms(1)] digits10_correct(1) [OF assms(1,2)]
  have "b + (e - b) = e" using assms(4) by simp
  then have "\<exists>d. strncmp m b (ascii (MaxString (width u))) (e - b) = Some d
    \<and> (d > 0 \<longleftrightarrow> digits_value 10 (map dig (ascii (MaxString (width u)))) < dval m b e)"
    using strncmp_digits [of m b "e - b" "ascii (MaxString (width u))"] assms(3) ms(1,3) len by simp
  moreover have "digits_value 10 (map dig (ascii (MaxString (width u)))) < dval m b e \<longleftrightarrow> 2 ^ width u \<le> dval m b e"
  proof -
    have "int (digits_value 10 (map dig (ascii (MaxString (width u))))) + 1 = int (2 ^ width u)"
      using ms(2) by simp
    then have "digits_value 10 (map dig (ascii (MaxString (width u)))) + 1 = 2 ^ width u" by linarith
    then show ?thesis by linarith
  qed
  ultimately show "\<exists>d. strncmp m b (ascii (MaxString (width u))) (e - b) = Some d \<and> (d > 0 \<longleftrightarrow> 2 ^ width u \<le> dval m b e)"
    by simp
next
  assume "digits10 u + 1 < e - b"
  then have "(10::nat) ^ (digits10 u + 1) \<le> 10 ^ (e - Suc b)" by (intro power_increasing) auto
  then show "2 ^ width u \<le> dval m b e"
    using digits10_correct(3) [OF assms(1,2)] leading_digit_ge [OF assms(3-5)] by linarith
qed

lemma small_no_overflow:
  assumes "integral u" and "\<not> is_signed u" and "digits_in m b e" and "e - b \<le> digits10 u"
  shows "dval m b e < 2 ^ width u"
proof -
  have "dval m b e < 10 ^ (e - b)" by (rule dval_bound [OF assms(3)])
  also have "\<dots> \<le> 10 ^ digits10 u" using assms(4) by (intro power_increasing) auto
  also have "\<dots> \<le> 2 ^ width u" by (rule digits10_correct(2) [OF assms(1,2)])
  finally show ?thesis .
qed

lemma overflowCompare_correct:
  assumes "integral t" and "digits_in m b e" and "b < e" and "e < 2 ^ 64" and "m ! b \<noteq> 48"
  shows "overflowCompare t neg m b e =
    Some (if 2 ^ width t \<le> dval m b e then Inl (Inl (sgn_overflow t neg)) else Inr b)"
proof -
  define u where "u = make_unsigned t"
  have u: "integral u" "\<not> is_signed u" "width u = width t" using assms(1) by (simp_all add: u_def)
  have ps: "ptr_size b e = e - b" using ptr_size_eq [of b e] assms(3,4) by simp
  note def = overflowCompare_def [of t neg m b e, unfolded u_def [symmetric] ps Let_def u(3)]
  consider "e - b \<le> digits10 u" | "e - b = digits10 u + 1" | "digits10 u + 1 < e - b" by linarith
  then show ?thesis
  proof cases
    case 1
    with small_no_overflow [OF u(1,2) assms(2)] show ?thesis by (simp add: def u(3))
  next
    case 2
    then obtain d where "strncmp m b (ascii (MaxString (width t))) (e - b) = Some d"
      "d > 0 \<longleftrightarrow> 2 ^ width t \<le> dval m b e"
      using overflow_compare(1) [OF u(1,2) assms(2,3,5)] u(3) by auto
    with 2 show ?thesis unfolding def by (simp del: strncmp.simps)
  next
    case 3
    with overflow_compare(2) [OF u(1,2) assms(2,3,5)] show ?thesis by (simp add: def u(3))
  qed
qed

lemma overflowCheck_correct:
  assumes "integral t" and "digits_in m b e" and "b < e" and "e < 2 ^ 64"
  shows "2 ^ width t \<le> dval m b e \<and> overflowCheck t neg m b e = Some (Inl (Inl (sgn_overflow t neg)))
    \<or> dval m b e = 0 \<and> overflowCheck t neg m b e = Some (Inl (Inr 0))
    \<or> dval m b e < 2 ^ width t
      \<and> (\<exists>b'. overflowCheck t neg m b e = Some (Inr b') \<and> b \<le> b' \<and> b' < e \<and> dval m b' e = dval m b e)"
proof -
  have rdb: "rd m b = Some (m ! b)" using digits_inD [OF assms(2), of b] assms(3) by (simp add: rd_Some)
  have ps: "ptr_size b e = e - b" using ptr_size_eq [of b e] assms(3,4) by simp
  note cmp = overflowCompare_correct [OF assms(1) digits_in_mono [OF assms(2)] _ assms(4), of _ neg]
  note oc = overflowCheck_def [of t neg m b e, unfolded ps]
  consider "e - b \<le> digits10 (make_unsigned t)" | "digits10 (make_unsigned t) < e - b" "m ! b \<noteq> 48"
    | "digits10 (make_unsigned t) < e - b" "m ! b = 48" by linarith
  then show ?thesis
  proof cases
    case 1
    with small_no_overflow [of "make_unsigned t" m b e] assms show ?thesis by (auto simp: oc)
  next
    case 2
    with rdb assms(3) cmp [of b] show ?thesis by (simp add: oc)
  next
    case 3
    have "dval m (b + 1) e = dval m b e" using dval_step [OF assms(2,3)] 3(2) by (simp add: dig_def)
    with skipZeros_correct [of "b + 1" e m] digits_in_mono [OF assms(2), of "b + 1"] assms(3)
    consider "skipZeros m (b + 1) e = Some (Inl ())" "dval m b e = 0"
      | b' where "skipZeros m (b + 1) e = Some (Inr b')" "b \<le> b'" "b' < e" "m ! b' \<noteq> 48" "dval m b' e = dval m b e"
      by (auto dest: Suc_leD)
    then show ?thesis
    proof cases
      case 1
      with 3 rdb assms(3) show ?thesis by (simp add: oc)
    next
      case 2
      with 3 rdb assms(3) cmp [OF 2(2-4)] show ?thesis by (auto simp: oc)
    qed
  qed
qed


text \<open>A number read from digits, with its sign, as a value of the type or the right overflow.\<close>

definition number_result :: "ctype \<Rightarrow> bool \<Rightarrow> nat \<Rightarrow> int expected" where
  "number_result t negative v =
     (let x = (if negative then - int v else int v) in
      if in_range t x then Inr x else Inl (if negative then NEGATIVE_OVERFLOW else POSITIVE_OVERFLOW))"

lemma sgn_finalize_correct:
  assumes "integral t" and "v < 2 ^ width t" and "negative \<longrightarrow> is_signed t"
  shows "sgn_finalize t negative (int v) = number_result t negative v"
proof -
  define h :: int where "h = 2 ^ (width t - 1)"
  have w: "0 < width t" using integral_width [OF assms(1)] .
  then have p: "(2::int) ^ width t = 2 * h" by (cases "width t") (simp_all add: h_def)
  have h: "0 < h" by (simp add: h_def)
  have "int v < int (2 ^ width t)" using assms(2) by (simp only: of_nat_less_iff)
  then have v: "int v < 2 * h" using p by simp
  show ?thesis
  proof (cases "is_signed t")
    case False
    with assms(3) v p show ?thesis
      by (simp add: sgn_finalize_def number_result_def in_range_def lim_defs)
  next
    case True
    have lims: "lim_min t = - h" "lim_max t = h - 1" using True by (simp_all add: lim_defs h_def)
    have ct: "cast t x = (x + h) mod (2 * h) - h" for x by (simp add: cast_def lims p)
    show ?thesis
    proof (cases negative)
      case neg: True
      have "cast t (cast (make_unsigned t) (- int v)) = cast t (- int v)"
        by (simp add: ct cast_def lim_min_def p mod_simps)
      also have "\<dots> = (if int v \<le> h then - int v else 2 * h - int v)"
      proof (cases "int v \<le> h")
        case True
        with h show ?thesis by (simp add: ct)
      next
        case False
        have "(- int v + h) mod (2 * h) = (- int v + h + 2 * h) mod (2 * h)" by (rule mod_add_self2 [symmetric])
        also have "\<dots> = - int v + h + 2 * h" using False v h by (intro mod_pos_pos_trivial) simp_all
        finally show ?thesis using False by (simp add: ct)
      qed
      finally show ?thesis
        using True neg v h by (auto simp: sgn_finalize_def number_result_def Let_def in_range_def lims)
    next
      case False
      have "cast t (int v) = (if int v < h then int v else int v - 2 * h)"
      proof (cases "int v < h")
        case True
        with h show ?thesis by (simp add: ct)
      next
        case False
        have "(int v + h) mod (2 * h) = (int v - h + 2 * h) mod (2 * h)" by (simp add: add.commute)
        also have "\<dots> = (int v - h) mod (2 * h)" by (rule mod_add_self2)
        also have "\<dots> = int v - h" using False v h by (intro mod_pos_pos_trivial) simp_all
        finally show ?thesis using False by (simp add: ct)
      qed
      then show ?thesis
        using True False v h by (auto simp: sgn_finalize_def number_result_def Let_def in_range_def lims)
    qed
  qed
qed

lemma number_result_overflow:
  assumes "integral t" and "2 ^ width t \<le> v" and "negative \<longrightarrow> is_signed t"
  shows "number_result t negative v = Inl (sgn_overflow t negative)"
proof -
  have pw: "(2::int) ^ (width t - 1) < 2 ^ width t"
    using integral_width [OF assms(1)] by (intro power_strict_increasing) auto
  moreover have "int (2 ^ width t) \<le> int v" using assms(2) by (simp only: of_nat_le_iff)
  then have "2 ^ width t \<le> int v" by simp
  moreover have "lim_max t \<le> 2 ^ width t - 1"
  proof (cases "is_signed t")
    case True
    then have "lim_max t = 2 ^ (width t - 1) - 1" by (simp add: lim_max_def)
    with pw show ?thesis by linarith
  qed (simp add: lim_max_def)
  moreover have "- (2 ^ (width t - 1)) \<le> lim_min t" by (simp add: lim_min_def)
  ultimately have "lim_max t < int v" "is_signed t \<longrightarrow> - int v < lim_min t" by linarith+
  then show ?thesis
    using assms(3) by (auto simp: number_result_def sgn_overflow_def in_range_def)
qed

lemma digits_core_correct:
  assumes "integral t" and "digits_in m b e" and "b < e" and "e < 2 ^ 64" and "negative \<longrightarrow> is_signed t"
  shows "digits_core t negative m b e = Some (number_result t negative (dval m b e))"
  using overflowCheck_correct [OF assms(1-4), of negative]
proof (elim disjE conjE exE)
  assume "2 ^ width t \<le> dval m b e" "overflowCheck t negative m b e = Some (Inl (Inl (sgn_overflow t negative)))"
  then show ?thesis using number_result_overflow [OF assms(1) _ assms(5)] by (simp add: digits_core_def)
next
  assume "dval m b e = 0" "overflowCheck t negative m b e = Some (Inl (Inr 0))"
  then show ?thesis by (simp add: digits_core_def number_result_def)
next
  fix b'
  assume small: "dval m b e < 2 ^ width t" and oc: "overflowCheck t negative m b e = Some (Inr b')"
    and b': "b \<le> b'" "b' < e" and eq: "dval m b' e = dval m b e"
  have di: "digits_in m b' e" using digits_in_mono [OF assms(2) b'(1)] .
  obtain b'' r where l: "digitLoop (make_unsigned t) m b' e 0 = Some (Inr (b'', r))" "b' \<le> b''" "b'' \<le> e" "e - b'' < 4"
    "r mod 2 ^ width t = r" "(r * 10 ^ (e - b'') + int (dval m b'' e)) mod 2 ^ width t = int (dval m b' e) mod 2 ^ width t"
    using digitLoop_correct [OF _ di, of "make_unsigned t" 0] b'(2) by auto
  have "ptr_size b' e \<noteq> 0" using ptr_size_eq [of b' e] b'(2) assms(4) by simp
  then have "digitTail (make_unsigned t) m b'' e r (ptr_size b' e) = Some (Inr (int (dval m b' e) mod 2 ^ width t))"
    using digitTail_correct [OF _ digits_in_mono [OF di l(2)] l(3,4), of "make_unsigned t" _ r] l(5,6) by simp
  moreover have "int (dval m b' e) mod 2 ^ width t = int (dval m b e)"
  proof -
    have "int (dval m b e) < int (2 ^ width t)" using small by (simp only: of_nat_less_iff)
    then show ?thesis by (simp add: eq)
  qed
  ultimately show ?thesis
    using oc l(1) sgn_finalize_correct [OF assms(1) small assms(5)] by (simp add: digits_core_def)
qed


section \<open>Parsing against a reference\<close>

text \<open>
  The reference reads a string in the obvious way: white space, an optional sign for a signed
  type, as many digits as there are; then the value has to lie in the type. The result comes
  with the number of characters consumed.
\<close>

definition parse_sign :: "ctype \<Rightarrow> u8 \<Rightarrow> (bool \<times> nat) expected" where
  "parse_sign t c =
     (if \<not> is_signed t \<or> isdigit c then Inr (False, 0)
      else if c = 45 then Inr (True, 1) else if c = 43 then Inr (False, 1)
      else Inl INVALID_LEADING_CHAR)"

definition parse_spec :: "ctype \<Rightarrow> u8 list \<Rightarrow> int expected \<times> nat" where
  "parse_spec t s =
     (let k = length (takeWhile isspace s); s1 = drop k s in
      if s1 = [] then (Inl EMPTY_INPUT_STRING, 0)
      else case parse_sign t (hd s1) of
        Inl err \<Rightarrow> (Inl err, 0)
      | Inr (negative, j) \<Rightarrow>
          (let s2 = drop j s1; ds = takeWhile isdigit s2 in
           if s2 = [] then (Inl NO_DIGITS, 0)
           else if ds = [] then (Inl NON_DIGIT_CHAR, 0)
           else case number_result t negative (digits_value 10 (map dig ds)) of
             Inl err \<Rightarrow> (Inl err, 0)
           | Inr x \<Rightarrow> (Inr x, k + j + length ds)))"

lemma drop_slice: "drop k (slice m b e) = slice m (b + k) e"
  by (simp add: slice_def drop_take add.commute)

lemma take_slice: "b + k \<le> e \<Longrightarrow> take k (slice m b e) = slice m b (b + k)"
  by (simp add: slice_def min_def)

lemma hd_slice: "b < e \<Longrightarrow> e \<le> length m \<Longrightarrow> hd (slice m b e) = m ! b"
  by (simp add: slice_Cons)

lemma slice_eq_Nil: "e \<le> length m \<Longrightarrow> slice m b e = [] \<longleftrightarrow> e \<le> b"
  by (auto simp: slice_def)

lemma slice_digits_run:
  assumes "b \<le> e" and "e \<le> length m" and "n = b + length (takeWhile isdigit (slice m b e))"
  shows "digits_in m b n" "slice m b n = takeWhile isdigit (slice m b e)" "n \<le> e"
proof -
  show ne: "n \<le> e"
    using length_takeWhile_le [of isdigit "slice m b e"] length_slice [OF assms(2), of b] assms(1,3) by simp
  show sl: "slice m b n = takeWhile isdigit (slice m b e)"
    using take_slice [of b "n - b" e m] ne assms(3) takeWhile_eq_take [of isdigit "slice m b e"] by simp
  show "digits_in m b n"
    using digits_in_slice [of n m b] ne assms(2) sl by (simp add: list_all_iff) (meson set_takeWhileD)
qed

lemma sgn_init_eq:
  assumes "b < length m"
  shows "sgn_init t m b =
    Some (case parse_sign t (m ! b) of Inl err \<Rightarrow> Inl err | Inr (neg, j) \<Rightarrow> Inr (neg, b + j))"
  using assms by (auto simp: sgn_init_def parse_sign_def rd_Some)

lemma parse_sign_signed: "parse_sign t c = Inr (neg, j) \<Longrightarrow> (neg \<longrightarrow> is_signed t) \<and> (\<not> is_signed t \<longrightarrow> j = 0)"
  by (auto simp: parse_sign_def split: if_splits)

text \<open>The digits after the sign.\<close>

lemma unsigned_digits_finalize:
  assumes "integral t" and "digits_in m b n" and "b < n" and "n < 2 ^ 64" and "neg \<longrightarrow> is_signed t"
  shows "\<exists>tmp. digits_to (make_unsigned t) m b n = Some tmp
    \<and> (case tmp of Inl err \<Rightarrow> Inl (if err = POSITIVE_OVERFLOW then sgn_overflow t neg else err)
       | Inr v \<Rightarrow> sgn_finalize t neg v) = number_result t neg (dval m b n)"
proof -
  have core: "digits_to (make_unsigned t) m b n = Some (number_result (make_unsigned t) False (dval m b n))"
    using digits_core_correct [of "make_unsigned t" m b n False] assms(1-4)
    by (simp add: digits_to_def sgn_init_def)
  show ?thesis
  proof (cases "dval m b n < 2 ^ width t")
    case True
    then have "int (dval m b n) < int (2 ^ width t)" by (simp only: of_nat_less_iff)
    then have "number_result (make_unsigned t) False (dval m b n) = Inr (int (dval m b n))"
      by (simp add: number_result_def in_range_def lim_defs)
    with core sgn_finalize_correct [OF assms(1) True assms(5)] show ?thesis by simp
  next
    case False
    then have "number_result (make_unsigned t) False (dval m b n) = Inl POSITIVE_OVERFLOW"
      using number_result_overflow [of "make_unsigned t" "dval m b n" False] assms(1)
      by (simp add: sgn_overflow_def)
    with core number_result_overflow [OF assms(1) _ assms(5)] False show ?thesis by simp
  qed
qed

lemma str_to_integral_correct:
  assumes "integral t" and "b \<le> past" and "past \<le> length m" and "past < 2 ^ 64"
  shows "str_to_integral t m b past =
    Some (fst (parse_spec t (slice m b past)), b + snd (parse_spec t (slice m b past)))"
proof -
  define k where "k = length (takeWhile isspace (slice m b past))"
  define b1 where "b1 = b + k"
  have s1: "drop k (slice m b past) = slice m b1 past" by (simp add: drop_slice b1_def)
  note spec = parse_spec_def [of t "slice m b past", unfolded Let_def k_def [symmetric] s1]
  have skip: "skipBlanks m b past = Some (if past \<le> b1 then None else Some b1)"
  proof -
    have "list_all isspace (slice m b past) \<longleftrightarrow> slice m b1 past = []"
      using s1 dropWhile_eq_drop [of isspace "slice m b past"] dropWhile_eq_Nil_conv [of isspace "slice m b past"]
      by (simp add: k_def list_all_iff)
    then show ?thesis
      using skipBlanks_correct [OF assms(2,3)] slice_eq_Nil [OF assms(3), of b1] by (simp add: b1_def k_def)
  qed
  show ?thesis
  proof (cases "past \<le> b1")
    case True
    with skip show ?thesis by (simp add: str_to_integral_def spec)
  next
    case False
    then have b1: "b1 < past" "b1 < length m" "slice m b1 past \<noteq> []" "hd (slice m b1 past) = m ! b1"
      using assms(3) slice_eq_Nil [OF assms(3), of b1] hd_slice [of b1 past m] by auto
    show ?thesis
    proof (cases "parse_sign t (m ! b1)")
      case (Inl err)
      with skip False b1 show ?thesis by (simp add: str_to_integral_def spec sgn_init_eq)
    next
      case (Inr p)
      obtain neg j where p: "p = (neg, j)" by (cases p)
      note sg = parse_sign_signed [OF Inr [unfolded p]]
      define b2 where "b2 = b1 + j"
      have s2: "drop j (slice m b1 past) = slice m b2 past" by (simp add: drop_slice b2_def)
      define n where "n = b2 + length (takeWhile isdigit (slice m b2 past))"
      have spec2: "parse_spec t (slice m b past) =
          (if slice m b2 past = [] then (Inl NO_DIGITS, 0)
           else if takeWhile isdigit (slice m b2 past) = [] then (Inl NON_DIGIT_CHAR, 0)
           else case number_result t neg (digits_value 10 (map dig (takeWhile isdigit (slice m b2 past)))) of
             Inl err \<Rightarrow> (Inl err, 0)
           | Inr x \<Rightarrow> (Inr x, k + j + length (takeWhile isdigit (slice m b2 past))))"
        using b1(3) by (simp only: spec b1(4) Inr p sum.case prod.case s2 if_False)
      consider "past \<le> b2" | "b2 < past" "\<not> isdigit (m ! b2)" | "b2 < past" "isdigit (m ! b2)" by linarith
      then show ?thesis
      proof cases
        case 1
        with sg b1(1) have "is_signed t" by (auto simp: b2_def)
        with 1 skip False b1 Inr p show ?thesis
          by (simp add: str_to_integral_def spec2 sgn_init_eq b2_def [symmetric])
      next
        case 2
        then have "takeWhile isdigit (slice m b2 past) = []" "slice m b2 past \<noteq> []" "b2 < length m"
          using assms(3) by (simp_all add: slice_Cons)
        with 2 skip False b1 Inr p show ?thesis
          by (simp add: str_to_integral_def spec2 sgn_init_eq b2_def [symmetric] rd_Some)
      next
        case 3
        then have ff: "findFirstNonDigit m (b2 + 1) past = Some n" and b2: "b2 < n" "b2 < length m" "slice m b2 past \<noteq> []"
          using findFirstNonDigit_correct [of "b2 + 1" past m] assms(3) by (simp_all add: n_def slice_Cons)
        note run = slice_digits_run [OF less_imp_le [OF 3(1)] assms(3) n_def]
        have "n < 2 ^ 64" using run(3) assms(4) by simp
        from unsigned_digits_finalize [OF assms(1) run(1) b2(1) this conjunct1 [OF sg]] obtain tmp where tmp:
          "digits_to (make_unsigned t) m b2 n = Some tmp"
          "(case tmp of Inl err \<Rightarrow> Inl (if err = POSITIVE_OVERFLOW then sgn_overflow t neg else err)
            | Inr v \<Rightarrow> sgn_finalize t neg v) = number_result t neg (dval m b2 n)" by blast
        have ds: "takeWhile isdigit (slice m b2 past) \<noteq> []" "b + (k + j + length (takeWhile isdigit (slice m b2 past))) = n"
          using 3 assms(3) by (simp_all add: slice_Cons n_def b2_def b1_def)
        have val: "digits_value 10 (map dig (takeWhile isdigit (slice m b2 past))) = dval m b2 n"
          by (simp add: dval_def run(2))
        define R where "R = number_result t neg (dval m b2 n)"
        have str: "str_to_integral t m b past = Some (R, case R of Inr _ \<Rightarrow> n | Inl _ \<Rightarrow> b)"
          using 3 skip False b1(2) Inr p ff b2(2) tmp
          by (cases tmp) (auto simp: str_to_integral_def sgn_init_eq b2_def [symmetric] rd_Some R_def [symmetric] Let_def
              split: sum.splits)
        show ?thesis
          unfolding str spec2 val R_def [symmetric] using b2(3) ds by (cases R) simp_all
      qed
    qed
  qed
qed


section \<open>Printing\<close>

lemma digit_char_decimal:
  assumes "d < 10"
  shows "isdigit (digit_char False d)" "dig (digit_char False d) = d" "\<not> isspace (digit_char False d)"
proof -
  have "d \<in> {0, 1, 2, 3, 4, 5, 6, 7, 8, 9}" using assms by auto
  then show "isdigit (digit_char False d)" "dig (digit_char False d) = d" "\<not> isspace (digit_char False d)"
    by (elim insertE emptyE; simp add: digit_char_def to_ascii_alphabet_def isdigit_def dig_def isspace_def)+
qed

definition decimal :: "int \<Rightarrow> u8 list" where
  "decimal x = (if x < 0 then [45] else []) @ numeral_string 10 False (nat \<bar>x\<bar>)"

lemma to_ascii_decimal_take:
  assumes "v < 2 ^ 64"
  shows "\<exists>n buf. to_ascii_decimal amd64 (replicate (powers_size 10) 0) v = Some (n, buf)
    \<and> take n buf = numeral_string 10 False v"
  using size_route_numeral [of 10 v amd64 False] route_writes_numeral(2) [of 10 v False "replicate (powers_size 10) 0"]
    numeral_fits(2) [of 10 v False] assms
  by (simp add: to_ascii_decimal_def to_ascii_with_arr_def)

lemma numeral_128:
  assumes "x < 2 ^ 128"
  shows "length (numeral_string 10 False x) \<le> 39"
proof -
  have "is_size 10 x (length (numeral_string 10 False x))"
    using to_ascii_powers_size_correct [of 10 x] by (simp add: numeral_string_def)
  then show ?thesis using is_size_le [of 10 x _ x 39] assms by simp
qed

lemma digitsEnough_128: "digitsEnough \<lparr>is_signed = False, width = 128\<rparr> = 39"
  using digits10_correct(1) [of "\<lparr>is_signed = False, width = 128\<rparr>"]
  by (simp add: digitsEnough_def integral_def MaxString_def ascii_def)

lemma cast_uint64_neg:
  assumes "- (2 ^ 63) \<le> x" and "x < 0"
  shows "cast uint64 (cast uint64 (- cast uint64 x - 1) + 1) = - x"
proof -
  have "cast uint64 (cast uint64 (- cast uint64 x - 1) + 1) = (- x) mod 2 ^ 64"
    by (simp add: cast_def uint64_def lim_min_def mod_simps)
  also have "\<dots> = - x" using assms by (intro mod_pos_pos_trivial) simp_all
  finally show ?thesis .
qed

lemma toAppend_correct:
  assumes "integral t" and "in_range t x"
  shows "toAppend amd64 kIsMobile t x r = Some (r @ decimal x)"
proof (cases "width t = 128")
  case True
  define us where "us = \<lparr>is_signed = False, width = 128\<rparr>"
  show ?thesis
  proof (cases "is_signed t")
    case sgn: True
    with True assms(2) have x: "- (2 ^ 127) \<le> x" "x < 2 ^ 127" by (simp_all add: in_range_def lim_defs)
    show ?thesis
    proof (cases "x < 0")
      case neg: True
      have "cast us (- cast us x) = (- x) mod 2 ^ 128"
        by (simp add: cast_def us_def lim_min_def mod_simps)
      also have "\<dots> = - x" using neg x by (intro mod_pos_pos_trivial) simp_all
      finally have c: "cast us (- cast us x) = - x" .
      have "nat (- x) < 2 ^ 128" using neg x by (simp add: nat_less_iff)
      with telescope_correct [OF this, of "replicate 39 0" amd64 kIsMobile] numeral_128 [OF this] neg c True sgn
      show ?thesis
        by (simp add: toAppend_def toAppend_int128_def us_def [symmetric] digitsEnough_128 [folded us_def] decimal_def Let_def)
    next
      case False
      have "nat x < 2 ^ 128" using False x by (simp add: nat_less_iff)
      with telescope_correct [OF this, of "0 # replicate 39 0" amd64 kIsMobile] numeral_128 [OF this] False True sgn
      show ?thesis
        by (simp add: toAppend_def toAppend_int128_def us_def [symmetric] digitsEnough_128 [folded us_def] decimal_def Let_def)
    qed
  next
    case False
    with True assms(2) have x: "0 \<le> x" "nat x < 2 ^ 128" by (simp_all add: in_range_def lim_defs nat_less_iff)
    from telescope_correct [OF x(2), of "replicate 39 0" amd64 kIsMobile] numeral_128 [OF x(2)] True False x(1)
    show ?thesis
      by (simp add: toAppend_def toAppend_uint128_def us_def [symmetric] digitsEnough_128 [folded us_def] decimal_def)
  qed
next
  case False
  with assms(1) have w: "width t = 8 \<or> width t = 16 \<or> width t = 32 \<or> width t = 64" by (auto simp: integral_def)
  show ?thesis
  proof (cases "is_signed t")
    case True
    with w assms(2) have x: "- (2 ^ 63) \<le> x" "x < 2 ^ 63" by (auto simp: in_range_def lim_defs)
    define uv where "uv = (if x < 0 then cast uint64 (cast uint64 (- cast uint64 x - 1) + 1) else cast uint64 x)"
    have "uv = \<bar>x\<bar>"
    proof (cases "x < 0")
      case neg: True
      then show ?thesis using cast_uint64_neg [OF x(1)] by (simp add: uv_def)
    next
      case pos: False
      then have "cast uint64 x = x" using x(2) by (intro cast_id) (simp_all add: in_range_def lim_defs uint64_def)
      with pos show ?thesis by (simp add: uv_def)
    qed
    moreover have "nat \<bar>x\<bar> < 2 ^ 64" using x by (simp add: nat_less_iff)
    ultimately show ?thesis
      using to_ascii_decimal_take [of "nat \<bar>x\<bar>" amd64] False True
      by (auto simp: toAppend_def toAppend_signed_def uv_def [symmetric] decimal_def Let_def)
  next
    case unsgn: False
    with w assms(2) have x: "0 \<le> x" "nat x < 2 ^ 64" by (auto simp: in_range_def lim_defs nat_less_iff)
    with to_ascii_decimal_take [OF x(2), of amd64] False unsgn show ?thesis
      by (auto simp: toAppend_def toAppend_unsigned_def decimal_def)
  qed
qed

text \<open>So a \<open>char\<close> that is a digit reads back as that digit, and not as its code.\<close>

lemma toAppend_char_digit: "toAppend_char 55 r = r @ decimal 7" "toAppend amd64 kIsMobile int8 55 r = Some (r @ [53, 53])"
proof -
  have "decimal 7 = [55]" "decimal 55 = [53, 53]" by code_simp+
  then show "toAppend_char 55 r = r @ decimal 7" "toAppend amd64 kIsMobile int8 55 r = Some (r @ [53, 53])"
    using toAppend_correct [of int8 55 amd64 kIsMobile r]
    by (simp_all add: toAppend_char_def integral_def in_range_def lim_defs int8_def)
qed

end
