(* ===== verification/Conv_Correct.thy ===== *)
theory Conv_Correct
  imports Conv "HOL-Library.Sublist"
begin

text \<open>
  What the conversions of \<open>folly/Conv.h\<close> promise: parsing agrees with a reference grammar, a printed
  integer is read back, a checked conversion between integer types keeps the value or reports the
  direction in which it does not fit, and the parser of booleans accepts exactly its words.
\<close>

section \<open>Round trip\<close>

lemma decimal_shape:
  "\<exists>ds. decimal x = (if x < 0 then [45] else []) @ map (digit_char False) ds
    \<and> digits_value 10 ds = nat \<bar>x\<bar> \<and> (\<forall>d \<in> set ds. d < 10) \<and> ds \<noteq> []"
proof -
  obtain ds where ds: "numeral_string 10 False (nat \<bar>x\<bar>) = map (digit_char False) ds"
    "digits_value 10 ds = nat \<bar>x\<bar>" "\<forall>d \<in> set ds. d < 10" "ds \<noteq> []"
    "hd ds = 0 \<longrightarrow> nat \<bar>x\<bar> = 0 \<and> ds = [0]"
    using numeral_string_value [OF two_le_ten, of False "nat \<bar>x\<bar>"] by (elim exE conjE)
  show ?thesis
    by (rule exI [of _ ds], intro conjI ds(2-4)) (simp only: decimal_def ds(1))
qed

text \<open>Reading back a printed number surrounded by white space.\<close>

lemma decimal_length:
  assumes "integral t" and "in_range t x"
  shows "length (decimal x) \<le> 40"
proof -
  have "width t \<le> 128" using assms(1) by (auto simp: integral_def)
  then have "(2::int) ^ width t \<le> 2 ^ 128" by (intro power_increasing) simp_all
  moreover have "\<bar>x\<bar> < 2 ^ width t"
    using assms(2) lim_span [OF integral_width [OF assms(1)]] lim_min_le_0 [of t] lim_max_ge_0 [of t]
    unfolding in_range_def by linarith
  ultimately have "nat \<bar>x\<bar> < 2 ^ 128" by (simp add: nat_less_iff)
  then show ?thesis using numeral_128 [of "nat \<bar>x\<bar>"] by (cases "x < 0") (simp_all add: decimal_def)
qed

lemma takeWhile_prefix:
  assumes "list_all P xs" and "ys \<noteq> [] \<longrightarrow> \<not> P (hd ys)"
  shows "takeWhile P (xs @ ys) = xs"
  using assms by (cases ys) (auto simp: list_all_iff takeWhile_append2)

text \<open>
  The grammar: white space, a sign (signed types only), decimal digits, white space; the number must
  be one of the type.
\<close>

definition numeral_text :: "ctype \<Rightarrow> u8 list \<Rightarrow> bool \<Rightarrow> u8 list \<Rightarrow> bool" where
  "numeral_text t sign negative cs \<longleftrightarrow>
     sign \<in> {[], [43], [45]} \<and> (sign \<noteq> [] \<longrightarrow> is_signed t) \<and> (negative \<longleftrightarrow> sign = [45])
     \<and> cs \<noteq> [] \<and> list_all isdigit cs"

definition signed_value :: "bool \<Rightarrow> u8 list \<Rightarrow> int" where
  "signed_value negative cs =
     (if negative then - int (digits_value 10 (map dig cs)) else int (digits_value 10 (map dig cs)))"

lemma space_no_digit: "isspace c \<Longrightarrow> \<not> isdigit c"
  by (auto simp: isspace_def isdigit_def word_le_nat_alt)

lemma takeWhile_digits:
  assumes "list_all isdigit cs" and "list_all isspace ws"
  shows "takeWhile isdigit (cs @ ws) = cs"
  by (rule takeWhile_prefix [OF assms(1)]) (use assms(2) space_no_digit in \<open>cases ws; auto\<close>)

lemma parse_spec_numeral:
  assumes "numeral_text t sign negative cs" and "list_all isspace ws" and "list_all isspace ws'"
  shows "parse_spec t (ws @ sign @ cs @ ws') =
    (case number_result t negative (digits_value 10 (map dig cs)) of
       Inl err \<Rightarrow> (Inl err, 0)
     | Inr x \<Rightarrow> (Inr x, length ws + length sign + length cs))"
proof -
  have cs: "cs \<noteq> []" "list_all isdigit cs" "isdigit (hd cs)"
    using assms(1) by (cases cs; simp add: numeral_text_def)+
  have run: "takeWhile isdigit (cs @ ws') = cs" by (rule takeWhile_digits [OF cs(2) assms(3)])
  have "\<not> isspace (hd (sign @ cs @ ws'))"
    using assms(1) cs space_no_digit [of "hd cs"] by (auto simp: numeral_text_def isspace_def)
  then have blanks: "takeWhile isspace (ws @ sign @ cs @ ws') = ws"
    by (intro takeWhile_prefix [OF assms(2)]) simp
  have "parse_sign t (hd (sign @ cs @ ws')) = Inr (negative, length sign)"
    using assms(1) cs by (auto simp: numeral_text_def parse_sign_def isdigit_def [of 43] isdigit_def [of 45])
  then show ?thesis
    using cs(1) by (simp add: parse_spec_def Let_def blanks run split: sum.split)
qed

lemma parse_spec_digits:
  assumes "in_range t x" and "list_all isspace ws" and "list_all isspace ws'"
  shows "parse_spec t (ws @ decimal x @ ws') = (Inr x, length ws + length (decimal x))"
proof -
  obtain ds where ds: "decimal x = (if x < 0 then [45] else []) @ map (digit_char False) ds"
    "digits_value 10 ds = nat \<bar>x\<bar>" "\<forall>d \<in> set ds. d < 10" "ds \<noteq> []"
    using decimal_shape [of x] by (elim exE conjE)
  have dig: "map dig (map (digit_char False) ds) = ds"
    unfolding map_map by (rule map_idI) (use ds(3) in \<open>simp add: digit_char_decimal\<close>)
  have "is_signed t" if "x < 0"
    using that assms(1) by (auto simp: in_range_def lim_min_def split: if_splits)
  then have "numeral_text t (if x < 0 then [45] else []) (x < 0) (map (digit_char False) ds)"
    using ds(3,4) by (simp add: numeral_text_def list_all_iff digit_char_decimal)
  moreover have "number_result t (x < 0) (digits_value 10 ds) = Inr x"
    using assms(1) by (simp add: number_result_def ds(2))
  ultimately show ?thesis
    using parse_spec_numeral [OF _ assms(2,3)] by (simp only: ds(1) append.assoc dig sum.case) simp
qed

lemma parse_spec_accepts:
  assumes "parse_spec t s = (Inr x, n)" and "list_all isspace (drop n s)"
  shows "\<exists>ws sign negative cs ws'. s = ws @ sign @ cs @ ws' \<and> list_all isspace ws \<and> list_all isspace ws'
    \<and> numeral_text t sign negative cs \<and> x = signed_value negative cs \<and> in_range t x"
proof -
  define k where "k = length (takeWhile isspace s)"
  define s1 where "s1 = drop k s"
  note spec = parse_spec_def [of t s, unfolded Let_def k_def [symmetric] s1_def [symmetric]]
  have ws: "takeWhile isspace s = take k s" unfolding k_def by (rule takeWhile_eq_take)
  have s1: "s1 \<noteq> []" using assms(1) by (cases "s1 = []") (simp_all add: spec)
  obtain negative j where j: "parse_sign t (hd s1) = Inr (negative, j)"
    using assms(1) s1 by (cases "parse_sign t (hd s1)") (auto simp: spec)
  define cs where "cs = takeWhile isdigit (drop j s1)"
  note spec = assms(1) [unfolded spec j sum.case prod.case cs_def [symmetric]]
  have cs: "cs \<noteq> []" using spec s1 by (cases "cs = []") (simp_all split: if_splits)
  have num: "number_result t negative (digits_value 10 (map dig cs)) = Inr x" "n = k + j + length cs"
    using spec s1 cs by (cases "number_result t negative (digits_value 10 (map dig cs))"; simp split: if_splits)+
  have rest: "drop n s = drop (length cs) (drop j s1)" by (simp add: s1_def num(2) ac_simps)
  have "cs @ drop n s = drop j s1"
    unfolding rest cs_def dropWhile_eq_drop [symmetric] by (rule takeWhile_dropWhile_id)
  then have "take j s1 @ cs @ drop n s = s1" by simp
  then have "s = take k s @ take j s1 @ cs @ drop n s" by (simp add: s1_def del: drop_append take_append)
  moreover have "list_all isspace (take k s)"
    unfolding ws [symmetric] by (auto simp: list_all_iff dest: set_takeWhileD)
  moreover have "list_all isdigit cs" by (auto simp: cs_def list_all_iff dest: set_takeWhileD)
  then have "numeral_text t (take j s1) negative cs"
    using j cs s1
    by (cases s1) (auto simp: parse_sign_def numeral_text_def split: if_splits)
  moreover have "x = signed_value negative cs" "in_range t x"
    using num(1) by (auto simp: number_result_def signed_value_def Let_def split: if_splits)
  ultimately show ?thesis
    using assms(2)
    by (intro exI [of _ "take k s"] exI [of _ "take j s1"] exI [of _ negative] exI [of _ cs] exI [of _ "drop n s"] conjI)
qed

lemma enforceWhitespaceErr_eq:
  "enforceWhitespaceErr cs = (if list_all isspace cs then SUCCESS else NON_WHITESPACE_AFTER_END)"
  by (induction cs) auto

lemma parseTo_correct:
  assumes "integral t" and "length src < 2 ^ 64"
  shows "parseTo t src = Some (case parse_spec t src of
    (Inl err, _) \<Rightarrow> Inl err | (Inr x, n) \<Rightarrow> Inr (drop n src, x))"
  using str_to_integral_correct [OF assms(1), of 0 "length src" src] assms(2)
  by (simp add: parseTo_def slice_def split: prod.splits sum.splits)

lemma tryTo_correct:
  assumes "integral t" and "length src < 2 ^ 64"
  shows "tryTo t src = Some (case parse_spec t src of
    (Inl err, _) \<Rightarrow> Inl err
  | (Inr x, n) \<Rightarrow> if list_all isspace (drop n src) then Inr x else Inl NON_WHITESPACE_AFTER_END)"
  by (simp add: tryTo_def parseTo_correct [OF assms] CheckTrailingSpace_def enforceWhitespaceErr_eq Let_def
      split: prod.splits sum.splits)

section \<open>Checked conversions\<close>

lemma less_than_zero:
  assumes "integral Tgt" and "integral Src" and "in_range Src v" and "\<not> is_signed Tgt"
  shows "less_than Tgt 0 Src v \<longleftrightarrow> v < 0"
proof (cases "comparison_wraps Tgt Src")
  case False
  have "in_range Tgt 0" by simp
  from less_than_correct(1) [OF assms(2,1,3) this False] show ?thesis by (simp add: less_than_def)
next
  case True
  then have "\<not> is_signed (common_type Src Tgt)"
    by (auto simp: comparison_wraps_def common_type_def promote_def Let_def int32_def)
  then have "\<not> cxx_less Src y Tgt 0" for y
    using cast_in_range [of "common_type Src Tgt" y] integral_width [OF common_type_width [OF assms(2,1)]]
      cast_id [of "common_type Src Tgt" 0]
    by (simp add: cxx_less_def in_range_def unsigned_lim_min)
  moreover have "is_negative Src v \<longleftrightarrow> v < 0"
    using assms(3) by (auto simp: is_negative_def in_range_def lim_min_def split: if_splits)
  ultimately show ?thesis using assms(4) by (simp add: less_than_def less_than_impl_def is_negative_def)
qed

lemma convertTo_correct:
  assumes "integral Tgt" and "integral Src" and "in_range Src v"
  shows "convertTo Tgt Src v =
    (if lim_max Tgt < v then Inl ARITH_POSITIVE_OVERFLOW
     else if v < lim_min Tgt then Inl ARITH_NEGATIVE_OVERFLOW else Inr v)"
proof -
  have v: "lim_min Src \<le> v" "v \<le> lim_max Src" using assms(3) by (simp_all add: in_range_def)
  have pos: "lim_max Tgt < lim_max Src \<and> greater_than Tgt (lim_max Tgt) Src v \<longleftrightarrow> lim_max Tgt < v"
  proof (cases "lim_max Tgt < lim_max Src")
    case True
    have "\<not> comparison_wraps Tgt Src"
    proof
      assume "comparison_wraps Tgt Src"
      then have "lim_max Src \<le> lim_max Tgt" by (intro lim_max_mono) (auto simp: comparison_wraps_def)
      with True show False by simp
    qed
    from less_than_correct(2) [OF assms(2,1,3) in_range_lims(2) this] True show ?thesis
      by (simp add: greater_than_def)
  qed (use v in simp)
  have neg: "(is_signed Src \<and> (\<not> is_signed Tgt \<or> width Src > width Tgt)) \<and> less_than Tgt (lim_min Tgt) Src v
    \<longleftrightarrow> v < lim_min Tgt"
  proof (cases "is_signed Tgt")
    case False
    then show ?thesis
      using less_than_zero [OF assms(1,2,3) False] v(1) unsigned_lim_min [of Tgt] unsigned_lim_min [of Src]
      by (cases "is_signed Src") simp_all
  next
    case True
    then have "\<not> comparison_wraps Tgt Src" by (simp add: comparison_wraps_def)
    note lt = less_than_correct(1) [OF assms(2,1,3) in_range_lims(1) this]
    show ?thesis
    proof (cases "is_signed Src \<and> width Tgt < width Src")
      case True
      with lt \<open>is_signed Tgt\<close> show ?thesis by (simp add: less_than_def)
    next
      case False
      have "lim_min Tgt \<le> v"
      proof (cases "is_signed Src")
        case True
        with False have "(2 :: int) ^ (width Src - 1) \<le> 2 ^ (width Tgt - 1)" by (intro power_increasing) auto
        then have "lim_min Tgt \<le> lim_min Src" unfolding lim_min_def using True \<open>is_signed Tgt\<close> by (simp only: if_True neg_le_iff_le)
        with v(1) show ?thesis by linarith
      next
        case False
        with v(1) have "0 \<le> v" by (simp add: unsigned_lim_min)
        then show ?thesis using lim_min_le_0 [of Tgt] by linarith
      qed
      with False True show ?thesis by auto
    qed
  qed
  have "cast Tgt v = v" if "\<not> lim_max Tgt < v" and "\<not> v < lim_min Tgt"
    using that integral_width [OF assms(1)] by (intro cast_id) (simp_all add: in_range_def)
  then show ?thesis
    unfolding convertTo_def pos neg by simp
qed



section \<open>Booleans\<close>

text \<open>
  The words for booleans in the order of preference: a whole word, or else its first letter. A word
  is compared with the case bit of the input set.
\<close>

definition bool_words :: "(string \<times> bool) list" where
  "bool_words =
     [(''yes'', True), (''y'', True), (''no'', False), (''n'', False), (''true'', True), (''t'', True),
      (''false'', False), (''f'', False), (''on'', True), (''off'', False)]"

definition bool_spec :: "u8 list \<Rightarrow> bool expected \<times> nat" where
  "bool_spec s =
     (let k = length (takeWhile isspace s); s1 = drop k s; ds = takeWhile isdigit s1 in
      if s1 = [] then (Inl EMPTY_INPUT_STRING, 0)
      else if hd s1 \<in> {48, 49} then
        (if list_all (\<lambda>d. d = 48) (butlast ds) \<and> last ds \<in> {48, 49}
         then (Inr (last ds = 49), k + length ds) else (Inl BOOL_OVERFLOW, 0))
      else case find (\<lambda>(w, r). prefix (ascii w) (map tolower_ascii s1)) bool_words of
        None \<Rightarrow> (Inl BOOL_INVALID_VALUE, 0)
      | Some (w, r) \<Rightarrow> (Inr r, k + length w))"

lemma length_ascii [simp]: "length (ascii w) = length w"
  by (simp add: ascii_def)

lemma bool_str_cmp_correct:
  assumes "p \<le> e" and "e \<le> length m"
  shows "bool_str_cmp m p e v =
    Some (if prefix v (map tolower_ascii (slice m p e)) then Some (p + length v) else None)"
  using assms(1)
proof (induction v arbitrary: p)
  case (Cons c v)
  then show ?case
    using assms(2) by (cases "p = e") (auto simp: rd_Some slice_Cons)
qed simp

fun bool_run :: "bool \<Rightarrow> u8 list \<Rightarrow> bool option" where
  "bool_run result [] = Some result"
| "bool_run result (d # ds) = (if result \<or> d \<noteq> 48 \<and> d \<noteq> 49 then None else bool_run (d = 49) ds)"

lemma bool_run_eq:
  "ds \<noteq> [] \<Longrightarrow> bool_run False ds =
    (if list_all (\<lambda>d. d = 48) (butlast ds) \<and> last ds \<in> {48, 49} then Some (last ds = 49) else None)"
proof (induction ds)
  case (Cons d ds)
  then show ?case by (cases ds) auto
qed simp

lemma bool_digits_correct:
  assumes "b \<le> e" and "e \<le> length m"
  shows "bool_digits m b e result = Some
    (case bool_run result (takeWhile isdigit (slice m b e)) of
       None \<Rightarrow> Inl BOOL_OVERFLOW
     | Some r \<Rightarrow> Inr (r, b + length (takeWhile isdigit (slice m b e))))"
  using assms(1)
proof (induction b arbitrary: result rule: range_induct)
  case (Nil b)
  then show ?case by (simp add: bool_digits.simps)
next
  case (Cons b)
  then show ?case
    using assms(2) by (subst bool_digits.simps) (auto simp: rd_Some slice_Cons split: option.splits)
qed

lemma bool_word_correct:
  assumes "b \<le> e" and "e \<le> length m"
  shows "bool_word m b e w r = Some (Inr (r,
    if prefix (ascii w) (map tolower_ascii (slice m b e)) then b + length w else b + 1))"
  using bool_str_cmp_correct [OF assms] by (simp add: bool_word_def)


lemma tolower_ascii_eq:
  "tolower_ascii c = v \<longleftrightarrow> bit v 5 \<and> (c = v \<or> c = v XOR 0x20)"
proof -
  define k :: u8 where "k = 0x20"
  have s: "bit k n \<longleftrightarrow> n = 5" for n
    using bit_exp_iff [of 5 n, where 'a = u8] by (auto simp: k_def)
  have "tolower_ascii c = v \<longleftrightarrow> bit v 5 \<and> (c = v \<or> c = v XOR k)"
  proof (cases "bit c 5")
    case True
    then have "c OR k = c" by (intro bit_eqI) (auto simp: bit_or_iff s)
    moreover have "c \<noteq> v XOR k" if "bit v 5" using True that by (auto simp: bit_xor_iff s)
    ultimately show ?thesis using True by (auto simp: tolower_ascii_def k_def [symmetric])
  next
    case False
    then have "c OR k = c XOR k" by (intro bit_eqI) (auto simp: bit_or_iff bit_xor_iff s)
    moreover have "c XOR k = v \<longleftrightarrow> c = v XOR k" by (auto simp: xor.assoc)
    moreover have "c = v XOR k \<Longrightarrow> bit v 5" using False by (auto simp: bit_xor_iff s)
    ultimately show ?thesis using False by (auto simp: tolower_ascii_def k_def [symmetric])
  qed
  then show ?thesis by (simp only: k_def)
qed

lemma tolower_letters:
  "tolower_ascii c = 121 \<longleftrightarrow> c \<in> {121, 89}" "tolower_ascii c = 110 \<longleftrightarrow> c \<in> {110, 78}"
  "tolower_ascii c = 116 \<longleftrightarrow> c \<in> {116, 84}" "tolower_ascii c = 102 \<longleftrightarrow> c \<in> {102, 70}"
  "tolower_ascii c = 111 \<longleftrightarrow> c \<in> {111, 79}"
  by (simp_all add: tolower_ascii_eq bit_numeral_rec)

text \<open>Which words can match is decided by the first letter.\<close>

lemma bool_words_find:
  assumes "s \<noteq> []"
  shows "find (\<lambda>(w, r). prefix (ascii w) (map tolower_ascii s)) bool_words =
    (let p = (\<lambda>w. prefix (ascii w) (map tolower_ascii s)) in
     if hd s \<in> {121, 89} then Some (if p ''yes'' then ''yes'' else ''y'', True)
     else if hd s \<in> {110, 78} then Some (if p ''no'' then ''no'' else ''n'', False)
     else if hd s \<in> {116, 84} then Some (if p ''true'' then ''true'' else ''t'', True)
     else if hd s \<in> {102, 70} then Some (if p ''false'' then ''false'' else ''f'', False)
     else if hd s \<in> {111, 79} \<and> p ''on'' then Some (''on'', True)
     else if hd s \<in> {111, 79} \<and> p ''off'' then Some (''off'', False) else None)"
proof -
  obtain c cs where s: "s = c # cs" using assms by (cases s) auto
  define t where "t = tolower_ascii c"
  show ?thesis
    unfolding s list.sel tolower_letters [symmetric] list.map t_def [symmetric]
    by (cases "t = 121"; cases "t = 110"; cases "t = 116"; cases "t = 102"; cases "t = 111")
      (simp_all add: bool_words_def ascii_def of_char_def)
qed


lemma str_to_bool_correct:
  assumes "b \<le> e" and "e \<le> length m"
  shows "str_to_bool m b e = Some (fst (bool_spec (slice m b e)), b + snd (bool_spec (slice m b e)))"
proof -
  define k where "k = length (takeWhile isspace (slice m b e))"
  have k: "drop k (slice m b e) = slice m (b + k) e" by (rule drop_slice)
  have blank: "list_all isspace (slice m b e) \<longleftrightarrow> slice m (b + k) e = []"
    using k dropWhile_eq_drop [of isspace "slice m b e"] dropWhile_eq_Nil_conv [of isspace "slice m b e"]
    by (simp add: k_def list_all_iff)
  note skip = skipBlanks_correct [OF assms, unfolded blank, folded k_def]
  note spec = bool_spec_def [of "slice m b e", unfolded Let_def k_def [symmetric] k]
  show ?thesis
  proof (cases "slice m (b + k) e = []")
    case True
    then show ?thesis by (simp add: str_to_bool_def skip spec)
  next
    case False
    then have lt: "b + k < e" by (metis slice_Nil not_le)
    note s1 = slice_Cons [OF lt assms(2)]
    have rd: "rd m (b + k) = Some (hd (slice m (b + k) e))" using lt assms(2) by (simp add: rd_Some s1)
    note words = bool_words_find [OF False] bool_word_correct [OF less_imp_le [OF lt] assms(2)]
      bool_str_cmp_correct [OF less_imp_le [OF lt] assms(2)]
    show ?thesis
    proof (cases "hd (slice m (b + k) e) \<in> {48, 49}")
      case True
      then have "takeWhile isdigit (slice m (b + k) e) \<noteq> []" by (auto simp: s1 isdigit_def)
      with True False show ?thesis
        by (simp add: str_to_bool_def skip spec rd bool_digits_correct [OF less_imp_le [OF lt] assms(2)] bool_run_eq)
    next
      case no_digit: False
      then show ?thesis
        using False by (simp add: str_to_bool_def skip spec rd words del: bool_str_cmp.simps)
    qed
  qed
qed

section \<open>Properties\<close>

text \<open>
  C3. Parsing an integer (\<open>tryTo\<close>) never reads outside the string, and it accepts a string with
  the value \<open>x\<close> exactly when the string is white space, a sign (signed types only), at least one
  decimal digit and white space, and \<open>x\<close>, the number these digits denote, is a value of the type.
\<close>

theorem parsing_accepts_numerals:
  assumes "integral t" and "length s < 2 ^ 64"
  shows "(\<exists>r. tryTo t s = Some r)
    \<and> (tryTo t s = Some (Inr x) \<longleftrightarrow>
        (\<exists>ws sign negative cs ws'. s = ws @ sign @ cs @ ws' \<and> list_all isspace ws \<and> list_all isspace ws'
          \<and> numeral_text t sign negative cs \<and> x = signed_value negative cs \<and> in_range t x))"
    (is "_ \<and> (?l \<longleftrightarrow> ?r)")
proof (intro conjI iffI)
  show "\<exists>r. tryTo t s = Some r" by (simp add: tryTo_correct [OF assms])
  assume ?l
  then obtain n where "parse_spec t s = (Inr x, n)" "list_all isspace (drop n s)"
    by (cases "parse_spec t s") (auto simp: tryTo_correct [OF assms] split: sum.splits if_splits)
  then show ?r by (rule parse_spec_accepts)
next
  assume ?r
  then obtain ws sign negative cs ws' where s: "s = ws @ sign @ cs @ ws'"
    and ws: "list_all isspace ws" "list_all isspace ws'" and cs: "numeral_text t sign negative cs"
    and x: "x = signed_value negative cs" "in_range t x"
    by (elim exE conjE)
  have "number_result t negative (digits_value 10 (map dig cs)) = Inr x"
    using x by (simp add: number_result_def signed_value_def)
  then show ?l
    unfolding tryTo_correct [OF assms] using parse_spec_numeral [OF cs ws] ws(2) by (simp add: s)
qed

theorem parsing_accepts_numerals_witness:
  "integral int8 \<and> tryTo int8 [32, 45, 49, 50, 56, 10] = Some (Inr (- 128))"
proof -
  have "numeral_text int8 [45] True [49, 50, 56]" "list_all isspace [32]" "list_all isspace [10]"
    by (simp_all add: numeral_text_def isdigit_def isspace_def int8_def)
  moreover have "- 128 = signed_value True [49, 50, 56]" "in_range int8 (- 128)"
    by (simp_all add: signed_value_def digits_value_def dig_def in_range_def lim_defs int8_def)
  moreover have i: "integral int8" by (simp add: integral_def int8_def)
  moreover have length: "length [32, 45, 49, 50, 56, 10 :: u8] < 2 ^ 64" by simp
  moreover have "[32, 45, 49, 50, 56, 10] = [32] @ [45] @ [49, 50, 56] @ [10 :: u8]" by simp
  ultimately show ?thesis
    using parsing_accepts_numerals [OF i, of "[32, 45, 49, 50, 56, 10]" "- 128", OF length]
    by (elim conjE) blast
qed

text \<open>
  C13. Printing an integer of any type but \<open>char\<close> (\<open>toAppend\<close>), which is appended as the character it is, and
  parsing the text, with white space around it that is not absurdly long, gives the integer back, on every
  platform and for 128-bit integers too.
\<close>

theorem print_parse_round_trip:
  assumes "integral t" and "in_range t x" and "list_all isspace ws" and "list_all isspace ws'"
    and "length ws + length ws' + 40 < 2 ^ 64"
  shows "\<exists>str. toAppend amd64 kIsMobile t x [] = Some str \<and> tryTo t (ws @ str @ ws') = Some (Inr x)"
  using toAppend_correct [OF assms(1,2), of amd64 kIsMobile "[]"]
    tryTo_correct [OF assms(1), of "ws @ decimal x @ ws'"] parse_spec_digits [OF assms(2-4)]
    decimal_length [OF assms(1,2)] assms(4,5)
  by simp

theorem print_parse_round_trip_witness:
  "\<exists>str. toAppend True False int64 (- (2 ^ 63)) [] = Some str
    \<and> tryTo int64 ([9] @ str @ []) = Some (Inr (- (2 ^ 63)))"
  by (rule print_parse_round_trip)
    (simp_all add: integral_def in_range_def lim_defs int64_def isspace_def)

text \<open>
  C30. The checked conversion between integer types (\<open>convertTo\<close>) returns the value unchanged when
  the target type has it, and otherwise the error that names the side on which it does not fit.
\<close>

theorem convertTo_exact:
  assumes "integral Tgt" and "integral Src" and "in_range Src v"
  shows "convertTo Tgt Src v =
    (if lim_max Tgt < v then Inl ARITH_POSITIVE_OVERFLOW
     else if v < lim_min Tgt then Inl ARITH_NEGATIVE_OVERFLOW else Inr v)"
  using assms by (rule convertTo_correct)

theorem convertTo_exact_witness:
  "convertTo uint32 int32 (- 1) = Inl ARITH_NEGATIVE_OVERFLOW \<and> convertTo uint32 int32 7 = Inr 7"
  using convertTo_exact [of uint32 int32 "- 1"] convertTo_exact [of uint32 int32 7]
  by (simp add: integral_def in_range_def lim_defs ctype_defs)

text \<open>
  C15. The parser of booleans stays inside its range and agrees with the table of words: leading
  blanks are skipped, a run of digits must be zeros with an optional final one, a word counts with
  either case, the longest form of a word is consumed, and the source is left alone on an error.
\<close>

theorem str_to_bool_words:
  assumes "b \<le> e" and "e \<le> length m"
  shows "str_to_bool m b e = Some (fst (bool_spec (slice m b e)), b + snd (bool_spec (slice m b e)))"
  using assms by (rule str_to_bool_correct)

theorem str_to_bool_words_witness:
  "str_to_bool [32, 89, 101, 83, 33] 0 5 = Some (Inr True, 4)"
  using str_to_bool_words [of 0 5 "[32, 89, 101, 83, 33]"]
  by (simp add: slice_def bool_spec_def bool_words_def isspace_def isdigit_def ascii_def of_char_def tolower_ascii_def)

end
