(* ===== verification/Thread_Pool.thy ===== *)
theory Thread_Pool
  imports Main "HOL-Library.Multiset"
begin

text \<open>
  Threads that run the same code on a shared object. A thread is its program point with its local
  variables; since threads are only told apart by that, a pool of threads is a multiset of program
  points. An action of one thread on the shared state is given by a relation; a step of the pool
  lets any one thread act. The locales say what has to be shown of the single actions to get an
  invariant of the pool, mutual exclusion of lock holders, and that the pool can always be drained.
\<close>

section \<open>Pools\<close>

inductive pool_step ::
  "('s \<Rightarrow> 'p \<Rightarrow> 's \<Rightarrow> 'p \<Rightarrow> bool) \<Rightarrow> 's \<times> 'p multiset \<Rightarrow> 's \<times> 'p multiset \<Rightarrow> bool"
  for act where
  "act s p s' p' \<Longrightarrow> pool_step act (s, add_mset p M) (s', add_mset p' M)"

definition pool_reach ::
  "('s \<Rightarrow> 'p \<Rightarrow> 's \<Rightarrow> 'p \<Rightarrow> bool) \<Rightarrow> 's \<times> 'p multiset \<Rightarrow> 's \<times> 'p multiset \<Rightarrow> bool" where
  "pool_reach act = (pool_step act)\<^sup>*\<^sup>*"

lemma pool_reach_refl [simp, intro]: "pool_reach act c c"
  by (simp add: pool_reach_def)

lemma pool_reach_step:
  "act s p s' p' \<Longrightarrow> pool_reach act (s', add_mset p' M) c \<Longrightarrow> pool_reach act (s, add_mset p M) c"
  unfolding pool_reach_def
  by (rule converse_rtranclp_into_rtranclp [of "pool_step act"]) (rule pool_step.intros)

lemma pool_reach_trans: "pool_reach act c d \<Longrightarrow> pool_reach act d e \<Longrightarrow> pool_reach act c e"
  unfolding pool_reach_def by (rule rtranclp_trans)

lemma pool_reach_1: "act s p s' p' \<Longrightarrow> pool_reach act (s, add_mset p M) (s', add_mset p' M)"
  by (rule pool_reach_step) auto

text \<open>Sums over the threads, for invariants that count what program points stand for.\<close>

definition total :: "('p \<Rightarrow> nat) \<Rightarrow> 'p multiset \<Rightarrow> nat" where
  "total f M = (\<Sum>p \<in># M. f p)"

lemma total_mono: "(\<And>p. f p \<le> g p) \<Longrightarrow> total f M \<le> total g M"
  unfolding total_def by (rule sum_mset_mono)

lemma total_simps [simp]: "total f {#} = 0" "total f (add_mset p M) = f p + total f M"
  by (simp_all add: total_def)

lemma total_zeroD: "total f M = 0 \<Longrightarrow> p \<in># M \<Longrightarrow> f p = 0"
  by (simp add: total_def)

lemma total_pos: "0 < total f M \<Longrightarrow> \<exists>p N. M = add_mset p N \<and> 0 < f p"
  by (induction M) (auto, metis add_mset_commute)

section \<open>Contracts\<close>

locale thread_pool =
  fixes act :: "'s \<Rightarrow> 'p \<Rightarrow> 's \<Rightarrow> 'p \<Rightarrow> bool"
    and safe :: "'s \<Rightarrow> 'p multiset \<Rightarrow> bool"
  assumes act_inv: "safe s (add_mset p M) \<Longrightarrow> act s p s' p' \<Longrightarrow> safe s' (add_mset p' M)"
begin

lemma step_inv:
  assumes "pool_step act c c'" and "safe (fst c) (snd c)"
  shows "safe (fst c') (snd c') \<and> size (snd c') = size (snd c)"
  using assms by (cases rule: pool_step.cases) (auto intro: act_inv)

lemma reach_inv:
  assumes "pool_reach act c c'" and "safe (fst c) (snd c)"
  shows "safe (fst c') (snd c') \<and> size (snd c') = size (snd c)"
  using assms unfolding pool_reach_def
  by (induction rule: rtranclp_induct) (auto dest: step_inv)

end

text \<open>
  If the threads of a loaded pool can always take a step that makes the load smaller, the pool can
  reach a state of rest.
\<close>

locale measured_pool = thread_pool act safe
  for act :: "'s \<Rightarrow> 'p \<Rightarrow> 's \<Rightarrow> 'p \<Rightarrow> bool" and safe +
  fixes load :: "'s \<Rightarrow> 'p multiset \<Rightarrow> nat"
  assumes progress: "safe s M \<Longrightarrow> 0 < load s M \<Longrightarrow>
    \<exists>p N s' p'. M = add_mset p N \<and> act s p s' p' \<and> load s' (add_mset p' N) < load s M"
begin

lemma settle:
  assumes "safe s M"
  shows "\<exists>s' N. pool_reach act (s, M) (s', N) \<and> safe s' N \<and> load s' N = 0"
  using assms
proof (induction "load s M" arbitrary: s M rule: less_induct)
  case less
  show ?case
  proof (cases "load s M = 0")
    case False
    then obtain p N s' p' where p: "M = add_mset p N" "act s p s' p'" "load s' (add_mset p' N) < load s M"
      using progress [OF less.prems] by auto
    have "safe s' (add_mset p' N)"
      using act_inv [OF less.prems [unfolded p(1)] p(2)] .
    then obtain s'' N' where "pool_reach act (s', add_mset p' N) (s'', N')" "safe s'' N'" "load s'' N' = 0"
      using less.hyps [of s' "add_mset p' N"] p(3) by blast
    then show ?thesis using pool_reach_step [of act s p s' p' N, OF p(2)] p(1) by blast
  qed (use less.prems in blast)
qed

end

text \<open>
  The load may be a sum over the threads: a thread of positive weight is in the middle of an
  operation, or holds something.
\<close>

locale draining_pool = thread_pool act safe
  for act :: "'s \<Rightarrow> 'p \<Rightarrow> 's \<Rightarrow> 'p \<Rightarrow> bool" and safe +
  fixes weight :: "'p \<Rightarrow> nat"
  assumes drain: "safe s M \<Longrightarrow> q \<in># M \<Longrightarrow> 0 < weight q \<Longrightarrow>
    \<exists>p N s' p'. M = add_mset p N \<and> act s p s' p' \<and> weight p' < weight p"

sublocale draining_pool \<subseteq> measured_pool act safe "\<lambda>s M. \<Sum>p \<in># M. weight p"
proof
  fix s M
  assume safe: "safe s M" and "0 < (\<Sum>p \<in># M. weight p)"
  then obtain q where "q \<in># M" "0 < weight q"
    by (metis sum_mset_0_iff gr0I image_eqI in_image_mset less_irrefl imageE)
  from drain [OF safe this] obtain p N s' p' where "M = add_mset p N" "act s p s' p'" "weight p' < weight p"
    by blast
  then show "\<exists>p N s' p'. M = add_mset p N \<and> act s p s' p' \<and>
      (\<Sum>p \<in># add_mset p' N. weight p) < (\<Sum>p \<in># M. weight p)"
    by (intro exI [of _ p] exI [of _ N] exI [of _ s'] exI [of _ p']) simp
qed

context draining_pool
begin

lemma quiesce:
  assumes "safe s M"
  shows "\<exists>s' N. pool_reach act (s, M) (s', N) \<and> safe s' N \<and> (\<forall>p \<in># N. weight p = 0)"
  using settle [OF assms] by simp

end

section \<open>Reader-writer locks\<close>

text \<open>What a thread holds, and what two threads may hold at the same time.\<close>

datatype mode = Unlocked | Shared | Upgrade | Exclusive

fun compatible :: "mode \<Rightarrow> mode \<Rightarrow> bool" where
  "compatible Unlocked m = True"
| "compatible m Unlocked = True"
| "compatible Shared Shared = True"
| "compatible Shared Upgrade = True"
| "compatible Upgrade Shared = True"
| "compatible m m' = False"

locale rw_lock = draining_pool act safe weight
  for act :: "'s \<Rightarrow> 'p \<Rightarrow> 's \<Rightarrow> 'p \<Rightarrow> bool" and safe and weight +
  fixes holds :: "'p \<Rightarrow> mode"
  assumes exclusion: "safe s (add_mset p (add_mset q M)) \<Longrightarrow> compatible (holds p) (holds q)"
begin

lemma reach_exclusion:
  assumes "safe s M" and "pool_reach act (s, M) (s', add_mset p (add_mset q N))"
  shows "compatible (holds p) (holds q)"
  using reach_inv [OF assms(2)] assms(1) by (auto intro: exclusion)

lemma reach_quiesce:
  assumes "safe s M" and "pool_reach act (s, M) (s', M')"
  shows "\<exists>s'' N. pool_reach act (s', M') (s'', N) \<and> safe s'' N \<and> (\<forall>p \<in># N. weight p = 0)"
  using reach_inv [OF assms(2)] assms(1) by (auto intro: quiesce)

end

end
