(* ===== verification/RWSpinLock.thy ===== *)
theory RWSpinLock
  imports Thread_Pool Folly_Prelude
begin

text \<open>
  \<open>RWSpinLock\<close> of \<open>folly/synchronization/RWSpinLock.h\<close>: a reader-writer spin lock with an upgrade
  mode in one 32-bit word. Every member function is modelled as its sequence of atomic accesses, so
  that any number of threads may interleave between them; the spinning loops are the program points
  to which a failed attempt returns. The counting of attempts before a thread yields only affects
  scheduling. Memory orders play no role, since there is a single atomic variable.
\<close>

section \<open>Atomic accesses\<close>

definition READER :: u32 where "READER = 4"
definition UPGRADED :: u32 where "UPGRADED = 2"
definition WRITER :: u32 where "WRITER = 1"

text \<open>The constructor.\<close>

definition RWSpinLock_init :: u32 where "RWSpinLock_init = 0"

definition RWSpinLock_try_lock :: "u32 \<Rightarrow> bool \<times> u32" where
  "RWSpinLock_try_lock bits = (if bits = 0 then (True, WRITER) else (False, bits))"

definition RWSpinLock_unlock :: "u32 \<Rightarrow> u32" where
  "RWSpinLock_unlock bits = bits AND NOT (WRITER OR UPGRADED)"

text \<open>The first access of \<open>try_lock_shared\<close>, and the second one, which takes it back on failure.\<close>

definition RWSpinLock_add_shared :: "u32 \<Rightarrow> bool \<times> u32" where
  "RWSpinLock_add_shared bits = (bits AND (WRITER OR UPGRADED) = 0, bits + READER)"

definition RWSpinLock_unlock_shared :: "u32 \<Rightarrow> u32" where
  "RWSpinLock_unlock_shared bits = bits + (- READER)"

definition RWSpinLock_try_lock_upgrade :: "u32 \<Rightarrow> bool \<times> u32" where
  "RWSpinLock_try_lock_upgrade bits = (bits AND (UPGRADED OR WRITER) = 0, bits OR UPGRADED)"

definition RWSpinLock_unlock_upgrade :: "u32 \<Rightarrow> u32" where
  "RWSpinLock_unlock_upgrade bits = bits + (- UPGRADED)"

definition RWSpinLock_try_unlock_upgrade_and_lock :: "u32 \<Rightarrow> bool \<times> u32" where
  "RWSpinLock_try_unlock_upgrade_and_lock bits =
     (if bits = UPGRADED then (True, WRITER) else (False, bits))"

definition RWSpinLock_unlock_upgrade_and_lock_shared :: "u32 \<Rightarrow> u32" where
  "RWSpinLock_unlock_upgrade_and_lock_shared bits = bits + (READER - UPGRADED)"

section \<open>Member functions as programs\<close>

text \<open>
  \<open>Holding m\<close> is a thread between two calls. The other points are inside a call: the loops of
  \<open>lock\<close>, \<open>lock_shared\<close>, \<open>lock_upgrade\<close> and \<open>unlock_upgrade_and_lock\<close>; \<open>try_lock_shared\<close> before it
  takes its reader back, called alone or from the loop; and the middle of the two downgrades.
\<close>

datatype rw_pc =
    Holding mode
  | Locking | Locking_shared | Locking_upgrade | Promoting
  | Backing_off bool
  | Downgrading | Regrading

inductive rw_act :: "u32 \<Rightarrow> rw_pc \<Rightarrow> u32 \<Rightarrow> rw_pc \<Rightarrow> bool" where
  lock: "rw_act b (Holding Unlocked) b Locking"
| lock_loop:
    "RWSpinLock_try_lock b = (ok, b') \<Longrightarrow>
     rw_act b Locking b' (if ok then Holding Exclusive else Locking)"
| try_lock:
    "RWSpinLock_try_lock b = (ok, b') \<Longrightarrow>
     rw_act b (Holding Unlocked) b' (if ok then Holding Exclusive else Holding Unlocked)"
| unlock: "rw_act b (Holding Exclusive) (RWSpinLock_unlock b) (Holding Unlocked)"
| lock_shared: "rw_act b (Holding Unlocked) b Locking_shared"
| lock_shared_loop:
    "RWSpinLock_add_shared b = (ok, b') \<Longrightarrow>
     rw_act b Locking_shared b' (if ok then Holding Shared else Backing_off True)"
| try_lock_shared:
    "RWSpinLock_add_shared b = (ok, b') \<Longrightarrow>
     rw_act b (Holding Unlocked) b' (if ok then Holding Shared else Backing_off False)"
| back_off:
    "rw_act b (Backing_off again) (RWSpinLock_unlock_shared b)
       (if again then Locking_shared else Holding Unlocked)"
| unlock_shared: "rw_act b (Holding Shared) (RWSpinLock_unlock_shared b) (Holding Unlocked)"
| unlock_and_lock_shared: "rw_act b (Holding Exclusive) (b + READER) Downgrading"
| unlock_and_lock_shared_2: "rw_act b Downgrading (RWSpinLock_unlock b) (Holding Shared)"
| lock_upgrade: "rw_act b (Holding Unlocked) b Locking_upgrade"
| lock_upgrade_loop:
    "RWSpinLock_try_lock_upgrade b = (ok, b') \<Longrightarrow>
     rw_act b Locking_upgrade b' (if ok then Holding Upgrade else Locking_upgrade)"
| try_lock_upgrade:
    "RWSpinLock_try_lock_upgrade b = (ok, b') \<Longrightarrow>
     rw_act b (Holding Unlocked) b' (if ok then Holding Upgrade else Holding Unlocked)"
| unlock_upgrade: "rw_act b (Holding Upgrade) (RWSpinLock_unlock_upgrade b) (Holding Unlocked)"
| unlock_upgrade_and_lock: "rw_act b (Holding Upgrade) b Promoting"
| unlock_upgrade_and_lock_loop:
    "RWSpinLock_try_unlock_upgrade_and_lock b = (ok, b') \<Longrightarrow>
     rw_act b Promoting b' (if ok then Holding Exclusive else Promoting)"
| try_unlock_upgrade_and_lock:
    "RWSpinLock_try_unlock_upgrade_and_lock b = (ok, b') \<Longrightarrow>
     rw_act b (Holding Upgrade) b' (if ok then Holding Exclusive else Holding Upgrade)"
| unlock_upgrade_and_lock_shared:
    "rw_act b (Holding Upgrade) (RWSpinLock_unlock_upgrade_and_lock_shared b) (Holding Shared)"
| unlock_and_lock_upgrade: "rw_act b (Holding Exclusive) (b OR UPGRADED) Regrading"
| unlock_and_lock_upgrade_2: "rw_act b Regrading (b + (- WRITER)) (Holding Upgrade)"

lemmas rw_try_defs =
  RWSpinLock_try_lock_def RWSpinLock_add_shared_def RWSpinLock_try_lock_upgrade_def
  RWSpinLock_try_unlock_upgrade_and_lock_def

section \<open>The word\<close>

text \<open>The word counts the readers above two flags.\<close>

definition rw_word :: "u32 \<Rightarrow> nat \<Rightarrow> nat \<Rightarrow> nat \<Rightarrow> bool" where
  "rw_word b r u w \<longleftrightarrow> unat b = 4 * r + 2 * u + w \<and> u \<le> 1 \<and> w \<le> 1"

lemma and_not_eq_diff:
  fixes b k :: u32
  shows "b AND NOT k = b - (b AND k)"
proof -
  have "(b AND NOT k) + (b AND k) = (b AND NOT k) OR (b AND k)"
    by (rule disjunctive_add) (simp add: bit_and_iff bit_not_iff)
  also have "\<dots> = b" by (rule bit_word_eqI) (auto simp: bit_and_iff bit_or_iff bit_not_iff)
  finally show ?thesis by (simp add: eq_diff_eq)
qed

lemma unat_flags:
  fixes b :: u32
  shows "unat (b AND 3) = unat b mod 4" "unat (b AND NOT 3) = unat b - unat b mod 4"
    "unat (b OR 2) = (if unat b mod 4 < 2 then unat b + 2 else unat b)"
proof -
  have m: "3 = (mask 2 :: u32)" by (simp add: mask_eq_exp_minus_1)
  have "b AND 3 = take_bit 2 b" unfolding m by (rule take_bit_eq_mask [symmetric])
  then show mod: "unat (b AND 3) = unat b mod 4"
    by (simp add: unsigned_take_bit_eq take_bit_eq_mod [where 'a = nat])
  show "unat (b AND NOT 3) = unat b - unat b mod 4"
    unfolding and_not_eq_diff by (simp only: unat_sub [OF word_and_le2] mod)
  define k :: u32 where "k = 2"
  have k: "bit k n \<longleftrightarrow> n = 1" for n
    using bit_exp_iff [of 1 n, where 'a = u32] by (auto simp: k_def)
  have "bit b 1 \<longleftrightarrow> \<not> unat b mod 4 < 2"
  proof -
    have "bit b 1 \<longleftrightarrow> bit (unat b) 1" by (simp add: bit_unsigned_iff)
    also have "\<dots> \<longleftrightarrow> odd (unat b div 2)" by (simp add: bit_iff_odd)
    also have "\<dots> \<longleftrightarrow> \<not> unat b mod 4 < 2" by presburger
    finally show ?thesis .
  qed
  moreover have "b OR k = (if bit b 1 then b else b + k)"
  proof (cases "bit b 1")
    case False
    then have "b + k = b OR k" by (intro disjunctive_add) (auto simp: k)
    with False show ?thesis by simp
  qed (auto intro!: bit_word_eqI simp: bit_or_iff k)
  moreover have "unat (b + k) = unat b + 2" if "unat b mod 4 < 2"
  proof -
    have "unat b < 2 ^ LENGTH(32)" by (rule unsigned_less)
    then have "unat b < 4294967296" by simp
    then have "unat b + 2 < 4294967296" using that by presburger
    then show ?thesis by (simp add: k_def unat_word_ariths)
  qed
  ultimately show "unat (b OR 2) = (if unat b mod 4 < 2 then unat b + 2 else unat b)"
    unfolding k_def [symmetric] by simp
qed

lemma rw_word_mod: "rw_word b r u w \<Longrightarrow> unat b mod 4 = 2 * u + w"
proof -
  assume w: "rw_word b r u w"
  then have "unat b mod 4 = (2 * u + w + 4 * r) mod 4" by (simp add: rw_word_def ac_simps)
  also have "\<dots> = (2 * u + w) mod 4" by (rule mod_mult_self2)
  also have "\<dots> = 2 * u + w" using w by (intro mod_less) (simp add: rw_word_def)
  finally show ?thesis .
qed

lemma rw_word_test:
  assumes "rw_word b r u w"
  shows "b AND (WRITER OR UPGRADED) = 0 \<longleftrightarrow> u = 0 \<and> w = 0" "b AND (UPGRADED OR WRITER) = 0 \<longleftrightarrow> u = 0 \<and> w = 0"
    "b = 0 \<longleftrightarrow> r = 0 \<and> u = 0 \<and> w = 0" "b = UPGRADED \<longleftrightarrow> r = 0 \<and> u = 1 \<and> w = 0"
proof -
  have b: "unat b = 4 * r + 2 * u + w" and uw: "u \<le> 1" "w \<le> 1" using assms by (simp_all add: rw_word_def)
  have "unat b mod 4 = 2 * u + w" by (rule rw_word_mod [OF assms])
  then have "b AND 3 = 0 \<longleftrightarrow> u = 0 \<and> w = 0"
    unfolding word_unat_eq_iff unat_flags(1) by simp
  then show "b AND (WRITER OR UPGRADED) = 0 \<longleftrightarrow> u = 0 \<and> w = 0"
    "b AND (UPGRADED OR WRITER) = 0 \<longleftrightarrow> u = 0 \<and> w = 0"
    by (simp_all add: WRITER_def UPGRADED_def)
  show "b = 0 \<longleftrightarrow> r = 0 \<and> u = 0 \<and> w = 0" "b = UPGRADED \<longleftrightarrow> r = 0 \<and> u = 1 \<and> w = 0"
    using uw unfolding word_unat_eq_iff b by (cases r; auto simp: UPGRADED_def le_Suc_eq)+
qed

lemma rw_word_steps:
  shows "rw_word b r u w \<Longrightarrow> Suc r < 2 ^ 30 \<Longrightarrow> rw_word (b + READER) (Suc r) u w"
    "rw_word b (Suc r) u w \<Longrightarrow> rw_word (RWSpinLock_unlock_shared b) r u w"
    "rw_word b r u w \<Longrightarrow> rw_word (RWSpinLock_unlock b) r 0 0"
    "rw_word b r u w \<Longrightarrow> rw_word (b OR UPGRADED) r 1 w"
    "rw_word b r 1 w \<Longrightarrow> rw_word (RWSpinLock_unlock_upgrade b) r 0 w"
    "rw_word b r 1 w \<Longrightarrow> Suc r < 2 ^ 30 \<Longrightarrow> rw_word (RWSpinLock_unlock_upgrade_and_lock_shared b) (Suc r) 0 w"
    "rw_word b r u 1 \<Longrightarrow> rw_word (b - WRITER) r u 0"
    "rw_word WRITER 0 0 1"
proof -
  have sub: "unat (b + (- v)) = unat b - unat v" if "unat v \<le> unat b" for v :: u32
    using that unat_sub [of v b] by (simp add: word_le_nat_alt)
  show add: "rw_word b r u w \<Longrightarrow> Suc r < 2 ^ 30 \<Longrightarrow> rw_word (b + READER) (Suc r) u w" for b u
    by (simp add: rw_word_def READER_def unat_word_ariths)
  show "rw_word b (Suc r) u w \<Longrightarrow> rw_word (RWSpinLock_unlock_shared b) r u w"
    by (simp add: rw_word_def RWSpinLock_unlock_shared_def READER_def sub del: add_uminus_conv_diff)
  show upg: "rw_word b r 1 w \<Longrightarrow> rw_word (RWSpinLock_unlock_upgrade b) r 0 w"
    by (simp add: rw_word_def RWSpinLock_unlock_upgrade_def UPGRADED_def sub del: add_uminus_conv_diff)
  have "RWSpinLock_unlock_upgrade_and_lock_shared b = RWSpinLock_unlock_upgrade b + READER"
    by (simp add: RWSpinLock_unlock_upgrade_and_lock_shared_def RWSpinLock_unlock_upgrade_def)
  then show "rw_word b r 1 w \<Longrightarrow> Suc r < 2 ^ 30 \<Longrightarrow>
      rw_word (RWSpinLock_unlock_upgrade_and_lock_shared b) (Suc r) 0 w"
    using add upg by simp
  show "rw_word b r u 1 \<Longrightarrow> rw_word (b - WRITER) r u 0"
    using sub [of WRITER] by (simp add: rw_word_def WRITER_def)
  show "rw_word WRITER 0 0 1" by (simp add: rw_word_def WRITER_def)
  show "rw_word b r u w \<Longrightarrow> rw_word (b OR UPGRADED) r 1 w"
    using rw_word_mod [of b r u w] unat_flags(3) [of b] by (cases u) (auto simp: rw_word_def UPGRADED_def)
  assume w: "rw_word b r u w"
  from rw_word_mod [OF this] show "rw_word (RWSpinLock_unlock b) r 0 0"
    using w unat_flags(2) [of b] by (simp add: rw_word_def RWSpinLock_unlock_def WRITER_def UPGRADED_def)
qed

section \<open>The invariant\<close>

text \<open>
  What a program point contributes to the word: to the count of readers, to the writer bit, and
  whether it owns the upgrade. \<open>in_shared\<close> counts the threads that read, and \<open>regrades\<close> those between
  the two accesses of \<open>unlock_and_lock_upgrade\<close>.
\<close>

fun adds_reader :: "rw_pc \<Rightarrow> nat" where
  "adds_reader (Holding Shared) = 1"
| "adds_reader (Backing_off again) = 1"
| "adds_reader Downgrading = 1"
| "adds_reader p = 0"

fun adds_writer :: "rw_pc \<Rightarrow> nat" where
  "adds_writer (Holding Exclusive) = 1"
| "adds_writer Downgrading = 1"
| "adds_writer Regrading = 1"
| "adds_writer p = 0"

fun owns_upgrade :: "rw_pc \<Rightarrow> nat" where
  "owns_upgrade (Holding Upgrade) = 1"
| "owns_upgrade Promoting = 1"
| "owns_upgrade p = 0"

definition in_shared :: "rw_pc \<Rightarrow> nat" where
  "in_shared p = of_bool (p = Holding Shared)"

definition regrades :: "rw_pc \<Rightarrow> nat" where
  "regrades p = of_bool (p = Regrading)"

abbreviation total :: "(rw_pc \<Rightarrow> nat) \<Rightarrow> rw_pc multiset \<Rightarrow> nat" where
  "total f M \<equiv> \<Sum>p \<in># M. f p"

text \<open>
  The upgrade bit is set if a thread owns the upgrade; it may also be a leftover of a failed
  \<open>try_lock_upgrade\<close>, but only under a writer, who will clear it.
\<close>

definition rw_counts :: "u32 \<Rightarrow> nat \<Rightarrow> nat \<Rightarrow> nat \<Rightarrow> nat \<Rightarrow> nat \<Rightarrow> nat \<Rightarrow> bool" where
  "rw_counts b u r s w g x \<longleftrightarrow>
     rw_word b r u w \<and> w + g \<le> 1 \<and> (g = 1 \<longrightarrow> u = 1) \<and> (w = 0 \<and> g = 0 \<longrightarrow> u = 0)
     \<and> (w = 1 \<longrightarrow> s = 0) \<and> (x = 1 \<longrightarrow> u = 1)"

definition rw_inv :: "u32 \<Rightarrow> rw_pc multiset \<Rightarrow> bool" where
  "rw_inv b M \<longleftrightarrow> size M < 2 ^ 30 \<and> (\<exists>u. rw_counts b u (total adds_reader M) (total in_shared M)
     (total adds_writer M) (total owns_upgrade M) (total regrades M))"

lemma totals:
  "total adds_reader M \<le> size M" "total in_shared M \<le> total adds_reader M"
  "total regrades M \<le> total adds_writer M"
proof -
  have "adds_reader p \<le> 1" for p by (cases p rule: adds_reader.cases) simp_all
  then have "total adds_reader M \<le> (\<Sum>p \<in># M. 1)" by (intro sum_mset_mono) simp
  then show "total adds_reader M \<le> size M" by simp
  show "total in_shared M \<le> total adds_reader M" "total regrades M \<le> total adds_writer M"
    by (intro sum_mset_mono, simp add: in_shared_def regrades_def)+
qed

lemma rw_act_inv:
  assumes "rw_inv b (add_mset p M)" and "rw_act b p b' p'"
  shows "rw_inv b' (add_mset p' M)"
proof -
  define r s w g x where "r = total adds_reader M" "s = total in_shared M" "w = total adds_writer M"
    "g = total owns_upgrade M" "x = total regrades M"
  note d = this
  obtain u where c: "rw_counts b u (adds_reader p + r) (in_shared p + s) (adds_writer p + w)
      (owns_upgrade p + g) (regrades p + x)"
    using assms(1) by (auto simp: rw_inv_def d)
  have n: "size (add_mset p' M) < 2 ^ 30" "Suc r < 2 ^ 30"
    using assms(1) totals(1) [of M] by (auto simp: rw_inv_def d)
  have sx: "s \<le> r" "x \<le> w" using totals(2,3) [of M] by (simp_all add: d)
  note test = rw_word_test [OF c [unfolded rw_counts_def, THEN conjunct1]]
  note defs = rw_counts_def in_shared_def regrades_def rw_try_defs
  have "\<exists>u. rw_counts b' u (adds_reader p' + r) (in_shared p' + s) (adds_writer p' + w)
      (owns_upgrade p' + g) (regrades p' + x)"
    using assms(2)
  proof cases
    case lock
    with c n(2) sx test show ?thesis
      by (intro exI [of _ u]) (auto simp: defs split: if_splits intro: rw_word_steps [unfolded One_nat_def])
  next
    case lock_loop
    with c n(2) sx test show ?thesis
      by (intro exI [of _ u]) (auto simp: defs split: if_splits intro: rw_word_steps [unfolded One_nat_def])
  next
    case try_lock
    with c n(2) sx test show ?thesis
      by (intro exI [of _ u]) (auto simp: defs split: if_splits intro: rw_word_steps [unfolded One_nat_def])
  next
    case unlock
    with c n(2) sx test show ?thesis
      by (intro exI [of _ 0]) (auto simp: defs split: if_splits intro: rw_word_steps [unfolded One_nat_def])
  next
    case lock_shared
    with c n(2) sx test show ?thesis
      by (intro exI [of _ u]) (auto simp: defs split: if_splits intro: rw_word_steps [unfolded One_nat_def])
  next
    case lock_shared_loop
    with c n(2) sx test show ?thesis
      by (intro exI [of _ u]) (auto simp: defs split: if_splits intro: rw_word_steps [unfolded One_nat_def])
  next
    case try_lock_shared
    with c n(2) sx test show ?thesis
      by (intro exI [of _ u]) (auto simp: defs split: if_splits intro: rw_word_steps [unfolded One_nat_def])
  next
    case back_off
    with c n(2) sx test show ?thesis
      by (intro exI [of _ u]) (auto simp: defs split: if_splits intro: rw_word_steps [unfolded One_nat_def])
  next
    case unlock_shared
    with c n(2) sx test show ?thesis
      by (intro exI [of _ u]) (auto simp: defs split: if_splits intro: rw_word_steps [unfolded One_nat_def])
  next
    case unlock_and_lock_shared
    with c n(2) sx test show ?thesis
      by (intro exI [of _ u]) (auto simp: defs split: if_splits intro: rw_word_steps [unfolded One_nat_def])
  next
    case unlock_and_lock_shared_2
    with c n(2) sx test show ?thesis
      by (intro exI [of _ 0]) (auto simp: defs split: if_splits intro: rw_word_steps [unfolded One_nat_def])
  next
    case lock_upgrade
    with c n(2) sx test show ?thesis
      by (intro exI [of _ u]) (auto simp: defs split: if_splits intro: rw_word_steps [unfolded One_nat_def])
  next
    case lock_upgrade_loop
    with c n(2) sx test show ?thesis
      by (intro exI [of _ 1]) (auto simp: defs split: if_splits intro: rw_word_steps [unfolded One_nat_def])
  next
    case try_lock_upgrade
    with c n(2) sx test show ?thesis
      by (intro exI [of _ 1]) (auto simp: defs split: if_splits intro: rw_word_steps [unfolded One_nat_def])
  next
    case unlock_upgrade
    with c n(2) sx test show ?thesis
      by (intro exI [of _ 0]) (auto simp: defs split: if_splits intro: rw_word_steps [unfolded One_nat_def])
  next
    case unlock_upgrade_and_lock
    with c n(2) sx test show ?thesis
      by (intro exI [of _ u]) (auto simp: defs split: if_splits intro: rw_word_steps [unfolded One_nat_def])
  next
    case unlock_upgrade_and_lock_loop
    with c n(2) sx test show ?thesis
      by (intro exI [of _ "if b = UPGRADED then 0 else u"]) (auto simp: defs split: if_splits intro: rw_word_steps [unfolded One_nat_def])
  next
    case try_unlock_upgrade_and_lock
    with c n(2) sx test show ?thesis
      by (intro exI [of _ "if b = UPGRADED then 0 else u"]) (auto simp: defs split: if_splits intro: rw_word_steps [unfolded One_nat_def])
  next
    case unlock_upgrade_and_lock_shared
    with c n(2) sx test show ?thesis
      by (intro exI [of _ 0]) (auto simp: defs split: if_splits intro: rw_word_steps [unfolded One_nat_def])
  next
    case unlock_and_lock_upgrade
    with c n(2) sx test show ?thesis
      by (intro exI [of _ 1]) (auto simp: defs split: if_splits intro: rw_word_steps [unfolded One_nat_def])
  next
    case unlock_and_lock_upgrade_2
    with c n(2) sx test show ?thesis
      by (intro exI [of _ 1]) (auto simp: defs split: if_splits intro: rw_word_steps [unfolded One_nat_def])
  qed
  with n(1) show ?thesis by (simp add: rw_inv_def d)
qed


section \<open>The lock as a reader-writer lock\<close>

fun rw_holds :: "rw_pc \<Rightarrow> mode" where
  "rw_holds (Holding m) = m"
| "rw_holds Promoting = Upgrade"
| "rw_holds Downgrading = Exclusive"
| "rw_holds Regrading = Exclusive"
| "rw_holds p = Unlocked"

fun rw_weight :: "rw_pc \<Rightarrow> nat" where
  "rw_weight (Holding Unlocked) = 0"
| "rw_weight (Holding m) = 1"
| "rw_weight (Backing_off again) = 1"
| "rw_weight Promoting = 2"
| "rw_weight Downgrading = 2"
| "rw_weight Regrading = 2"
| "rw_weight p = 0"

lemma rw_holds_counts:
  "rw_holds p = Exclusive \<Longrightarrow> adds_writer p = 1" "rw_holds p = Upgrade \<Longrightarrow> owns_upgrade p = 1"
  "rw_holds p = Shared \<Longrightarrow> in_shared p = 1"
  by (cases p rule: rw_holds.cases; simp add: in_shared_def)+

text \<open>A thread that is not waiting for others can release what it has.\<close>

lemma rw_release:
  assumes "0 < rw_weight p" and "p \<noteq> Promoting"
  shows "\<exists>b' p'. rw_act b p b' p' \<and> rw_weight p' < rw_weight p"
proof (cases p)
  case (Holding m)
  with assms show ?thesis
    using rw_act.unlock_shared [of b] rw_act.unlock_upgrade [of b] rw_act.unlock [of b] by (cases m) force+
next
  case (Backing_off again)
  with rw_act.back_off [of b again] show ?thesis by (cases again) force+
next
  case Downgrading
  with rw_act.unlock_and_lock_shared_2 [of b] show ?thesis by force
next
  case Regrading
  with rw_act.unlock_and_lock_upgrade_2 [of b] show ?thesis by force
qed (use assms in simp_all)

lemma rw_quiet:
  assumes "rw_inv b M" and "\<And>p. p \<in># M \<Longrightarrow> adds_reader p = 0 \<and> adds_writer p = 0"
  shows "b = (if \<exists>p \<in># M. owns_upgrade p \<noteq> 0 then UPGRADED else 0)"
proof -
  have zero: "total adds_reader M = 0" "total adds_writer M = 0" using assms(2) by simp_all
  obtain u where u: "rw_counts b u 0 (total in_shared M) 0 (total owns_upgrade M) (total regrades M)"
    using assms(1) unfolding rw_inv_def zero by blast
  note test = rw_word_test [OF u [unfolded rw_counts_def, THEN conjunct1]]
  show ?thesis
  proof (cases "\<exists>p \<in># M. owns_upgrade p \<noteq> 0")
    case True
    then have "total owns_upgrade M \<noteq> 0" by simp
    then have "total owns_upgrade M = 1" using u unfolding rw_counts_def by linarith
    with u test(4) True show ?thesis by (simp add: rw_counts_def)
  next
    case False
    then have "total owns_upgrade M = 0" by simp
    with u test(3) False show ?thesis by (simp add: rw_counts_def)
  qed
qed

interpretation rwspin: rw_lock rw_act rw_inv rw_weight rw_holds
proof
  fix b p M b' p'
  assume "rw_inv b (add_mset p M)" and "rw_act b p b' p'"
  then show "rw_inv b' (add_mset p' M)" by (rule rw_act_inv)
next
  fix b M q
  assume inv: "rw_inv b M" and q: "q \<in># M" "0 < rw_weight q"
  show "\<exists>p N b' p'. M = add_mset p N \<and> rw_act b p b' p' \<and> rw_weight p' < rw_weight p"
  proof (cases "\<exists>p \<in># M. 0 < rw_weight p \<and> p \<noteq> Promoting")
    case True
    then show ?thesis using rw_release by (metis mset_add)
  next
    case False
    then have "q = Promoting" "\<forall>p \<in># M. rw_weight p = 0 \<or> p = Promoting" using q by auto
    moreover have "rw_weight p = 0 \<or> p = Promoting \<Longrightarrow> adds_reader p = 0 \<and> adds_writer p = 0" for p
      by (cases p rule: rw_weight.cases) simp_all
    ultimately have "b = UPGRADED" using rw_quiet [OF inv] q(1) by (metis owns_upgrade.simps(2) zero_neq_one)
    then have "rw_act b Promoting WRITER (Holding Exclusive)"
      using unlock_upgrade_and_lock_loop [of b True WRITER] by (simp add: rw_try_defs)
    with q(1) \<open>q = Promoting\<close> show ?thesis
      by (metis mset_add rw_weight.simps(4,6) mode.distinct one_less_numeral_iff semiring_norm(76))
  qed
next
  fix b p q M
  assume "rw_inv b (add_mset p (add_mset q M))"
  then show "compatible (rw_holds p) (rw_holds q)"
    using rw_holds_counts [of p] rw_holds_counts [of q]
    by (cases "rw_holds p"; cases "rw_holds q") (auto simp: rw_inv_def rw_counts_def)
qed

lemma rw_inv_init:
  assumes "n < 2 ^ 30"
  shows "rw_inv RWSpinLock_init (replicate_mset n (Holding Unlocked))"
proof -
  have z: "total f (replicate_mset n (Holding Unlocked)) = 0" if "f (Holding Unlocked) = 0" for f
    using that by simp
  show ?thesis
    using assms
    by (auto simp: rw_inv_def rw_counts_def rw_word_def RWSpinLock_init_def z in_shared_def regrades_def)
qed

section \<open>Properties\<close>

text \<open>
  C2. In every state that fewer than 2^30 threads can reach by interleaving the atomic accesses of
  all member functions of \<open>RWSpinLock\<close>, any two threads hold compatible modes (a writer excludes
  everybody, an upgrader other upgraders), the upper bits of the word count the readers and the
  attempts that are about to back off, and the lowest bit is set exactly when there is a writer.
\<close>

theorem rwspinlock_exclusion:
  assumes "n < 2 ^ 30"
    and "pool_reach rw_act (RWSpinLock_init, replicate_mset n (Holding Unlocked)) (b, M)"
  shows "(\<forall>p q N. M = add_mset p (add_mset q N) \<longrightarrow> compatible (rw_holds p) (rw_holds q))
    \<and> unat b div 4 = total adds_reader M \<and> (odd (unat b) \<longleftrightarrow> (\<exists>p \<in># M. rw_holds p = Exclusive))"
proof -
  have inv: "rw_inv b M" using rwspin.reach_inv [OF assms(2)] rw_inv_init [OF assms(1)] by simp
  then obtain u where u: "rw_word b (total adds_reader M) u (total adds_writer M)"
    by (auto simp: rw_inv_def rw_counts_def)
  define W where "W = total adds_writer M"
  have b: "unat b = 2 * (2 * total adds_reader M + u) + W" "u \<le> 1" "W \<le> 1"
    using u by (simp_all add: rw_word_def W_def)
  have "adds_writer p \<noteq> 0 \<longleftrightarrow> rw_holds p = Exclusive" for p
    by (cases p rule: adds_writer.cases) simp_all
  then have "W \<noteq> 0 \<longleftrightarrow> (\<exists>p \<in># M. rw_holds p = Exclusive)" by (simp add: W_def)
  moreover have "odd (unat b) \<longleftrightarrow> W \<noteq> 0" using b by (auto simp: le_Suc_eq)
  moreover have "unat b div 4 = total adds_reader M" using b by simp
  moreover have "compatible (rw_holds p) (rw_holds q)" if "M = add_mset p (add_mset q N)" for p q N
    using inv unfolding that by (rule rwspin.exclusion)
  ultimately show ?thesis by simp
qed

theorem rwspinlock_exclusion_witness:
  "\<exists>b M. pool_reach rw_act (RWSpinLock_init, replicate_mset 2 (Holding Unlocked)) (b, M)
    \<and> M = {#Holding Shared, Holding Unlocked#} \<and> unat b div 4 = 1"
proof -
  have "rw_act RWSpinLock_init (Holding Unlocked) READER (Holding Shared)"
    using rw_act.try_lock_shared [of RWSpinLock_init True READER] by (simp add: rw_try_defs RWSpinLock_init_def)
  from pool_reach_1 [of rw_act, OF this, of "{#Holding Unlocked#}"]
  have r: "pool_reach rw_act (RWSpinLock_init, replicate_mset 2 (Holding Unlocked))
      (READER, {#Holding Shared, Holding Unlocked#})"
    by (simp add: numeral_2_eq_2)
  have "unat READER div 4 = 1" using rwspinlock_exclusion [OF _ r] by simp
  with r show ?thesis by (intro exI [of _ READER] exI [of _ "{#Holding Shared, Holding Unlocked#}"]) simp
qed

text \<open>
  C10. No leftover of a failed or finished attempt can block the lock: from every state the threads
  can reach, they can also reach one where all calls but spinning ones have returned and all locks
  are released, and there the word is zero, so that the next attempt of any spinning or new
  \<open>lock\<close>, \<open>lock_shared\<close> or \<open>lock_upgrade\<close> succeeds.
\<close>

theorem rwspinlock_available:
  assumes "n < 2 ^ 30"
    and "pool_reach rw_act (RWSpinLock_init, replicate_mset n (Holding Unlocked)) (b, M)"
  shows "\<exists>b' M'. pool_reach rw_act (b, M) (b', M')
    \<and> (\<forall>p \<in># M'. p \<in> {Holding Unlocked, Locking, Locking_shared, Locking_upgrade}) \<and> b' = 0
    \<and> fst (RWSpinLock_try_lock b') \<and> fst (RWSpinLock_add_shared b') \<and> fst (RWSpinLock_try_lock_upgrade b')"
proof -
  obtain b' M' where r: "pool_reach rw_act (b, M) (b', M')" and inv: "rw_inv b' M'"
    and w: "\<forall>p \<in># M'. rw_weight p = 0"
    using rwspin.reach_quiesce [OF rw_inv_init [OF assms(1)] assms(2)] by blast
  have idle: "rw_weight p = 0 \<Longrightarrow> p \<in> {Holding Unlocked, Locking, Locking_shared, Locking_upgrade}" for p
    by (cases p rule: rw_weight.cases) simp_all
  have "adds_reader p = 0 \<and> adds_writer p = 0 \<and> owns_upgrade p = 0" if "p \<in># M'" for p
    using idle [of p] w that by auto
  then have "b' = 0" using rw_quiet [OF inv] by simp
  then show ?thesis using r w idle by (intro exI [of _ b'] exI [of _ M']) (auto simp: rw_try_defs)
qed

theorem rwspinlock_available_witness:
  "\<exists>b' M'. pool_reach rw_act (WRITER, {#Holding Exclusive#}) (b', M') \<and> b' = 0"
proof -
  have "rw_act RWSpinLock_init (Holding Unlocked) WRITER (Holding Exclusive)"
    using rw_act.try_lock [of RWSpinLock_init True WRITER] by (simp add: rw_try_defs RWSpinLock_init_def)
  from pool_reach_1 [of rw_act, OF this, of "{#}"]
  have r: "pool_reach rw_act (RWSpinLock_init, replicate_mset 1 (Holding Unlocked)) (WRITER, {#Holding Exclusive#})"
    by simp
  have "(1 :: nat) < 2 ^ 30" by simp
  from rwspinlock_available [OF this r] show ?thesis by (elim exE conjE, intro exI conjI)
qed

end
