(* ===== verification/RWTicketSpinLock.thy ===== *)
theory RWTicketSpinLock
  imports Thread_Pool Folly_Prelude
begin

text \<open>
  \<open>RWTicketSpinLockT\<close> of \<open>folly/synchronization/RWSpinLock.h\<close>: a reader-writer spin lock made of three
  tickets in one word. The tickets are words of any width \<open>'q\<close> (8 bits in \<open>RWTicketSpinLock32\<close>, 16 in
  \<open>RWTicketSpinLock64\<close>). Member functions are sequences of atomic accesses to the whole word or a part
  of it, with what a thread has read in its program point. The flag \<open>sse\<close> selects between the two
  ways in which the source computes the next tickets, by a parallel addition or field by field.
\<close>

section \<open>Tickets\<close>

record 'w ticket =
  twrite :: 'w
  tread :: 'w
  tusers :: 'w

definition ticket_init :: "('q::len word) ticket" where
  "ticket_init = \<lparr>twrite = 0, tread = 0, tusers = 0\<rparr>"

text \<open>Lane-wise addition of (write, read, users).\<close>

definition addParallel :: "('q::len word) ticket \<Rightarrow> 'q word ticket \<Rightarrow> 'q word ticket" where
  "addParallel m kDelta =
     \<lparr>twrite = twrite m + twrite kDelta, tread = tread m + tread kDelta, tusers = tusers m + tusers kDelta\<rparr>"

definition sync_bool_compare_and_swap ::
  "('q::len word) ticket \<Rightarrow> 'q word ticket \<Rightarrow> 'q word ticket \<Rightarrow> bool \<times> 'q word ticket" where
  "sync_bool_compare_and_swap t old new = (if t = old then (True, new) else (False, t))"

text \<open>\<open>try_lock\<close> up to the compare-and-swap: the expected and the new value, unless it gives up.\<close>

definition try_lock_load :: "('q::len word) ticket \<Rightarrow> ('q word ticket \<times> 'q word ticket) option" where
  "try_lock_load t = (if tusers t \<noteq> twrite t then None else Some (t, t\<lparr>tusers := tusers t + 1\<rparr>))"

text \<open>\<open>unlock\<close> up to the store: the new write and read tickets.\<close>

definition unlock_load :: "bool \<Rightarrow> ('q::len word) ticket \<Rightarrow> 'q word \<times> 'q word" where
  "unlock_load sse t0 =
     (let t = (if sse then addParallel t0 \<lparr>twrite = 1, tread = 1, tusers = 0\<rparr>
               else t0\<lparr>tread := tread t0 + 1, twrite := twrite t0 + 1\<rparr>) in
      (twrite t, tread t))"

text \<open>\<open>try_lock_shared\<close> up to the compare-and-swap.\<close>

definition try_lock_shared_load :: "bool \<Rightarrow> ('q::len word) ticket \<Rightarrow> 'q word ticket \<times> 'q word ticket" where
  "try_lock_shared_load sse t0 =
     (let old = t0\<lparr>tusers := tread t0\<rparr>;
          t = (if sse then addParallel old \<lparr>twrite = 0, tread = 1, tusers = 1\<rparr>
               else t0\<lparr>tread := tread t0 + 1, tusers := tusers t0 + 1\<rparr>) in
      (old, t))"

section \<open>Member functions as programs\<close>

text \<open>
  A thread is outside any call (\<open>TIdle\<close>, \<open>TReading\<close>, \<open>TWriting\<close>), or in a call: in the loop of
  \<open>writeLockNice\<close> or \<open>lock_shared\<close> (\<open>TNice\<close>, \<open>TShared\<close>), before a compare-and-swap, called alone or
  from the loop, waiting for its ticket in \<open>writeLockAggressive\<close>, or before the store of \<open>unlock\<close>.
  \<open>lock\<close> is \<open>writeLockAggressive\<close> or \<open>writeLockNice\<close>, according to \<open>kFavorWriter\<close>; both are public and
  threads may mix them.
\<close>

datatype 'w tk_pc =
    TIdle | TReading | TWriting
  | TNice | TShared
  | TWait 'w
  | TCasWrite bool "'w ticket" "'w ticket"
  | TCasShared bool "'w ticket" "'w ticket"
  | TUnlock 'w 'w

inductive tk_act :: "bool \<Rightarrow> ('q::len word) ticket \<Rightarrow> 'q word tk_pc \<Rightarrow> 'q word ticket \<Rightarrow> 'q word tk_pc \<Rightarrow> bool"
  for sse where
  writeLockAggressive: "tk_act sse t TIdle (t\<lparr>tusers := tusers t + 1\<rparr>) (TWait (tusers t))"
| writeLockAggressive_loop: "tk_act sse t (TWait val) t (if val \<noteq> twrite t then TWait val else TWriting)"
| writeLockNice: "tk_act sse t TIdle t TNice"
| writeLockNice_loop:
    "tk_act sse t TNice t
       (case try_lock_load t of None \<Rightarrow> TNice | Some (old, new) \<Rightarrow> TCasWrite True old new)"
| try_lock:
    "tk_act sse t TIdle t
       (case try_lock_load t of None \<Rightarrow> TIdle | Some (old, new) \<Rightarrow> TCasWrite False old new)"
| try_lock_cas:
    "sync_bool_compare_and_swap t old new = (ok, t') \<Longrightarrow>
     tk_act sse t (TCasWrite again old new) t' (if ok then TWriting else if again then TNice else TIdle)"
| unlock_and_lock_shared: "tk_act sse t TWriting (t\<lparr>tread := tread t + 1\<rparr>) TReading"
| unlock: "unlock_load sse t = (w, r) \<Longrightarrow> tk_act sse t TWriting t (TUnlock w r)"
| unlock_store: "tk_act sse t (TUnlock w r) (t\<lparr>twrite := w, tread := r\<rparr>) TIdle"
| lock_shared: "tk_act sse t TIdle t TShared"
| lock_shared_loop:
    "try_lock_shared_load sse t = (old, new) \<Longrightarrow> tk_act sse t TShared t (TCasShared True old new)"
| try_lock_shared:
    "try_lock_shared_load sse t = (old, new) \<Longrightarrow> tk_act sse t TIdle t (TCasShared False old new)"
| try_lock_shared_cas:
    "sync_bool_compare_and_swap t old new = (ok, t') \<Longrightarrow>
     tk_act sse t (TCasShared again old new) t' (if ok then TReading else if again then TShared else TIdle)"
| unlock_shared: "tk_act sse t TReading (t\<lparr>twrite := twrite t + 1\<rparr>) TIdle"

lemmas tk_defs = try_lock_load_def unlock_load_def try_lock_shared_load_def addParallel_def
  sync_bool_compare_and_swap_def Let_def

section \<open>The invariant\<close>

text \<open>
  The distance of a ticket from \<open>twrite\<close> is its place in the queue: readers inside come first, then
  the writer inside or the waiting ones, in the order of their tickets and without gaps.
\<close>

fun place :: "('q::len word) ticket \<Rightarrow> 'q word tk_pc \<Rightarrow> nat multiset" where
  "place t (TWait v) = {#unat (v - twrite t)#}"
| "place t TWriting = {#0#}"
| "place t (TUnlock w r) = {#0#}"
| "place t p = {#}"

definition places :: "('q::len word) ticket \<Rightarrow> 'q word tk_pc multiset \<Rightarrow> nat multiset" where
  "places t M = (\<Sum>p \<in># M. place t p)"

abbreviation readers :: "('q::len word) tk_pc multiset \<Rightarrow> nat" where
  "readers M \<equiv> count M TReading"

text \<open>What a thread knows between two accesses.\<close>

fun tk_local :: "('q::len word) ticket \<Rightarrow> 'q word tk_pc \<Rightarrow> bool" where
  "tk_local t (TCasWrite again old new) \<longleftrightarrow> tusers old = twrite old \<and> new = old\<lparr>tusers := tusers old + 1\<rparr>"
| "tk_local t (TCasShared again old new) \<longleftrightarrow>
     tusers old = tread old \<and> new = old\<lparr>tread := tread old + 1, tusers := tusers old + 1\<rparr>"
| "tk_local t (TUnlock w r) \<longleftrightarrow> w = twrite t + 1 \<and> r = tread t + 1"
| "tk_local t p \<longleftrightarrow> True"

definition tk_queue :: "('q::len word) ticket \<Rightarrow> nat \<Rightarrow> nat multiset \<Rightarrow> bool" where
  "tk_queue t r Q \<longleftrightarrow> tread t - twrite t = of_nat r \<and> tusers t - twrite t = of_nat (r + size Q)
     \<and> Q = mset [r..<r + size Q]"

definition tk_inv :: "('q::len word) ticket \<Rightarrow> 'q word tk_pc multiset \<Rightarrow> bool" where
  "tk_inv t M \<longleftrightarrow> size M < 2 ^ LENGTH('q) \<and> (\<forall>p \<in># M. tk_local t p) \<and> tk_queue t (readers M) (places t M)"

lemma places_simps [simp]:
  "places t {#} = {#}" "places t (add_mset p M) = place t p + places t M"
  by (simp_all add: places_def)

lemma members_le_size: "readers M + size (places t M) \<le> size M"
proof (induction M)
  case (add p M)
  then show ?case by (cases p) auto
qed simp


text \<open>What the equations between tickets say about the queue, as long as it is shorter than \<open>2\<^sup>q\<close>.\<close>

lemma of_nat_word_inject:
  assumes "a < 2 ^ LENGTH('q)" and "b < 2 ^ LENGTH('q)" and "(of_nat a :: 'q::len word) = of_nat b"
  shows "a = b"
proof -
  have "unat (of_nat a :: 'q word) = unat (of_nat b :: 'q word)" by (simp only: assms(3))
  then show ?thesis using assms(1,2) by (simp add: unsigned_of_nat take_bit_nat_eq_self)
qed

lemma queue_facts:
  fixes t :: "('q::len word) ticket"
  assumes "tk_queue t r Q" and "r + size Q < 2 ^ LENGTH('q)"
  shows "tusers t = twrite t \<Longrightarrow> r = 0 \<and> Q = {#}" "tusers t = tread t \<Longrightarrow> Q = {#}"
    "unat (tusers t - twrite t) = r + size Q" "n \<in># Q \<longleftrightarrow> r \<le> n \<and> n < r + size Q" "count Q n \<le> 1"
proof -
  have q: "tread t - twrite t = of_nat r" "tusers t - twrite t = of_nat (r + size Q)" "Q = mset [r..<r + size Q]"
    using assms(1) by (simp_all add: tk_queue_def)
  show "unat (tusers t - twrite t) = r + size Q" using q(2) assms(2) by (simp add: unsigned_of_nat take_bit_nat_eq_self del: of_nat_add)
  then show "tusers t = twrite t \<Longrightarrow> r = 0 \<and> Q = {#}" by simp
  show "Q = {#}" if "tusers t = tread t"
    using of_nat_word_inject [of r "r + size Q", where 'q = 'q] q(1,2) that assms(2) by simp
  show "n \<in># Q \<longleftrightarrow> r \<le> n \<and> n < r + size Q" by (subst q(3)) auto
  show "count Q n \<le> 1" by (subst q(3)) (simp add: count_mset_set')
qed

lemma queue_bound:
  fixes t :: "('q::len word) ticket"
  assumes "tk_inv t M"
  shows "readers M + size (places t M) < 2 ^ LENGTH('q)"
  using assms members_le_size [of M t] by (simp add: tk_inv_def)

lemma local_same:
  "twrite t' = twrite t \<Longrightarrow> tread t' = tread t \<Longrightarrow> tk_local t' p = tk_local t p"
  by (cases p) simp_all

lemma local_no_holder:
  assumes "0 \<notin># places t M" and "\<forall>p \<in># M. tk_local t p"
  shows "\<forall>p \<in># M. tk_local t' p"
proof
  fix p assume p: "p \<in># M"
  then obtain N where "M = add_mset p N" by (metis mset_add)
  with assms show "tk_local t' p" by (cases p) auto
qed

lemma places_same: "twrite t' = twrite t \<Longrightarrow> places t' M = places t M"
proof (induction M)
  case (add p M)
  then show ?case by (cases p) simp_all
qed simp

lemma places_next:
  assumes "0 \<notin># places t M" and "twrite t' = twrite t + 1"
  shows "places t' M = image_mset (\<lambda>n. n - 1) (places t M)"
  using assms(1)
proof (induction M)
  case (add p M)
  have "unat (v - (twrite t + 1)) = unat (v - twrite t) - 1" if "unat (v - twrite t) \<noteq> 0" for v
  proof -
    from that have "v - twrite t \<noteq> 0" by (metis unat_0)
    from unat_minus_one [OF this] show ?thesis by (simp add: diff_diff_eq)
  qed
  with add assms(2) show ?case by (cases p) auto
qed simp

lemma mset_upt_Suc: "mset [r..<r + Suc k] = add_mset r (mset [Suc r..<Suc r + k])"
  by (subst upt_conv_Cons) simp_all

lemma mset_upt_decr: "image_mset (\<lambda>n. n - 1) (mset [Suc r..<Suc r + k]) = mset [r..<r + k]"
proof -
  have "map (\<lambda>n. n - 1) [Suc r..<Suc r + k] = [r..<r + k]" using map_decr_upt [of r "r + k"] by simp
  then show ?thesis by (simp only: mset_map [symmetric])
qed

text \<open>How the queue changes with the tickets.\<close>

lemma queue_push:
  assumes "tk_queue t r Q" and "t' = t\<lparr>tusers := tusers t + 1\<rparr>"
  shows "tk_queue t' r (add_mset (r + size Q) Q)"
proof -
  have u: "tread t - twrite t = of_nat r" "tusers t - twrite t = of_nat (r + size Q)"
    and m: "Q = mset [r..<r + size Q]" using assms(1) by (simp_all only: tk_queue_def)
  have "tusers t' - twrite t' = (tusers t - twrite t) + 1" by (simp add: assms(2))
  also have "\<dots> = of_nat (r + Suc (size Q))" by (simp only: u) simp
  finally have "tusers t' - twrite t' = of_nat (r + Suc (size Q))" .
  moreover have "add_mset (r + size Q) Q = mset [r..<r + Suc (size Q)]" using m by (simp del: mset_upt)
  ultimately show ?thesis
    using u(1) by (simp add: tk_queue_def assms(2) del: mset_upt upt_Suc of_nat_add of_nat_Suc)
qed

lemma queue_reader_in:
  assumes "tk_queue t r {#}" and "t' = t\<lparr>tread := tread t + 1, tusers := tusers t + 1\<rparr>"
  shows "tk_queue t' (Suc r) {#}"
proof -
  have "tread t' - twrite t' = (tread t - twrite t) + 1" "tusers t' - twrite t' = (tusers t - twrite t) + 1"
    by (simp_all add: assms(2))
  with assms(1) show ?thesis by (simp add: tk_queue_def)
qed

lemma queue_reader_out:
  assumes "tk_queue t (Suc r) Q" and "t' = t\<lparr>twrite := twrite t + 1\<rparr>"
  shows "tk_queue t' r (image_mset (\<lambda>n. n - 1) Q)"
proof -
  have "tread t' - twrite t' = (tread t - twrite t) - 1" "tusers t' - twrite t' = (tusers t - twrite t) - 1"
    by (simp_all add: assms(2))
  moreover have "image_mset (\<lambda>n. n - 1) Q = mset [r..<r + size Q]"
    using assms(1) mset_upt_decr [of r "size Q"] by (metis tk_queue_def)
  ultimately show ?thesis using assms(1) by (simp add: tk_queue_def)
qed

lemma queue_tail:
  assumes "tk_queue t 0 (add_mset 0 Q)"
  shows "Q = mset [1..<1 + size Q]"
proof -
  have "add_mset 0 Q = mset [0..<0 + Suc (size Q)]" using assms by (simp add: tk_queue_def del: mset_upt upt_Suc)
  also have "\<dots> = add_mset 0 (mset [Suc 0..<Suc 0 + size Q])" by (rule mset_upt_Suc)
  finally show ?thesis by (simp del: mset_upt)
qed

lemma queue_writer_out:
  assumes "tk_queue t 0 (add_mset 0 Q)" and "t' = t\<lparr>twrite := twrite t + 1, tread := tread t + 1\<rparr>"
  shows "tk_queue t' 0 (image_mset (\<lambda>n. n - 1) Q)"
proof -
  have "tread t' - twrite t' = tread t - twrite t" "tusers t' - twrite t' = (tusers t - twrite t) - 1"
    by (simp_all add: assms(2))
  moreover have "image_mset (\<lambda>n. n - 1) Q = mset [0..<0 + size Q]"
    using queue_tail [OF assms(1)] mset_upt_decr [of 0 "size Q"] by (metis One_nat_def)
  ultimately show ?thesis using assms(1) by (simp add: tk_queue_def)
qed

lemma queue_downgrade:
  assumes "tk_queue t 0 (add_mset 0 Q)" and "t' = t\<lparr>tread := tread t + 1\<rparr>"
  shows "tk_queue t' 1 Q"
proof -
  have "tread t' - twrite t' = (tread t - twrite t) + 1" by (simp add: assms(2))
  with assms queue_tail [OF assms(1)] show ?thesis by (simp add: tk_queue_def)
qed

section \<open>Preservation\<close>

text \<open>Steps that move no ticket.\<close>

lemma tk_inv_keep:
  assumes "tk_inv t (add_mset p M)" and "place t p' = place t p" and "p' = TReading \<longleftrightarrow> p = TReading"
    and "tk_local t p'"
  shows "tk_inv t (add_mset p' M)"
  using assms by (auto simp: tk_inv_def)

lemma tk_inv_enqueue:
  assumes "tk_inv t (add_mset TIdle M)" and "t' = t\<lparr>tusers := tusers t + 1\<rparr>"
  shows "tk_inv t' (add_mset (TWait (tusers t)) M)"
proof -
  have q: "tk_queue t (readers M) (places t M)" using assms(1) by (simp add: tk_inv_def)
  have n: "unat (tusers t - twrite t) = readers M + size (places t M)"
    using queue_facts(3) [OF q] queue_bound [OF assms(1)] by simp
  have "places t' M = places t M" "\<forall>p \<in># M. tk_local t' p"
    using assms(1) local_same [of t' t] places_same [of t' t] by (simp_all add: tk_inv_def assms(2))
  with queue_push [OF q assms(2)] assms(1) n show ?thesis by (simp add: tk_inv_def assms(2))
qed

lemma tk_inv_writer_in:
  assumes "tk_inv t (add_mset (TCasWrite again t new) M)"
  shows "tk_inv new (add_mset TWriting M)"
proof -
  have new: "new = t\<lparr>tusers := tusers t + 1\<rparr>" and q: "tk_queue t (readers M) (places t M)"
    and u: "tusers t = twrite t"
    using assms by (simp_all add: tk_inv_def)
  have e: "readers M = 0 \<and> places t M = {#}"
    using queue_facts(1) [OF q _ u] queue_bound [OF assms] by simp
  have "places new M = places t M" "\<forall>p \<in># M. tk_local new p"
    using assms local_same [of new t] places_same [of new t] by (simp_all add: tk_inv_def new)
  with queue_push [OF q new] e assms show ?thesis by (simp add: tk_inv_def)
qed

lemma tk_inv_reader_in:
  assumes "tk_inv t (add_mset (TCasShared again t new) M)"
  shows "tk_inv new (add_mset TReading M)"
proof -
  have new: "new = t\<lparr>tread := tread t + 1, tusers := tusers t + 1\<rparr>"
    and q: "tk_queue t (readers M) (places t M)" and u: "tusers t = tread t"
    using assms by (simp_all add: tk_inv_def)
  have e: "places t M = {#}"
    using queue_facts(2) [OF q _ u] queue_bound [OF assms] by simp
  have "places new M = {#}" "\<forall>p \<in># M. tk_local new p"
    using assms local_no_holder [of t M new] places_same [of new t] e by (simp_all add: tk_inv_def new)
  with queue_reader_in [OF q [unfolded e] new] assms show ?thesis by (simp add: tk_inv_def)
qed

lemma tk_inv_reader_out:
  assumes "tk_inv t (add_mset TReading M)" and "t' = t\<lparr>twrite := twrite t + 1\<rparr>"
  shows "tk_inv t' (add_mset TIdle M)"
proof -
  have q: "tk_queue t (Suc (readers M)) (places t M)" using assms(1) by (simp add: tk_inv_def)
  have "0 \<notin># places t M" using queue_facts(4) [OF q] queue_bound [OF assms(1)] by simp
  then have "places t' M = image_mset (\<lambda>n. n - 1) (places t M)" "\<forall>p \<in># M. tk_local t' p"
    using assms(1) local_no_holder [of t M t'] by (simp_all add: places_next tk_inv_def assms(2))
  with queue_reader_out [OF q assms(2)] assms(1) show ?thesis by (simp add: tk_inv_def)
qed

lemma tk_holder:
  assumes "tk_inv t (add_mset p M)" and "place t p = {#0#}"
  shows "tk_queue t 0 (add_mset 0 (places t M))" "readers M = 0" "0 \<notin># places t M"
proof -
  have "p \<noteq> TReading" using assms(2) by auto
  then have q: "tk_queue t (readers M) (add_mset 0 (places t M))" using assms by (simp add: tk_inv_def)
  have b: "readers M + size (add_mset 0 (places t M)) < 2 ^ LENGTH('a)"
    using queue_bound [OF assms(1)] \<open>p \<noteq> TReading\<close> assms(2) by simp
  show r: "readers M = 0" using queue_facts(4) [OF q b, of 0] by simp
  show "tk_queue t 0 (add_mset 0 (places t M))" using q by (simp add: r)
  show "0 \<notin># places t M" using queue_facts(5) [OF q b, of 0] by (simp add: count_eq_zero_iff)
qed

lemma tk_inv_writer_out:
  assumes "tk_inv t (add_mset (TUnlock w r) M)" and "t' = t\<lparr>twrite := w, tread := r\<rparr>"
  shows "tk_inv t' (add_mset TIdle M)"
proof -
  note h = tk_holder [OF assms(1)]
  have t': "t' = t\<lparr>twrite := twrite t + 1, tread := tread t + 1\<rparr>"
    using assms by (simp add: tk_inv_def)
  have "places t' M = image_mset (\<lambda>n. n - 1) (places t M)" "\<forall>p \<in># M. tk_local t' p"
    using h(3) assms(1) local_no_holder [of t M t'] by (simp_all add: places_next tk_inv_def t')
  with queue_writer_out [OF h(1) t'] h(2) assms(1) show ?thesis by (simp add: tk_inv_def)
qed

lemma tk_inv_downgrade:
  assumes "tk_inv t (add_mset TWriting M)" and "t' = t\<lparr>tread := tread t + 1\<rparr>"
  shows "tk_inv t' (add_mset TReading M)"
proof -
  note h = tk_holder [OF assms(1)]
  have "places t' M = places t M" "\<forall>p \<in># M. tk_local t' p"
    using h(3) assms(1) local_no_holder [of t M t'] places_same [of t' t] by (simp_all add: tk_inv_def assms(2))
  with queue_downgrade [OF h(1) assms(2)] h(2) assms(1) show ?thesis by (simp add: tk_inv_def)
qed

lemma tk_act_inv:
  assumes "tk_inv t (add_mset p M)" and "tk_act True t p t' p'"
  shows "tk_inv t' (add_mset p' M)"
  using assms(2)
proof cases
  case writeLockAggressive
  with assms(1) show ?thesis by (auto intro: tk_inv_enqueue)
next
  case (writeLockAggressive_loop val)
  with assms(1) show ?thesis by (auto intro: tk_inv_keep [OF assms(1)])
next
  case (try_lock_cas old new ok again)
  then show ?thesis
    using assms(1) tk_inv_writer_in [of t again new M] tk_inv_keep [OF assms(1), of p']
    by (cases "t = old") (simp_all add: sync_bool_compare_and_swap_def)
next
  case (try_lock_shared_cas old new ok again)
  then show ?thesis
    using assms(1) tk_inv_reader_in [of t again new M] tk_inv_keep [OF assms(1), of p']
    by (cases "t = old") (simp_all add: sync_bool_compare_and_swap_def)
next
  case unlock_and_lock_shared
  with assms(1) show ?thesis by (auto intro: tk_inv_downgrade)
next
  case (unlock_store w r)
  with assms(1) show ?thesis by (auto intro: tk_inv_writer_out)
next
  case unlock_shared
  with assms(1) show ?thesis by (auto intro: tk_inv_reader_out)
qed (auto simp: tk_defs intro!: tk_inv_keep [OF assms(1)])

section \<open>The lock as a reader-writer lock\<close>

fun tk_holds :: "'w tk_pc \<Rightarrow> mode" where
  "tk_holds TReading = Shared"
| "tk_holds TWriting = Exclusive"
| "tk_holds (TUnlock w r) = Exclusive"
| "tk_holds p = Unlocked"

fun tk_weight :: "'w tk_pc \<Rightarrow> nat" where
  "tk_weight TReading = 1"
| "tk_weight TWriting = 2"
| "tk_weight (TUnlock w r) = 1"
| "tk_weight (TWait v) = 3"
| "tk_weight (TCasWrite again old new) = 3"
| "tk_weight (TCasShared again old new) = 2"
| "tk_weight p = 0"

lemma tk_release:
  assumes "0 < tk_weight p" and "\<And>v. p \<noteq> TWait v"
  shows "\<exists>t' p'. tk_act sse t p t' p' \<and> tk_weight p' < tk_weight p"
proof (cases p)
  case TReading
  with tk_act.unlock_shared [of sse t] show ?thesis by force
next
  case TWriting
  with tk_act.unlock [of sse t] show ?thesis by (cases "unlock_load sse t") force
next
  case (TCasWrite again old new)
  obtain ok t' where "sync_bool_compare_and_swap t old new = (ok, t')" by fastforce
  from tk_act.try_lock_cas [of t old new ok t' sse again, OF this] TCasWrite show ?thesis
    by (intro exI conjI) (auto split: if_splits)
next
  case (TCasShared again old new)
  obtain ok t' where "sync_bool_compare_and_swap t old new = (ok, t')" by fastforce
  from tk_act.try_lock_shared_cas [of t old new ok t' sse again, OF this] TCasShared show ?thesis
    by (intro exI conjI) (auto split: if_splits)
next
  case (TUnlock w r)
  with tk_act.unlock_store [of sse t w r] show ?thesis by force
qed (use assms in simp_all)

lemma tk_first_waits:
  fixes t :: "('q::len word) ticket"
  assumes "tk_inv t M" and "TWait v \<in># M" and "\<forall>p \<in># M. tk_weight p = 0 \<or> (\<exists>v. p = TWait v)"
  shows "TWait (twrite t) \<in># M"
proof -
  have q: "tk_queue t (readers M) (places t M)" using assms(1) by (simp add: tk_inv_def)
  have "TReading \<notin># M" using assms(3) by auto
  then have r: "readers M = 0" by (simp add: count_eq_zero_iff)
  obtain N where "M = add_mset (TWait v) N" using assms(2) by (metis mset_add)
  then have "0 < size (places t M)" by simp
  then have "0 \<in># places t M" using queue_facts(4) [OF q queue_bound [OF assms(1)], of 0] r by simp
  then obtain p where p: "p \<in># M" "0 \<in># place t p" by (auto simp: places_def)
  with assms(3) obtain v' where "p = TWait v'" by (cases p) auto
  moreover from this p(2) have "v' = twrite t" by (simp add: unat_eq_0)
  ultimately show ?thesis using p(1) by simp
qed

interpretation tklock: rw_lock "tk_act True :: ('q::len word) ticket \<Rightarrow> _" tk_inv tk_weight tk_holds
proof
  fix t :: "'q word ticket" and p M t' p'
  assume "tk_inv t (add_mset p M)" and "tk_act True t p t' p'"
  then show "tk_inv t' (add_mset p' M)" by (rule tk_act_inv)
next
  fix t :: "'q word ticket" and M q
  assume inv: "tk_inv t M" and q: "q \<in># M" "0 < tk_weight q"
  show "\<exists>p N t' p'. M = add_mset p N \<and> tk_act True t p t' p' \<and> tk_weight p' < tk_weight p"
  proof (cases "\<exists>p \<in># M. 0 < tk_weight p \<and> (\<forall>v. p \<noteq> TWait v)")
    case True
    then show ?thesis using tk_release by (metis mset_add)
  next
    case False
    then have "\<forall>p \<in># M. tk_weight p = 0 \<or> (\<exists>v. p = TWait v)" by auto
    with tk_first_waits [OF inv] q have "TWait (twrite t) \<in># M" by fastforce
    then obtain N where "M = add_mset (TWait (twrite t)) N" by (metis mset_add)
    moreover have "tk_act True t (TWait (twrite t)) t TWriting"
      using tk_act.writeLockAggressive_loop [of True t "twrite t"] by simp
    moreover have "tk_weight (TWriting :: 'q word tk_pc) < tk_weight (TWait (twrite t))" by simp
    ultimately show ?thesis by blast
  qed
next
  fix t :: "'q word ticket" and p q M
  assume inv: "tk_inv t (add_mset p (add_mset q M))"
  have w: "tk_holds p = Exclusive \<Longrightarrow> place t p = {#0#}" for p by (cases p) simp_all
  have r: "tk_holds p = Shared \<Longrightarrow> p = TReading" for p :: "'q word tk_pc" by (cases p) simp_all
  have x: "tk_holds q = Unlocked" if "tk_holds p = Exclusive" "tk_inv t (add_mset p (add_mset q M))" for p q
    using tk_holder [OF that(2) w [OF that(1)]] w [of q] r [of q] by (cases q) auto
  have u: "tk_holds p \<noteq> Upgrade" for p :: "'q word tk_pc" by (cases p) simp_all
  show "compatible (tk_holds p) (tk_holds q)"
    using x [of p q] x [of q p] inv u [of p] u [of q]
    by (cases "tk_holds p"; cases "tk_holds q") (auto simp: add_mset_commute)
qed

lemma tk_inv_init:
  assumes "n < 2 ^ LENGTH('q)"
  shows "tk_inv (ticket_init :: ('q::len word) ticket) (replicate_mset n TIdle)"
proof -
  have "places t (replicate_mset n TIdle) = {#}" for t :: "'q word ticket" by (induction n) simp_all
  then show ?thesis using assms by (simp add: tk_inv_def tk_queue_def ticket_init_def)
qed

section \<open>Waiting writers\<close>

lemma tk_waiting:
  fixes t :: "('q::len word) ticket"
  assumes "tk_inv t (add_mset (TWait v) (add_mset q N))" and "tk_act True t q t' q'"
  shows "unat (v - twrite t') \<le> unat (v - twrite t)"
    "tk_holds q = Unlocked \<Longrightarrow> tk_holds q' \<noteq> Unlocked \<Longrightarrow>
      \<exists>v'. q = TWait v' \<and> unat (v' - twrite t) < unat (v - twrite t)"
proof -
  let ?M = "add_mset (TWait v) (add_mset q N)" and ?n = "unat (v - twrite t)"
  have q: "tk_queue t (readers ?M) (places t ?M)" using assms(1) by (simp add: tk_inv_def)
  note facts = queue_facts [OF q queue_bound [OF assms(1)]]
  have n: "?n \<in># places t ?M" "places t ?M \<noteq> {#}" by simp_all
  have later: "?n \<noteq> 0" if "0 \<in># place t q"
    using facts(5) [of 0] that by (auto simp: count_eq_zero_iff split: if_splits)
  have after_readers: "?n \<noteq> 0" if "q = TReading"
    using facts(4) [of ?n] n(1) that by auto
  have next_place: "unat (v - (twrite t + 1)) \<le> ?n" if "?n \<noteq> 0"
  proof -
    from that have "v - twrite t \<noteq> 0" by (metis unat_0)
    from unat_minus_one [OF this] show ?thesis by (simp add: diff_diff_eq)
  qed
  have local: "tk_local t q" using assms(1) by (simp add: tk_inv_def)
  show "unat (v - twrite t') \<le> ?n"
    using assms(2) local later after_readers next_place
    by cases (auto simp: sync_bool_compare_and_swap_def split: if_splits)
  show "\<exists>v'. q = TWait v' \<and> unat (v' - twrite t) < ?n"
    if "tk_holds q = Unlocked" "tk_holds q' \<noteq> Unlocked"
    using assms(2) that local later facts(1,2) n(2)
    by cases (auto simp: sync_bool_compare_and_swap_def tk_defs split: if_splits option.splits)
qed

lemma tk_rank_bound:
  assumes "tk_inv t (add_mset (TWait v) M)"
  shows "unat (v - twrite t) \<le> size M"
proof -
  let ?M = "add_mset (TWait v) M"
  have q: "tk_queue t (readers ?M) (places t ?M)" using assms by (simp add: tk_inv_def)
  have "unat (v - twrite t) < readers ?M + size (places t ?M)"
    using queue_facts(4) [OF q queue_bound [OF assms], of "unat (v - twrite t)"] by simp
  then show ?thesis using members_le_size [of ?M t] by simp
qed

section \<open>The field-by-field variant\<close>

text \<open>
  Without the parallel addition, \<open>try_lock_shared\<close> computes the new tickets from the users it has
  read, but expects the users it would need. If the tickets go once around between the load and the
  compare-and-swap, the expected value is met and a wrong one is stored.
\<close>

definition even_ticket :: "nat \<Rightarrow> 8 word ticket" where
  "even_ticket k = \<lparr>twrite = of_nat k, tread = of_nat k, tusers = of_nat k\<rparr>"

lemma tk_cycle:
  "pool_reach (tk_act sse) (even_ticket k, add_mset TIdle M) (even_ticket (Suc k), add_mset TIdle M)"
proof -
  let ?t = "even_ticket k" and ?t' = "(even_ticket k)\<lparr>tusers := of_nat k + 1\<rparr>"
  have "tk_act sse ?t TIdle ?t (TCasWrite False ?t ?t')"
    using tk_act.try_lock [of sse ?t] by (simp add: try_lock_load_def even_ticket_def)
  moreover have "tk_act sse ?t (TCasWrite False ?t ?t') ?t' TWriting"
    using tk_act.try_lock_cas [of ?t ?t ?t' True ?t' sse False] by (simp add: sync_bool_compare_and_swap_def)
  moreover have "tk_act sse ?t' TWriting ?t' (TUnlock (of_nat k + 1) (of_nat k + 1))"
    by (rule tk_act.unlock) (simp add: unlock_load_def addParallel_def even_ticket_def)
  moreover have "tk_act sse ?t' (TUnlock (of_nat k + 1) (of_nat k + 1)) (even_ticket (Suc k)) TIdle"
    using tk_act.unlock_store [of sse ?t' "of_nat k + 1" "of_nat k + 1"]
    by (simp add: even_ticket_def add.commute)
  ultimately show ?thesis by (blast intro: pool_reach_step pool_reach_refl)
qed

lemma tk_cycles:
  "k \<le> m \<Longrightarrow> pool_reach (tk_act sse) (even_ticket k, add_mset TIdle M) (even_ticket m, add_mset TIdle M)"
  by (induction m rule: dec_induct) (auto intro: pool_reach_trans tk_cycle)

definition broken_ticket :: "8 word ticket" where
  "broken_ticket = \<lparr>twrite = 1, tread = 1, tusers = 2\<rparr>"

lemma tk_breaks:
  "pool_reach (tk_act False) (ticket_init, {#TIdle, TIdle#}) (broken_ticket, {#TIdle, TIdle#})"
proof -
  let ?t = "ticket_init :: 8 word ticket" and ?t1 = "\<lparr>twrite = 0, tread = 0, tusers = 1\<rparr> :: 8 word ticket"
  let ?new = "\<lparr>twrite = 0, tread = 1, tusers = 2\<rparr> :: 8 word ticket"
  let ?A = "TCasShared False ?t ?new" and ?act = "tk_act False :: 8 word ticket \<Rightarrow> _"
  have "?act ?t TIdle ?t (TCasWrite False ?t ?t1)"
    using tk_act.try_lock [of False ?t] by (simp add: try_lock_load_def ticket_init_def)
  moreover have "?act ?t (TCasWrite False ?t ?t1) ?t1 TWriting"
    using tk_act.try_lock_cas [of ?t ?t ?t1 True ?t1 False False] by (simp add: sync_bool_compare_and_swap_def)
  ultimately have s1: "pool_reach ?act (?t, {#TIdle, TIdle#}) (?t1, {#TWriting, TIdle#})"
    by (blast intro: pool_reach_step pool_reach_refl)
  have "?act ?t1 TIdle ?t1 ?A"
    by (rule tk_act.try_lock_shared) (simp add: try_lock_shared_load_def ticket_init_def)
  then have s2: "pool_reach ?act (?t1, {#TWriting, TIdle#}) (?t1, {#TWriting, ?A#})"
    unfolding add_mset_commute [of TWriting] by (rule pool_reach_1)
  have "?act ?t1 TWriting ?t1 (TUnlock 1 1)" by (rule tk_act.unlock) (simp add: unlock_load_def)
  moreover have "?act ?t1 (TUnlock 1 1) (even_ticket 1) TIdle"
    using tk_act.unlock_store [of False ?t1 1 1] by (simp add: even_ticket_def)
  ultimately have s3: "pool_reach ?act (?t1, {#TWriting, ?A#}) (even_ticket 1, {#TIdle, ?A#})"
    by (blast intro: pool_reach_step pool_reach_refl)
  have "even_ticket 256 = ?t" by (simp add: even_ticket_def ticket_init_def)
  then have s4: "pool_reach ?act (even_ticket 1, {#TIdle, ?A#}) (?t, {#?A, TIdle#})"
    using tk_cycles [of 1 256 False "{#?A#}"] by (simp add: add_mset_commute)
  have "?act ?t ?A ?new TReading"
    using tk_act.try_lock_shared_cas [of ?t ?t ?new True ?new False False]
    by (simp add: sync_bool_compare_and_swap_def)
  moreover have "?act ?new TReading broken_ticket TIdle"
    using tk_act.unlock_shared [of False ?new] by (simp add: broken_ticket_def)
  ultimately have "pool_reach ?act (?t, {#?A, TIdle#}) (broken_ticket, {#TIdle, TIdle#})"
    by (blast intro: pool_reach_step pool_reach_refl)
  from pool_reach_trans [OF s1 pool_reach_trans [OF s2 pool_reach_trans [OF s3 pool_reach_trans [OF s4 this]]]]
  show ?thesis .
qed

text \<open>From then on nobody gets the lock.\<close>

fun waits :: "'w tk_pc \<Rightarrow> nat" where
  "waits (TWait v) = 1"
| "waits p = 0"

fun shut_out :: "8 word tk_pc \<Rightarrow> bool" where
  "shut_out (TWait v) \<longleftrightarrow> v \<in> {2, 3}"
| "shut_out (TCasShared again old new) \<longleftrightarrow> tusers old = 1"
| "shut_out p \<longleftrightarrow> p \<in> {TIdle, TNice, TShared}"

definition tk_broken :: "8 word ticket \<Rightarrow> 8 word tk_pc multiset \<Rightarrow> bool" where
  "tk_broken t M \<longleftrightarrow> twrite t = 1 \<and> tread t = 1 \<and> size M = 2 \<and> tusers t = 2 + of_nat (\<Sum>p \<in># M. waits p)
     \<and> (\<forall>p \<in># M. shut_out p)"

interpretation tkbroken: thread_pool "tk_act False" tk_broken
proof
  fix t p M t' p'
  assume inv: "tk_broken t (add_mset p M)" and act: "tk_act False t p t' p'"
  define k where "k = (\<Sum>p \<in># M. waits p)"
  have "waits p \<le> 1" for p :: "8 word tk_pc" by (cases p) simp_all
  then have "k \<le> (\<Sum>p \<in># M. 1)" unfolding k_def by (intro sum_mset_mono) simp
  then have k: "k = 0 \<or> k = 1" using inv by (auto simp: tk_broken_def)
  have t: "twrite t = 1" "tread t = 1" "tusers t = 2 + of_nat (waits p + k)" "shut_out p"
    and M: "size M = 1" "\<forall>p \<in># M. shut_out p"
    using inv by (auto simp: tk_broken_def k_def)
  have "waits p = 0 \<or> waits p = 1" by (cases p) simp_all
  then have u: "tusers t \<noteq> 1" using k t(3) by auto
  have "twrite t' = 1 \<and> tread t' = 1 \<and> tusers t' = 2 + of_nat (waits p' + k) \<and> shut_out p'"
    using act
  proof cases
    case writeLockAggressive
    then show ?thesis using k t by auto
  qed (use t u in \<open>auto simp: tk_defs split: if_splits\<close>)
  then show "tk_broken t' (add_mset p' M)" using M by (simp add: tk_broken_def k_def)
qed

section \<open>Properties\<close>

text \<open>
  C7. With the parallel additions, and fewer threads than there are tickets, the ticket lock is
  safe in every reachable state: a writer excludes all other holders, whatever mixture of nice and
  aggressive writers, readers and downgrades runs. And from every reachable state the threads can
  finish, waiting writers included, to a state in which all three tickets agree, so that
  the next attempt to read or write succeeds.
\<close>

theorem ticket_exclusion:
  fixes t :: "('q::len word) ticket"
  assumes "n < 2 ^ LENGTH('q)" and "pool_reach (tk_act True) (ticket_init, replicate_mset n TIdle) (t, M)"
  shows "(\<forall>p q N. M = add_mset p (add_mset q N) \<longrightarrow> compatible (tk_holds p) (tk_holds q))
    \<and> (\<exists>t' M'. pool_reach (tk_act True) (t, M) (t', M') \<and> (\<forall>p \<in># M'. p \<in> {TIdle, TNice, TShared})
        \<and> tread t' = twrite t' \<and> tusers t' = twrite t')"
proof -
  note init = tk_inv_init [OF assms(1)]
  have inv: "tk_inv t M" using tklock.reach_inv [OF assms(2)] init by simp
  have "compatible (tk_holds p) (tk_holds q)" if "M = add_mset p (add_mset q N)" for p q N
    using inv unfolding that by (rule tklock.exclusion)
  moreover obtain t' M' where r: "pool_reach (tk_act True) (t, M) (t', M')" and inv': "tk_inv t' M'"
    and w: "\<forall>p \<in># M'. tk_weight p = 0"
    using tklock.reach_quiesce [OF init assms(2)] by blast
  moreover have "tk_weight p = 0 \<Longrightarrow> p \<in> {TIdle, TNice, TShared}" for p :: "'q word tk_pc"
    by (cases p) simp_all
  with w have idle: "\<forall>p \<in># M'. p \<in> {TIdle, TNice, TShared}" by blast
  then have "TReading \<notin># M'" "place t' p = {#}" if "p \<in># M'" for p using that by auto
  then have "readers M' = 0" "places t' M' = {#}" by (simp_all add: count_eq_zero_iff places_def) blast
  with inv' have "tread t' = twrite t'" "tusers t' = twrite t'" by (simp_all add: tk_inv_def tk_queue_def)
  ultimately show ?thesis using idle by blast
qed

theorem ticket_exclusion_witness:
  "\<exists>t' M'. pool_reach (tk_act True) (ticket_init :: 16 word ticket, replicate_mset 3 TIdle) (t', M')
    \<and> tusers t' = twrite t'"
proof -
  have "(3 :: nat) < 2 ^ LENGTH(16)" by simp
  from ticket_exclusion [OF this pool_reach_refl] show ?thesis by (elim exE conjE, intro exI conjI)
qed

text \<open>
  C31. With the parallel addition of tickets, and fewer threads than tickets, a writer that waits with an aggressive
  ticket is not overtaken: its place in the queue, at
  most the number of other threads, never grows; only waiting writers with an earlier place can get
  the lock before it, so no new reader and no nice writer; and in place 0 its next test succeeds.
\<close>

theorem ticket_writer_order:
  fixes t :: "('q::len word) ticket"
  assumes "n < 2 ^ LENGTH('q)"
    and "pool_reach (tk_act True) (ticket_init, replicate_mset n TIdle) (t, add_mset (TWait v) M)"
  shows "unat (v - twrite t) \<le> size M
    \<and> (\<forall>q t' q'. q \<in># M \<longrightarrow> tk_act True t q t' q' \<longrightarrow>
        unat (v - twrite t') \<le> unat (v - twrite t)
      \<and> (tk_holds q = Unlocked \<and> tk_holds q' \<noteq> Unlocked \<longrightarrow>
          (\<exists>v'. q = TWait v' \<and> unat (v' - twrite t) < unat (v - twrite t))))
    \<and> (unat (v - twrite t) = 0 \<longrightarrow> (\<forall>t' p'. tk_act True t (TWait v) t' p' \<longrightarrow> t' = t \<and> p' = TWriting))"
proof -
  have inv: "tk_inv t (add_mset (TWait v) M)"
    using tklock.reach_inv [OF assms(2)] tk_inv_init [OF assms(1)] by simp
  have "unat (v - twrite t') \<le> unat (v - twrite t)
      \<and> (tk_holds q = Unlocked \<and> tk_holds q' \<noteq> Unlocked \<longrightarrow>
          (\<exists>v'. q = TWait v' \<and> unat (v' - twrite t) < unat (v - twrite t)))"
    if "q \<in># M" "tk_act True t q t' q'" for q t' q'
  proof -
    obtain N where "M = add_mset q N" using \<open>q \<in># M\<close> by (metis mset_add)
    from tk_waiting [OF inv [unfolded this] that(2)] show ?thesis by blast
  qed
  moreover have "t' = t \<and> p' = TWriting" if "unat (v - twrite t) = 0" "tk_act True t (TWait v) t' p'" for t' p'
    using that(2,1) by cases (simp_all add: unat_eq_0)
  ultimately show ?thesis using tk_rank_bound [OF inv] by blast
qed

theorem ticket_writer_order_witness:
  "\<exists>t. pool_reach (tk_act True) (ticket_init :: 16 word ticket, replicate_mset 2 TIdle) (t, {#TWait 0, TIdle#})
    \<and> unat (0 - twrite t) \<le> 1"
proof -
  let ?t = "ticket_init\<lparr>tusers := 1\<rparr> :: 16 word ticket"
  have "tk_act True (ticket_init :: 16 word ticket) TIdle ?t (TWait 0)"
    using tk_act.writeLockAggressive [of True "ticket_init :: 16 word ticket"] by (simp add: ticket_init_def)
  from pool_reach_1 [of "tk_act True", OF this, of "{#TIdle#}"]
  have r: "pool_reach (tk_act True) (ticket_init, replicate_mset 2 TIdle) (?t, {#TWait 0, TIdle#})"
    by (simp add: numeral_2_eq_2)
  have "(2 :: nat) < 2 ^ LENGTH(16)" by simp
  from ticket_writer_order [OF this r, THEN conjunct1] have "unat (0 - twrite ?t) \<le> 1" by simp
  with r show ?thesis by blast
qed

text \<open>
  C32. Field by field, the 8-bit lock can break: two threads, one of which is delayed between the
  load and the compare-and-swap of \<open>try_lock_shared\<close> while the other locks and unlocks 256 times,
  reach a state in which both are outside any call, yet no thread can ever get the lock again.
\<close>

theorem ticket_portable_breaks:
  "pool_reach (tk_act False) (ticket_init, {#TIdle, TIdle#}) (broken_ticket, {#TIdle, TIdle#})
    \<and> (\<forall>t M. pool_reach (tk_act False) (broken_ticket, {#TIdle, TIdle#}) (t, M) \<longrightarrow>
        (\<forall>p \<in># M. tk_holds p = Unlocked))"
proof (intro conjI allI impI tk_breaks)
  fix t M
  assume r: "pool_reach (tk_act False) (broken_ticket, {#TIdle, TIdle#}) (t, M)"
  have "tk_broken broken_ticket {#TIdle, TIdle#}" by (simp add: tk_broken_def broken_ticket_def)
  with tkbroken.reach_inv [OF r] have "\<forall>p \<in># M. shut_out p" by (simp add: tk_broken_def)
  moreover have "shut_out p \<Longrightarrow> tk_holds p = Unlocked" for p by (cases p) simp_all
  ultimately show "\<forall>p \<in># M. tk_holds p = Unlocked" by blast
qed

theorem ticket_portable_breaks_witness:
  "\<exists>t. pool_reach (tk_act False) (broken_ticket, {#TIdle, TIdle#}) (t, {#TWait 2, TIdle#})
    \<and> tk_holds (TWait (2 :: 8 word)) = Unlocked"
proof -
  have "tk_act False broken_ticket TIdle (broken_ticket\<lparr>tusers := 3\<rparr>) (TWait 2)"
    using tk_act.writeLockAggressive [of False broken_ticket] by (simp add: broken_ticket_def)
  from pool_reach_1 [of "tk_act False", OF this, of "{#TIdle#}"]
  have r: "pool_reach (tk_act False) (broken_ticket, {#TIdle, TIdle#})
      (broken_ticket\<lparr>tusers := 3\<rparr>, {#TWait 2, TIdle#})" .
  moreover have "tk_holds (TWait (2 :: 8 word)) = Unlocked"
    using ticket_portable_breaks [THEN conjunct2, rule_format, OF r, of "TWait 2"] by simp
  ultimately show ?thesis by blast
qed

end
