(* ===== verification/FutureCore.thy ===== *)
theory FutureCore
  imports Thread_Pool Folly_Prelude
begin

text \<open>
  \<open>CoreBase\<close> and \<open>Core\<close> of \<open>folly/futures/detail/Core.h\<close> and \<open>Core.cpp\<close>: the object a \<open>Promise\<close>
  and a \<open>Future\<close> share. The fields of the core are a record; every member function that races with
  others is a sequence of atomic accesses, and the consumer, the producer and the executor's worker
  are threads of a pool that interleave between them. Each \<open>DCHECK\<close>, \<open>assert\<close> and
  \<open>terminate_with\<close> is a branch of the model. Executors and the callback are not part of the core: an
  executor may run the function it is given at once, keep it for a worker, drop it, or throw after
  dropping it; the callback returns normally, as the ones \<open>Future\<close> installs do. The other core
  of a proxied one appears only through the calls made on it, which are recorded in a log together
  with the invocations of the callback.
\<close>

section \<open>State\<close>

datatype State =
    Start | OnlyResult | OnlyCallback | OnlyCallbackAllowInline | Proxy | Done | Empty

primrec state_bits :: "State \<Rightarrow> u8" where
  "state_bits Start = push_bit 0 1"
| "state_bits OnlyResult = push_bit 1 1"
| "state_bits OnlyCallback = push_bit 2 1"
| "state_bits OnlyCallbackAllowInline = push_bit 3 1"
| "state_bits Proxy = push_bit 4 1"
| "state_bits Done = push_bit 5 1"
| "state_bits Empty = push_bit 6 1"

definition hasCallback :: "State \<Rightarrow> bool" where
  "hasCallback state =
     (let allowed = state_bits OnlyCallback OR state_bits OnlyCallbackAllowInline OR
        state_bits Done OR state_bits Empty
      in 0 \<noteq> (state_bits state AND allowed))"

text \<open>On a core that is not a proxy; a proxy asks the core it stands for.\<close>

definition hasResult :: "State \<Rightarrow> bool" where
  "hasResult state =
     (let allowed = state_bits OnlyResult OR state_bits Done in 0 \<noteq> (state_bits state AND allowed))"

text \<open>\<open>KeepAliveOrDeferred\<close>: executors are known by a number.\<close>

datatype KeepAliveOrDeferred = NoExecutor | KeepAlive nat | Deferred nat

text \<open>
  \<open>Invoked f r ew\<close> is a call of the callback, with \<open>f\<close> and \<open>r\<close> telling whether \<open>callback_\<close> and
  \<open>result_\<close> are there, and \<open>ew\<close> whether it is given the exception of the executor; \<open>Discarded\<close> is
  the executor dropping the function. The rest are the calls on \<open>proxy_\<close>.
\<close>

datatype core_event =
    Invoked bool bool bool
  | Discarded
  | ProxySetExecutor KeepAliveOrDeferred
  | ProxySetCallback bool bool
  | ProxyDetachFuture

record core =
  c_state :: State
  c_attached :: nat
  c_refs :: nat
  c_result :: bool
  c_callback :: bool
  c_context :: bool
  c_executor :: KeepAliveOrDeferred
  c_queued :: bool
  c_deleted :: bool
  c_failed :: bool
  c_log :: "core_event list"

definition CoreBase_init :: "State \<Rightarrow> nat \<Rightarrow> core" where
  "CoreBase_init state attached =
     \<lparr>c_state = state, c_attached = attached, c_refs = 0, c_result = False, c_callback = False,
      c_context = False, c_executor = NoExecutor, c_queued = False, c_deleted = False,
      c_failed = False, c_log = []\<rparr>"

definition Core_make :: core where
  "Core_make = CoreBase_init Start 2"

definition Core_make_result :: core where
  "Core_make_result = (CoreBase_init OnlyResult 1)\<lparr>c_result := True\<rparr>"

section \<open>Single accesses\<close>

definition dcheck :: "bool \<Rightarrow> core \<Rightarrow> core" where
  "dcheck b s = (if b then s else s\<lparr>c_failed := True\<rparr>)"

definition log_event :: "core_event \<Rightarrow> core \<Rightarrow> core" where
  "log_event e s = s\<lparr>c_log := c_log s @ [e]\<rparr>"

definition setExecutor :: "KeepAliveOrDeferred \<Rightarrow> core \<Rightarrow> core" where
  "setExecutor x s =
     (dcheck (c_state s \<noteq> OnlyCallback \<and> c_state s \<noteq> OnlyCallbackAllowInline) s)\<lparr>c_executor := x\<rparr>"

definition destroyDerived :: "core \<Rightarrow> bool \<times> core" where
  "destroyDerived s0 =
     (let s = dcheck (c_attached s0 = 0) s0
      in case c_state s of
           OnlyResult \<Rightarrow> (True, s)
         | Done \<Rightarrow> (True, s)
         | Proxy \<Rightarrow> (False, log_event ProxyDetachFuture s)
         | Empty \<Rightarrow> (False, s)
         | _ \<Rightarrow> (False, dcheck False s))"

definition Core_destructor :: "core \<Rightarrow> core" where
  "Core_destructor s0 =
     (let (destroy, s) = destroyDerived s0
      in (if destroy then s\<lparr>c_result := False\<rparr> else s)\<lparr>c_deleted := True\<rparr>)"

definition detachOne :: "core \<Rightarrow> core" where
  "detachOne s0 =
     (let a = c_attached s0; s = dcheck (1 \<le> a) (s0\<lparr>c_attached := a - 1\<rparr>)
      in if a = 1 then Core_destructor s else s)"

definition derefCallback :: "core \<Rightarrow> core" where
  "derefCallback s0 =
     (let c = c_refs s0; s = dcheck (1 \<le> c) (s0\<lparr>c_refs := c - 1\<rparr>)
      in if c = 1 then s\<lparr>c_context := False, c_callback := False\<rparr> else s)"

definition detachFuture :: "core \<Rightarrow> core" where
  "detachFuture s = detachOne s"

definition detachPromise :: "core \<Rightarrow> core" where
  "detachPromise s = detachOne (dcheck (hasResult (c_state s)) s)"

text \<open>Moving the request context out and calling \<open>callback_\<close>.\<close>

definition run_callback :: "bool \<Rightarrow> core \<Rightarrow> core" where
  "run_callback ew s = log_event (Invoked (c_callback s) (c_result s) ew) (s\<lparr>c_context := False\<rparr>)"

text \<open>The calls on the proxy end before the callback is reset.\<close>

definition proxyCallback :: "State \<Rightarrow> core \<Rightarrow> core" where
  "proxyCallback priorState s =
     (let allowInline = (priorState = OnlyCallbackAllowInline);
        s = (log_event (ProxySetExecutor (c_executor s)) s)\<lparr>c_executor := NoExecutor\<rparr>;
        s = log_event (ProxySetCallback (c_callback s) allowInline) s;
        s = log_event ProxyDetachFuture s
      in s\<lparr>c_context := False, c_callback := False\<rparr>)"

section \<open>Member functions as programs\<close>

text \<open>
  The points of \<open>doCallback\<close> and \<open>proxyCallback\<close> name the thread that runs them. A completing
  executor is \<open>Some e\<close>. \<open>Terminated\<close> is reached by \<open>terminate_unexpected_state\<close>.
\<close>

datatype role = Consumer | Producer

datatype core_pc =
    C_Begin | C_Load bool | C_CasStart bool | C_CasDone | C_CasEmpty | C_Own | C_End
  | P_Begin | P_Load "nat option" | P_CasStart "nat option" | P_CasDone State "nat option"
  | P_Own | P_ProxyLoad | P_ProxyCasStart | P_ProxyCasEmpty State | P_ProxyDetach | P_End
  | D_Exchange role State "nat option" | D_Attach2 role KeepAliveOrDeferred "nat option"
  | D_Refs role KeepAliveOrDeferred "nat option" | D_Add role KeepAliveOrDeferred "nat option"
  | D_Run role | D_LambdaDeref role bool | D_LambdaDetach role bool | D_Throw role
  | D_Deref role | D_Detach role | D_Attach1 role | D_Direct role | D_Reset role
  | X_Proxy role State
  | W_Idle | W_Run | W_Deref | W_Detach | W_End
  | Terminated

definition setCallback_race :: "State \<Rightarrow> core_pc" where
  "setCallback_race state =
     (if state = OnlyResult then C_CasDone else if state = Proxy then C_CasEmpty else Terminated)"

definition setResult_race :: "State \<Rightarrow> nat option \<Rightarrow> core_pc" where
  "setResult_race state ka =
     (if state \<noteq> OnlyCallback \<and> state \<noteq> OnlyCallbackAllowInline then Terminated else P_CasDone state ka)"

definition setProxy_race :: "State \<Rightarrow> core_pc" where
  "setProxy_race state =
     (if state \<noteq> OnlyCallback \<and> state \<noteq> OnlyCallbackAllowInline then Terminated else P_ProxyCasEmpty state)"

text \<open>\<open>atomic_compare_exchange_strong\<close> on \<open>state_\<close>, with the point reached on success and on failure.\<close>

definition cas_state :: "core \<Rightarrow> State \<Rightarrow> State \<Rightarrow> core_pc \<Rightarrow> (State \<Rightarrow> core_pc) \<Rightarrow> core \<times> core_pc" where
  "cas_state s expected desired won lost =
     (if c_state s = expected then (s\<lparr>c_state := desired\<rparr>, won) else (s, lost (c_state s)))"

text \<open>The second compare-exchange of a function has no way to lose.\<close>

definition final_cas :: "core \<Rightarrow> State \<Rightarrow> State \<Rightarrow> core_pc \<Rightarrow> core \<times> core_pc" where
  "final_cas s expected desired won = cas_state s expected desired won (\<lambda>_. Terminated)"

definition after_doCallback :: "role \<Rightarrow> core_pc" where
  "after_doCallback r = (case r of Consumer \<Rightarrow> C_Own | Producer \<Rightarrow> P_Own)"

definition after_proxyCallback :: "role \<Rightarrow> core_pc" where
  "after_proxyCallback r = (case r of Consumer \<Rightarrow> C_Own | Producer \<Rightarrow> P_ProxyDetach)"

text \<open>\<open>doAdd\<close> runs the function itself when the completing executor is the core's own.\<close>

definition executors_match :: "KeepAliveOrDeferred \<Rightarrow> nat option \<Rightarrow> bool" where
  "executors_match ex ka = (case ex of KeepAlive e \<Rightarrow> ka = Some e | _ \<Rightarrow> False)"

text \<open>\<open>setCallback_\<close>, called by the consumer, who drops the future afterwards or instead.\<close>

inductive setCallback_act :: "core \<Rightarrow> core_pc \<Rightarrow> core \<Rightarrow> core_pc \<Rightarrow> bool" where
  executor: "setCallback_act s C_Begin (setExecutor x s) C_Begin"
| store: "setCallback_act s C_Begin
    ((dcheck (\<not> hasCallback (c_state s)) s)\<lparr>c_callback := True, c_context := ctx\<rparr>) (C_Load allow)"
| load: "setCallback_act s (C_Load allow) s
    (if c_state s = Start then C_CasStart allow else setCallback_race (c_state s))"
| cas_start: "(s', p) = cas_state s Start (if allow then OnlyCallbackAllowInline else OnlyCallback)
      C_Own setCallback_race \<Longrightarrow> setCallback_act s (C_CasStart allow) s' p"
| cas_done: "(s', p) = final_cas s OnlyResult Done (D_Exchange Consumer OnlyResult None) \<Longrightarrow>
    setCallback_act s C_CasDone s' p"
| cas_empty: "(s', p) = final_cas s Proxy Empty (X_Proxy Consumer Proxy) \<Longrightarrow>
    setCallback_act s C_CasEmpty s' p"
| drop: "p \<in> {C_Begin, C_Own} \<Longrightarrow> setCallback_act s p (detachFuture s) C_End"

text \<open>\<open>setResult\<close> and \<open>setResult_\<close>; the producer drops the promise afterwards.\<close>

inductive setResult_act :: "core \<Rightarrow> core_pc \<Rightarrow> core \<Rightarrow> core_pc \<Rightarrow> bool" where
  store: "setResult_act s P_Begin (s\<lparr>c_result := True\<rparr>) (P_Load ka)"
| load: "setResult_act s (P_Load ka) s
    (if c_state s = Start then P_CasStart ka else setResult_race (c_state s) ka)"
| cas_start: "(s', p) = cas_state s Start OnlyResult P_Own (\<lambda>st. setResult_race st ka) \<Longrightarrow>
    setResult_act s (P_CasStart ka) s' p"
| cas_done: "(s', p) = final_cas s state Done (D_Exchange Producer state ka) \<Longrightarrow>
    setResult_act s (P_CasDone state ka) s' p"
| drop: "setResult_act s P_Own (detachPromise s) P_End"

text \<open>\<open>setProxy_\<close>, which ends by detaching the promise.\<close>

inductive setProxy_act :: "core \<Rightarrow> core_pc \<Rightarrow> core \<Rightarrow> core_pc \<Rightarrow> bool" where
  store: "setProxy_act s P_Begin s P_ProxyLoad"
| load: "setProxy_act s P_ProxyLoad s
    (if c_state s = Start then P_ProxyCasStart else setProxy_race (c_state s))"
| cas_start: "(s', p) = cas_state s Start Proxy P_ProxyDetach setProxy_race \<Longrightarrow>
    setProxy_act s P_ProxyCasStart s' p"
| cas_empty: "(s', p) = final_cas s state Empty (X_Proxy Producer state) \<Longrightarrow>
    setProxy_act s (P_ProxyCasEmpty state) s' p"
| proxy: "setProxy_act s (X_Proxy r state) (proxyCallback state s) (after_proxyCallback r)"
| detach: "setProxy_act s P_ProxyDetach (detachOne s) P_End"

text \<open>
  \<open>doCallback\<close>: the two guards are destroyed at the \<open>Lambda\<close> points and at \<open>D_Deref\<close> and
  \<open>D_Detach\<close>, each of them first giving up the callback and then the core.
\<close>

inductive doCallback_act :: "core \<Rightarrow> core_pc \<Rightarrow> core \<Rightarrow> core_pc \<Rightarrow> bool" where
  exchange: "doCallback_act s (D_Exchange r prior ka)
    ((dcheck (c_state s = Done) s)\<lparr>c_executor := NoExecutor\<rparr>)
    (if c_executor s = NoExecutor then D_Attach1 r
     else D_Attach2 r (c_executor s) (if \<not> prior = OnlyCallbackAllowInline then None else ka))"
| attach2: "doCallback_act s (D_Attach2 r ex ka) (s\<lparr>c_attached := c_attached s + 2\<rparr>) (D_Refs r ex ka)"
| refs: "doCallback_act s (D_Refs r ex ka) (s\<lparr>c_refs := c_refs s + 2\<rparr>) (D_Add r ex ka)"
| add_inline: "doCallback_act s (D_Add r ex ka) s (D_Run r)"
| add_queue: "\<not> executors_match ex ka \<Longrightarrow>
    doCallback_act s (D_Add r ex ka) (s\<lparr>c_queued := True\<rparr>) (D_Deref r)"
| add_discard: "\<not> executors_match ex ka \<Longrightarrow>
    doCallback_act s (D_Add r ex ka) (log_event Discarded s) (D_LambdaDeref r False)"
| add_throw: "\<not> executors_match ex ka \<Longrightarrow>
    doCallback_act s (D_Add r ex ka) s (D_LambdaDeref r True)"
| run: "doCallback_act s (D_Run r) (run_callback False s) (D_LambdaDeref r False)"
| lambda_deref: "doCallback_act s (D_LambdaDeref r ew) (derefCallback s) (D_LambdaDetach r ew)"
| lambda_detach: "doCallback_act s (D_LambdaDetach r ew) (detachOne s) (if ew then D_Throw r else D_Deref r)"
| throw: "doCallback_act s (D_Throw r) (run_callback True s) (D_Deref r)"
| deref: "doCallback_act s (D_Deref r) (derefCallback s) (D_Detach r)"
| detach: "doCallback_act s (D_Detach r) (detachOne s) (after_doCallback r)"
| attach1: "doCallback_act s (D_Attach1 r) (s\<lparr>c_attached := c_attached s + 1\<rparr>) (D_Direct r)"
| direct: "doCallback_act s (D_Direct r) (run_callback False s) (D_Reset r)"
| reset: "doCallback_act s (D_Reset r) (s\<lparr>c_context := False, c_callback := False\<rparr>) (D_Detach r)"

text \<open>A worker of the executor with the function it was given.\<close>

inductive worker_act :: "core \<Rightarrow> core_pc \<Rightarrow> core \<Rightarrow> core_pc \<Rightarrow> bool" where
  take: "c_queued s \<Longrightarrow> worker_act s W_Idle (s\<lparr>c_queued := False\<rparr>) W_Run"
| drop: "c_queued s \<Longrightarrow> worker_act s W_Idle (log_event Discarded (s\<lparr>c_queued := False\<rparr>)) W_Deref"
| run: "worker_act s W_Run (run_callback False s) W_Deref"
| deref: "worker_act s W_Deref (derefCallback s) W_Detach"
| detach: "worker_act s W_Detach (detachOne s) W_End"

inductive core_act :: "core \<Rightarrow> core_pc \<Rightarrow> core \<Rightarrow> core_pc \<Rightarrow> bool" where
  "setCallback_act s p s' p' \<Longrightarrow> core_act s p s' p'"
| "setResult_act s p s' p' \<Longrightarrow> core_act s p s' p'"
| "setProxy_act s p s' p' \<Longrightarrow> core_act s p s' p'"
| "doCallback_act s p s' p' \<Longrightarrow> core_act s p s' p'"
| "worker_act s p s' p' \<Longrightarrow> core_act s p s' p'"

text \<open>The threads of a fresh core, with a promise and without one.\<close>

definition core_threads :: "core_pc multiset" where
  "core_threads = {#C_Begin, P_Begin, W_Idle#}"

definition core_threads_result :: "core_pc multiset" where
  "core_threads_result = {#C_Begin, W_Idle#}"

end
