(* ===== verification/FutureCore_Correct.thy ===== *)
theory FutureCore_Correct
  imports FutureCore
begin

text \<open>
  The state machine of \<open>FutureCore\<close> is correct: an invariant that accounts, thread by thread, for
  every reference to the core and to its callback, that every atomic step keeps it, and what it
  gives for the whole life of a core.
\<close>

section \<open>What each thread holds\<close>

text \<open>
  The invariant counts, over the pool, what each program point stands for: its own end of the
  core (\<open>ends\<close>), the further references of \<open>doCallback\<close> to the core (\<open>guards\<close>) and to the callback
  (\<open>callback_refs\<close>), being inside \<open>doCallback\<close> (\<open>inside\<close>), the right to the function handed to the
  executor (\<open>lambda\<close>), and the duty to call the callback (\<open>pending\<close>).
\<close>

fun role_of :: "core_pc \<Rightarrow> role option" where
  "role_of C_End = None" | "role_of P_End = None" | "role_of W_Idle = None"
| "role_of W_Run = None" | "role_of W_Deref = None" | "role_of W_Detach = None"
| "role_of W_End = None" | "role_of Terminated = None"
| "role_of C_Begin = Some Consumer" | "role_of (C_Load a) = Some Consumer"
| "role_of (C_CasStart a) = Some Consumer" | "role_of C_CasDone = Some Consumer"
| "role_of C_CasEmpty = Some Consumer" | "role_of C_Own = Some Consumer"
| "role_of (D_Exchange r st ka) = Some r" | "role_of (D_Attach2 r ex ka) = Some r"
| "role_of (D_Refs r ex ka) = Some r" | "role_of (D_Add r ex ka) = Some r"
| "role_of (D_Run r) = Some r" | "role_of (D_LambdaDeref r ew) = Some r"
| "role_of (D_LambdaDetach r ew) = Some r" | "role_of (D_Throw r) = Some r"
| "role_of (D_Deref r) = Some r" | "role_of (D_Detach r) = Some r"
| "role_of (D_Attach1 r) = Some r" | "role_of (D_Direct r) = Some r"
| "role_of (D_Reset r) = Some r" | "role_of (X_Proxy r st) = Some r"
| "role_of _ = Some Producer"

definition ends :: "role \<Rightarrow> core_pc \<Rightarrow> nat" where
  "ends r p = of_bool (role_of p = Some r)"

fun guards :: "core_pc \<Rightarrow> nat" where
  "guards (D_Refs r ex ka) = 2" | "guards (D_Add r ex ka) = 2" | "guards (D_Run r) = 2"
| "guards (D_LambdaDeref r ew) = 2" | "guards (D_LambdaDetach r ew) = 2"
| "guards (D_Throw r) = 1" | "guards (D_Deref r) = 1" | "guards (D_Detach r) = 1"
| "guards (D_Direct r) = 1" | "guards (D_Reset r) = 1"
| "guards W_Run = 1" | "guards W_Deref = 1" | "guards W_Detach = 1"
| "guards _ = 0"

definition holds_core :: "core_pc \<Rightarrow> nat" where
  "holds_core p = ends Consumer p + ends Producer p + guards p"

fun callback_refs :: "core_pc \<Rightarrow> nat" where
  "callback_refs (D_Add r ex ka) = 2" | "callback_refs (D_Run r) = 2"
| "callback_refs (D_LambdaDeref r ew) = 2" | "callback_refs (D_LambdaDetach r ew) = 1"
| "callback_refs (D_Throw r) = 1" | "callback_refs (D_Deref r) = 1"
| "callback_refs W_Run = 1" | "callback_refs W_Deref = 1"
| "callback_refs _ = 0"

text \<open>The points that need the callback and have no reference to it yet.\<close>

fun unguarded :: "core_pc \<Rightarrow> nat" where
  "unguarded (D_Exchange r st ka) = 1" | "unguarded (D_Attach2 r ex ka) = 1"
| "unguarded (D_Refs r ex ka) = 1" | "unguarded (D_Attach1 r) = 1" | "unguarded (D_Direct r) = 1"
| "unguarded _ = 0"

fun inside :: "core_pc \<Rightarrow> nat" where
  "inside (D_Exchange r st ka) = 1" | "inside (D_Attach2 r ex ka) = 1" | "inside (D_Refs r ex ka) = 1"
| "inside (D_Add r ex ka) = 1" | "inside (D_Run r) = 1" | "inside (D_LambdaDeref r ew) = 1"
| "inside (D_LambdaDetach r ew) = 1" | "inside (D_Throw r) = 1" | "inside (D_Deref r) = 1"
| "inside (D_Detach r) = 1" | "inside (D_Attach1 r) = 1" | "inside (D_Direct r) = 1"
| "inside (D_Reset r) = 1"
| "inside _ = 0"

fun lambda :: "core_pc \<Rightarrow> nat" where
  "lambda (D_Exchange r st ka) = 1" | "lambda (D_Attach2 r ex ka) = 1" | "lambda (D_Refs r ex ka) = 1"
| "lambda (D_Add r ex ka) = 1" | "lambda (D_Run r) = 1" | "lambda (D_LambdaDeref r ew) = 1"
| "lambda (D_LambdaDetach r ew) = 1" | "lambda (D_Attach1 r) = 1" | "lambda (D_Direct r) = 1"
| "lambda (D_Reset r) = 1"
| "lambda W_Run = 1" | "lambda W_Deref = 1" | "lambda W_Detach = 1"
| "lambda _ = 0"

fun pending :: "core_pc \<Rightarrow> nat" where
  "pending (D_Exchange r st ka) = 1" | "pending (D_Attach2 r ex ka) = 1" | "pending (D_Refs r ex ka) = 1"
| "pending (D_Add r ex ka) = 1" | "pending (D_Run r) = 1" | "pending (D_LambdaDeref r ew) = of_bool ew"
| "pending (D_LambdaDetach r ew) = of_bool ew" | "pending (D_Throw r) = 1"
| "pending (D_Attach1 r) = 1" | "pending (D_Direct r) = 1" | "pending W_Run = 1"
| "pending _ = 0"

text \<open>
  The producer before it publishes a result or a proxy; the consumer before it publishes a
  callback, and after storing it; the one forwarding to the proxy; the idle worker and the
  running one.
\<close>

fun unfulfilled :: "core_pc \<Rightarrow> nat" where
  "unfulfilled P_Begin = 1" | "unfulfilled (P_Load ka) = 1" | "unfulfilled (P_CasStart ka) = 1"
| "unfulfilled (P_CasDone st ka) = 1" | "unfulfilled P_ProxyLoad = 1" | "unfulfilled P_ProxyCasStart = 1"
| "unfulfilled (P_ProxyCasEmpty st) = 1" | "unfulfilled _ = 0"

fun storing :: "core_pc \<Rightarrow> nat" where
  "storing (C_Load a) = 1" | "storing (C_CasStart a) = 1" | "storing C_CasDone = 1"
| "storing C_CasEmpty = 1" | "storing _ = 0"

definition unset :: "core_pc \<Rightarrow> nat" where
  "unset p = of_bool (p = C_Begin) + storing p"

fun forwarding :: "core_pc \<Rightarrow> nat" where
  "forwarding (X_Proxy r st) = 1" | "forwarding _ = 0"

fun worker_early :: "core_pc \<Rightarrow> nat" where
  "worker_early W_Idle = 1" | "worker_early W_Run = 1" | "worker_early _ = 0"

text \<open>What a thread knows of the shared state at its point.\<close>

fun knows :: "core \<Rightarrow> core_pc \<Rightarrow> bool" where
  "knows s C_CasDone = (c_state s = OnlyResult)"
| "knows s C_CasEmpty = (c_state s = Proxy)"
| "knows s (P_Load ka) = c_result s"
| "knows s (P_CasStart ka) = c_result s"
| "knows s (P_CasDone st ka) =
     (c_result s \<and> c_state s = st \<and> (st = OnlyCallback \<or> st = OnlyCallbackAllowInline))"
| "knows s (P_ProxyCasEmpty st) =
     (c_state s = st \<and> (st = OnlyCallback \<or> st = OnlyCallbackAllowInline))"
| "knows s P_Own = (c_state s = OnlyResult \<or> c_state s = Done)"
| "knows s (D_Exchange r st ka) = (st \<noteq> Proxy)"
| "knows s (D_Detach r) = True"
| "knows s Terminated = False"
| "knows s _ = True"

fun delivery :: "core_event \<Rightarrow> bool" where
  "delivery (Invoked f r ew) = True" | "delivery Discarded = True" | "delivery _ = False"

fun event_ok :: "core_event \<Rightarrow> bool" where
  "event_ok (Invoked f r ew) = (f \<and> r)" | "event_ok (ProxySetCallback f a) = f" | "event_ok _ = True"

fun forwarded :: "core_event \<Rightarrow> bool" where
  "forwarded (ProxySetCallback f a) = True" | "forwarded _ = False"

abbreviation happened :: "(core_event \<Rightarrow> bool) \<Rightarrow> core \<Rightarrow> nat" where
  "happened P s \<equiv> length (filter P (c_log s))"

text \<open>The invariant, in four groups: references, the state machine, the callback, the log.\<close>

definition refs_ok :: "core \<Rightarrow> core_pc multiset \<Rightarrow> bool" where
  "refs_ok s M \<longleftrightarrow>
     c_attached s = total (ends Consumer) M + total (ends Producer) M + total guards M + of_bool (c_queued s) \<and>
     c_refs s = total callback_refs M + of_bool (c_queued s) \<and>
     total (ends Consumer) M \<le> 1 \<and> total (ends Producer) M \<le> 1 \<and>
     (c_deleted s \<longleftrightarrow> c_attached s = 0) \<and> \<not> c_failed s"

definition machine_ok :: "core \<Rightarrow> core_pc multiset \<Rightarrow> bool" where
  "machine_ok s M \<longleftrightarrow>
     total inside M \<le> of_bool (c_state s = Done) \<and>
     total lambda M + of_bool (c_queued s) \<le> of_bool (c_state s = Done) \<and>
     total unfulfilled M = of_bool (c_state s \<in> {Start, OnlyCallback, OnlyCallbackAllowInline}) \<and>
     total unset M \<le> of_bool (c_state s \<in> {Start, OnlyResult, Proxy}) \<and>
     (\<forall>p \<in># M. knows s p)"

definition callback_need :: "core \<Rightarrow> core_pc multiset \<Rightarrow> nat" where
  "callback_need s M = total callback_refs M + of_bool (c_queued s) + total unguarded M + total storing M +
     total forwarding M"

definition callback_ok :: "core \<Rightarrow> core_pc multiset \<Rightarrow> bool" where
  "callback_ok s M \<longleftrightarrow>
     (c_state s \<in> {OnlyCallback, OnlyCallbackAllowInline} \<or> 0 < callback_need s M \<longrightarrow> c_callback s) \<and>
     (c_state s \<in> {OnlyResult, Done} \<and> \<not> c_deleted s \<longrightarrow> c_result s)"

definition log_ok :: "core \<Rightarrow> core_pc multiset \<Rightarrow> bool" where
  "log_ok s M \<longleftrightarrow>
     list_all event_ok (c_log s) \<and>
     total pending M + of_bool (c_queued s) + happened delivery s = of_bool (c_state s = Done) \<and>
     total forwarding M + happened forwarded s = of_bool (c_state s = Empty) \<and>
     total forwarding M + happened ((=) ProxyDetachFuture) s =
       of_bool (c_state s = Empty) + of_bool (c_state s = Proxy \<and> c_deleted s) \<and>
     0 < total worker_early M + happened delivery s"

definition core_inv :: "core \<Rightarrow> core_pc multiset \<Rightarrow> bool" where
  "core_inv s M \<longleftrightarrow> refs_ok s M \<and> machine_ok s M \<and> callback_ok s M \<and> log_ok s M"


section \<open>The invariant is kept\<close>

lemma unfulfilled_ends: "unfulfilled p \<le> ends Producer p"
  by (cases p) (auto simp: ends_def)

lemma unguarded_inside: "unguarded p \<le> inside p"
  by (cases p) auto

lemma unguarded_lambda: "unguarded p \<le> lambda p"
  by (cases p) auto

lemma storing_unset: "storing p \<le> unset p"
  by (simp add: unset_def)

lemma guards_bound: "guards p \<le> inside p + lambda p"
  by (cases p) auto

lemma callback_refs_bound: "callback_refs p \<le> inside p + lambda p"
  by (cases p) auto

lemmas total_bounds =
  total_mono [of unfulfilled "ends Producer", OF unfulfilled_ends]
  total_mono [of unguarded inside, OF unguarded_inside]
  total_mono [of unguarded lambda, OF unguarded_lambda]
  total_mono [of storing unset, OF storing_unset]

lemma knows_idle: "knows s p \<Longrightarrow> holds_core p = 0 \<Longrightarrow> knows s' p"
  by (cases p) (auto simp: holds_core_def ends_def)

lemma knows_frame:
  "knows s p \<Longrightarrow> c_state s' = c_state s \<Longrightarrow> c_result s' = c_result s \<Longrightarrow> knows s' p"
  by (cases p) auto

lemma hasResult_iff [simp]: "hasResult st \<longleftrightarrow> st = OnlyResult \<or> st = Done"
  by (cases st) (simp_all add: hasResult_def)

lemma hasCallback_iff [simp]:
  "hasCallback st \<longleftrightarrow> st = OnlyCallback \<or> st = OnlyCallbackAllowInline \<or> st = Done \<or> st = Empty"
  by (cases st) (simp_all add: hasCallback_def)

lemma detachOne_more: "1 < c_attached s \<Longrightarrow> detachOne s = s\<lparr>c_attached := c_attached s - 1\<rparr>"
  by (simp add: detachOne_def dcheck_def)

lemma detachOne_last:
  assumes "c_attached s = 1" and "c_state s \<notin> {Start, OnlyCallback, OnlyCallbackAllowInline}"
  shows "detachOne s = s\<lparr>c_attached := 0, c_deleted := True,
    c_result := (c_result s \<and> c_state s \<notin> {OnlyResult, Done}),
    c_log := c_log s @ (if c_state s = Proxy then [ProxyDetachFuture] else [])\<rparr>"
  using assms
  by (cases "c_state s") (simp_all add: detachOne_def dcheck_def Core_destructor_def destroyDerived_def log_event_def)

text \<open>
  Steps that take on no duty: \<open>rests\<close> only moves on, \<open>releases\<close> gives up a reference to the core,
  \<open>drops_ref\<close> one to the callback, and \<open>delivers\<close> calls the callback or discards it.
\<close>

definition keeps :: "core_pc \<Rightarrow> core_pc \<Rightarrow> bool" where
  "keeps p p' \<longleftrightarrow>
     callback_refs p' \<le> callback_refs p \<and> unguarded p' \<le> unguarded p \<and> inside p' \<le> inside p \<and>
     lambda p' \<le> lambda p \<and> unfulfilled p' = unfulfilled p \<and> unset p' \<le> unset p \<and>
     storing p' \<le> storing p \<and> forwarding p' = forwarding p"

definition same_ends :: "core_pc \<Rightarrow> core_pc \<Rightarrow> bool" where
  "same_ends p p' \<longleftrightarrow>
     ends Consumer p' = ends Consumer p \<and> ends Producer p' = ends Producer p \<and> guards p' = guards p"

definition rests :: "core_pc \<Rightarrow> core_pc \<Rightarrow> bool" where
  "rests p p' \<longleftrightarrow> keeps p p' \<and> same_ends p p' \<and> callback_refs p' = callback_refs p \<and>
     pending p' = pending p \<and> worker_early p' = worker_early p"

definition releases :: "core_pc \<Rightarrow> core_pc \<Rightarrow> bool" where
  "releases p p' \<longleftrightarrow> keeps p p' \<and> holds_core p = Suc (holds_core p') \<and>
     ends Consumer p' \<le> ends Consumer p \<and> ends Producer p' \<le> ends Producer p \<and>
     callback_refs p' = callback_refs p \<and> pending p' = pending p \<and> worker_early p' = worker_early p"

definition drops_ref :: "core_pc \<Rightarrow> core_pc \<Rightarrow> bool" where
  "drops_ref p p' \<longleftrightarrow> keeps p p' \<and> same_ends p p' \<and> callback_refs p = Suc (callback_refs p') \<and>
     0 < inside p + lambda p \<and> pending p' = pending p \<and> worker_early p' = worker_early p"

definition delivers :: "core_pc \<Rightarrow> core_pc \<Rightarrow> bool" where
  "delivers p p' \<longleftrightarrow> keeps p p' \<and> same_ends p p' \<and> callback_refs p' = callback_refs p \<and>
     pending p = Suc (pending p')"

lemmas duty_defs = keeps_def same_ends_def rests_def releases_def drops_ref_def delivers_def

lemma core_invI:
  "refs_ok s M \<Longrightarrow> machine_ok s M \<Longrightarrow> callback_ok s M \<Longrightarrow> log_ok s M \<Longrightarrow> core_inv s M"
  by (simp add: core_inv_def)

lemma core_invD:
  "core_inv s M \<Longrightarrow> refs_ok s M" "core_inv s M \<Longrightarrow> machine_ok s M"
  "core_inv s M \<Longrightarrow> callback_ok s M" "core_inv s M \<Longrightarrow> log_ok s M"
  by (simp_all add: core_inv_def)

lemma keeps_machine:
  assumes "machine_ok s (add_mset p M)" and "keeps p p'" and "c_state s' = c_state s"
    and "c_queued s' = c_queued s" and "\<forall>q \<in># add_mset p' M. knows s' q"
  shows "machine_ok s' (add_mset p' M)"
  unfolding machine_ok_def total_simps assms(3,4)
proof (intro conjI assms(5))
  note old = assms(1) [unfolded machine_ok_def total_simps] and r = assms(2) [unfolded keeps_def]
  show "inside p' + total inside M \<le> of_bool (c_state s = Done)"
    using r old by (elim conjE) linarith
  show "lambda p' + total lambda M + of_bool (c_queued s) \<le> of_bool (c_state s = Done)"
    using r old by (elim conjE) linarith
  show "unfulfilled p' + total unfulfilled M =
      of_bool (c_state s \<in> {Start, OnlyCallback, OnlyCallbackAllowInline})"
    using r old by (elim conjE) linarith
  show "unset p' + total unset M \<le> of_bool (c_state s \<in> {Start, OnlyResult, Proxy})"
    using r old by (elim conjE) linarith
qed

lemma keeps_need:
  "keeps p p' \<Longrightarrow> c_queued s' = c_queued s \<Longrightarrow>
    callback_need s' (add_mset p' M) \<le> callback_need s (add_mset p M)"
  unfolding keeps_def callback_need_def by (elim conjE) simp

lemma keeps_callback:
  assumes "callback_ok s (add_mset p M)" and "keeps p p'" and "c_state s' = c_state s"
    and "c_queued s' = c_queued s" and "c_callback s' = c_callback s"
    and "c_state s \<in> {OnlyResult, Done} \<Longrightarrow> \<not> c_deleted s' \<Longrightarrow> \<not> c_deleted s \<and> c_result s' = c_result s"
  shows "callback_ok s' (add_mset p' M)"
proof -
  have "0 < callback_need s' (add_mset p' M) \<Longrightarrow> 0 < callback_need s (add_mset p M)"
    using keeps_need [OF assms(2,4), of M] by linarith
  then show ?thesis
    using assms(1,3,5,6) unfolding callback_ok_def by metis
qed

lemma detachOne_inv:
  assumes inv: "core_inv s (add_mset p M)" and rel: "releases p p'" and knows: "knows s p'"
  shows "core_inv (detachOne s) (add_mset p' M)"
proof (cases "c_attached s = 1")
  case False
  have more: "1 < c_attached s"
    using core_invD(1) [OF inv] rel False by (auto simp: refs_ok_def releases_def holds_core_def)
  have "\<forall>q \<in># add_mset p' M. knows (s\<lparr>c_attached := c_attached s - 1\<rparr>) q"
    using core_invD(2) [OF inv] knows by (auto simp: machine_ok_def intro: knows_frame [of s])
  moreover have "refs_ok (s\<lparr>c_attached := c_attached s - 1\<rparr>) (add_mset p' M)"
    using core_invD(1) [OF inv] rel more by (auto simp: refs_ok_def releases_def holds_core_def)
  moreover have "log_ok (s\<lparr>c_attached := c_attached s - 1\<rparr>) (add_mset p' M)"
    using core_invD(4) [OF inv] rel by (simp add: log_ok_def releases_def keeps_def)
  ultimately show ?thesis
    unfolding detachOne_more [OF more]
    using core_invD(2,3) [OF inv] rel [unfolded releases_def]
    by (intro core_invI keeps_machine [of s p M p'] keeps_callback [of s p M p']) simp_all
next
  case True
  then have none: "total (ends Consumer) M + total (ends Producer) M + total guards M +
      of_bool (c_queued s) + holds_core p' = 0"
    using core_invD(1) [OF inv, unfolded refs_ok_def total_simps] rel [unfolded releases_def]
    unfolding holds_core_def by (elim conjE) linarith
  then have zero: "total (ends Consumer) M = 0" "total (ends Producer) M = 0" "total guards M = 0"
      "\<not> c_queued s" "holds_core p' = 0"
    by simp_all
  then have "unfulfilled p = 0"
    using rel unfulfilled_ends [of p'] by (simp add: releases_def keeps_def holds_core_def)
  then have idle: "holds_core q = 0" if "q \<in># add_mset p' M" for q
    using that zero by (auto simp: holds_core_def dest: total_zeroD)
  have "total unfulfilled M = 0" using zero(2) total_bounds(1) [of M] by linarith
  then have st: "c_state s \<notin> {Start, OnlyCallback, OnlyCallbackAllowInline}"
    using core_invD(2) [OF inv] \<open>unfulfilled p = 0\<close> by (auto simp: machine_ok_def)
  have "\<forall>q \<in># add_mset p' M. knows s' q" for s'
    using core_invD(2) [OF inv] knows idle knows_idle [of s] by (auto simp: machine_ok_def)
  moreover have "refs_ok (detachOne s) (add_mset p' M)"
    using core_invD(1) [OF inv] True zero rel
    by (auto simp: refs_ok_def holds_core_def detachOne_last [OF True st] releases_def)
  moreover have "\<not> c_deleted s" using core_invD(1) [OF inv] True by (simp add: refs_ok_def)
  then have "log_ok (detachOne s) (add_mset p' M)"
    using core_invD(4) [OF inv] rel
    by (cases "c_state s = Proxy") (auto simp: log_ok_def releases_def keeps_def detachOne_last [OF True st])
  ultimately show ?thesis
    using core_invD(2,3) [OF inv] rel [unfolded releases_def]
    by (intro core_invI keeps_machine [of s p M p'] keeps_callback [of s p M p'])
      (simp_all add: detachOne_last [OF True st])
qed


text \<open>Fields the invariant does not look at.\<close>

lemma knows_irrelevant [simp]:
  "knows (s\<lparr>c_executor := x\<rparr>) p = knows s p" "knows (s\<lparr>c_context := c\<rparr>) p = knows s p"
  "knows (s\<lparr>c_callback := b\<rparr>) p = knows s p" "knows (s\<lparr>c_log := l\<rparr>) p = knows s p"
  "knows (s\<lparr>c_queued := b\<rparr>) p = knows s p" "knows (s\<lparr>c_attached := n\<rparr>) p = knows s p"
  "knows (s\<lparr>c_refs := n\<rparr>) p = knows s p"
  by (cases p; simp)+

lemma core_inv_irrelevant [simp]:
  "core_inv (s\<lparr>c_executor := x\<rparr>) M = core_inv s M" "core_inv (s\<lparr>c_context := c\<rparr>) M = core_inv s M"
  by (simp_all add: core_inv_def refs_ok_def machine_ok_def callback_ok_def callback_need_def log_ok_def)

lemma rests_inv:
  assumes inv: "core_inv s (add_mset p M)" and rest: "rests p p'" and knows: "knows s p'"
  shows "core_inv s (add_mset p' M)"
proof (rule core_invI)
  show "refs_ok s (add_mset p' M)"
    using core_invD(1) [OF inv] rest by (simp add: refs_ok_def rests_def same_ends_def)
  show "machine_ok s (add_mset p' M)"
    using core_invD(2) [OF inv] rest knows
    by (intro keeps_machine [of s p M p' s]) (simp_all add: rests_def machine_ok_def)
  show "callback_ok s (add_mset p' M)"
    using core_invD(3) [OF inv] rest by (intro keeps_callback [of s p M p' s]) (simp_all add: rests_def)
  show "log_ok s (add_mset p' M)"
    using core_invD(4) [OF inv] rest by (simp add: log_ok_def rests_def keeps_def)
qed

lemma delivers_inv:
  assumes inv: "core_inv s (add_mset p M)" and del: "delivers p p'" and knows: "knows s p'"
    and e: "delivery e" "event_ok e"
  shows "core_inv (log_event e s) (add_mset p' M)"
proof (rule core_invI)
  show "refs_ok (log_event e s) (add_mset p' M)"
    using core_invD(1) [OF inv] del by (simp add: refs_ok_def delivers_def same_ends_def log_event_def)
  show "machine_ok (log_event e s) (add_mset p' M)"
    using core_invD(2) [OF inv] del knows
    by (intro keeps_machine [of s p M p']) (simp_all add: delivers_def machine_ok_def log_event_def)
  show "callback_ok (log_event e s) (add_mset p' M)"
    using core_invD(3) [OF inv] del
    by (intro keeps_callback [of s p M p']) (simp_all add: delivers_def log_event_def)
  have "\<not> forwarded e" "e \<noteq> ProxyDetachFuture" using e by (cases e; simp)+
  then show "log_ok (log_event e s) (add_mset p' M)"
    using core_invD(4) [OF inv] del e by (simp add: log_ok_def delivers_def keeps_def log_event_def)
qed

lemma pending_done:
  assumes "core_inv s (add_mset p M)" and "0 < pending p"
  shows "c_state s = Done"
  using core_invD(4) [OF assms(1)] assms(2) by (cases "c_state s = Done") (simp_all add: log_ok_def)

lemma not_deleted:
  assumes "core_inv s (add_mset p M)" and "0 < holds_core p"
  shows "\<not> c_deleted s"
  using core_invD(1) [OF assms(1)] assms(2) by (auto simp: refs_ok_def holds_core_def)

lemma run_callback_inv:
  assumes inv: "core_inv s (add_mset p M)" and del: "delivers p p'" and knows: "knows s p'"
    and need: "0 < callback_refs p + unguarded p" "0 < holds_core p"
  shows "core_inv (run_callback ew s) (add_mset p' M)"
proof -
  have "c_state s = Done" using pending_done [OF inv] del by (simp add: delivers_def)
  then have "c_callback s" "c_result s"
    using core_invD(3) [OF inv] need(1) not_deleted [OF inv need(2)]
    by (auto simp: callback_ok_def callback_need_def)
  then show ?thesis
    using delivers_inv [of "s\<lparr>c_context := False\<rparr>", of p M p' "Invoked (c_callback s) (c_result s) ew"]
      inv del knows by (simp add: run_callback_def)
qed

text \<open>The callback is reset when nothing needs it any more.\<close>

lemma inside_alone:
  assumes inv: "core_inv s (add_mset p M)" and "0 < inside p + lambda p"
  shows "total unguarded M = 0 \<and> total storing M = 0 \<and> total forwarding M = 0 \<and> c_state s = Done"
proof -
  note m = core_invD(2) [OF inv, unfolded machine_ok_def total_simps]
  have st: "c_state s = Done"
    using m assms(2) by (cases "c_state s = Done") simp_all
  have "total unguarded M = 0"
    using m assms(2) total_bounds(2,3) [of M] by (auto simp: st)
  moreover have "total storing M = 0"
    using m total_bounds(4) [of M] by (simp add: st)
  moreover have "total forwarding M = 0"
    using core_invD(4) [OF inv] by (simp add: log_ok_def st)
  ultimately show ?thesis using st by simp
qed

lemma reset_inv:
  assumes inv: "core_inv s (add_mset p M)" and "0 < inside p + lambda p"
    and zero: "total callback_refs M = 0" "callback_refs p = 0" "unguarded p = 0" "storing p = 0"
      "forwarding p = 0" "\<not> c_queued s"
  shows "core_inv (s\<lparr>c_context := False, c_callback := False\<rparr>) (add_mset p M)"
  using core_invD [OF inv] zero inside_alone [OF inv assms(2)]
  by (intro core_invI) (simp_all add: refs_ok_def machine_ok_def callback_ok_def callback_need_def log_ok_def)

lemma derefCallback_inv:
  assumes inv: "core_inv s (add_mset p M)" and drops: "drops_ref p p'" and knows: "knows s p'"
    and p': "0 < inside p' + lambda p'" "unguarded p' = 0" "storing p' = 0" "forwarding p' = 0"
  shows "core_inv (derefCallback s) (add_mset p' M)"
proof -
  let ?s = "s\<lparr>c_refs := c_refs s - 1\<rparr>"
  have pos: "c_refs s = Suc (callback_refs p' + total callback_refs M + of_bool (c_queued s))"
    using core_invD(1) [OF inv] drops by (simp add: refs_ok_def drops_ref_def)
  have inv': "core_inv ?s (add_mset p' M)"
  proof (rule core_invI)
    show "refs_ok ?s (add_mset p' M)"
      using core_invD(1) [OF inv] drops by (simp add: refs_ok_def drops_ref_def same_ends_def)
    show "machine_ok ?s (add_mset p' M)"
      using core_invD(2) [OF inv] drops knows
      by (intro keeps_machine [of s p M p']) (simp_all add: drops_ref_def machine_ok_def)
    show "callback_ok ?s (add_mset p' M)"
      using core_invD(3) [OF inv] drops
      by (intro keeps_callback [of s p M p']) (simp_all add: drops_ref_def)
    show "log_ok ?s (add_mset p' M)"
      using core_invD(4) [OF inv] drops by (simp add: log_ok_def drops_ref_def keeps_def)
  qed
  show ?thesis
  proof (cases "c_refs s = 1")
    case True
    then have "total callback_refs M = 0" "callback_refs p' = 0" "\<not> c_queued s" using pos by simp_all
    then show ?thesis
      using reset_inv [OF inv' p'(1)] p' True by (simp add: derefCallback_def dcheck_def)
  next
    case False
    have "1 \<le> c_refs s" using pos by simp
    then have "derefCallback s = ?s" using False by (simp add: derefCallback_def dcheck_def)
    then show ?thesis using inv' by simp
  qed
qed


text \<open>Steps that take on something.\<close>

lemmas inv_defs = refs_ok_def machine_ok_def callback_ok_def callback_need_def log_ok_def

lemma attach2_inv:
  assumes "core_inv s (add_mset (D_Attach2 r ex ka) M)"
  shows "core_inv (s\<lparr>c_attached := c_attached s + 2\<rparr>) (add_mset (D_Refs r ex ka) M)"
  using core_invD [OF assms] not_deleted [OF assms]
  by (intro core_invI; cases r) (simp_all add: inv_defs ends_def holds_core_def unset_def)

lemma attach1_inv:
  assumes "core_inv s (add_mset (D_Attach1 r) M)"
  shows "core_inv (s\<lparr>c_attached := c_attached s + 1\<rparr>) (add_mset (D_Direct r) M)"
  using core_invD [OF assms] not_deleted [OF assms]
  by (intro core_invI; cases r) (simp_all add: inv_defs ends_def holds_core_def unset_def)

lemma refs_inv:
  assumes "core_inv s (add_mset (D_Refs r ex ka) M)"
  shows "core_inv (s\<lparr>c_refs := c_refs s + 2\<rparr>) (add_mset (D_Add r ex ka) M)"
  using core_invD [OF assms]
  by (intro core_invI) (simp_all add: inv_defs ends_def unset_def)

lemma queue_inv:
  assumes "core_inv s (add_mset (D_Add r ex ka) M)"
  shows "core_inv (s\<lparr>c_queued := True\<rparr>) (add_mset (D_Deref r) M)"
  using core_invD [OF assms] pending_done [OF assms]
  by (intro core_invI; cases r) (simp_all add: inv_defs ends_def unset_def)

lemma take_inv:
  assumes "core_inv s (add_mset W_Idle M)" and "c_queued s"
  shows "core_inv (s\<lparr>c_queued := False\<rparr>) (add_mset W_Run M)"
  using core_invD [OF assms(1)] assms(2)
  by (intro core_invI) (simp_all add: inv_defs ends_def unset_def)

lemma drop_inv:
  assumes "core_inv s (add_mset W_Idle M)" and "c_queued s"
  shows "core_inv (log_event Discarded (s\<lparr>c_queued := False\<rparr>)) (add_mset W_Deref M)"
  using core_invD [OF assms(1)] assms(2)
  by (intro core_invI) (simp_all add: inv_defs ends_def unset_def log_event_def)

lemma store_callback_inv:
  assumes "core_inv s (add_mset C_Begin M)"
  shows "core_inv (s\<lparr>c_callback := True, c_context := ctx\<rparr>) (add_mset (C_Load allow) M)"
  using core_invD [OF assms]
  by (intro core_invI) (simp_all add: inv_defs ends_def unset_def)

lemma store_result_inv:
  assumes "core_inv s (add_mset P_Begin M)"
  shows "core_inv (s\<lparr>c_result := True\<rparr>) (add_mset (P_Load ka) M)"
proof (rule core_invI)
  have "\<forall>q \<in># M. knows (s\<lparr>c_result := True\<rparr>) q"
  proof
    fix q assume "q \<in># M"
    then have "knows s q" using core_invD(2) [OF assms] by (simp add: machine_ok_def)
    then show "knows (s\<lparr>c_result := True\<rparr>) q" by (cases q) auto
  qed
  then show "machine_ok (s\<lparr>c_result := True\<rparr>) (add_mset (P_Load ka) M)"
    using core_invD(2) [OF assms] by (simp add: machine_ok_def unset_def)
qed (use core_invD [OF assms] in \<open>simp_all add: inv_defs ends_def unset_def\<close>)

lemma callback_refs_total: "total callback_refs M \<le> total inside M + total lambda M"
  using total_mono [of callback_refs "\<lambda>p. inside p + lambda p" M, OF callback_refs_bound]
  by (simp add: total_def sum_mset.distrib)

lemma proxyCallback_inv:
  assumes inv: "core_inv s (add_mset (X_Proxy r st) M)"
  shows "core_inv (proxyCallback st s) (add_mset (after_proxyCallback r) M)"
proof -
  note log = core_invD(4) [OF inv, unfolded log_ok_def total_simps]
  have st: "c_state s = Empty" using log by (cases "c_state s = Empty") simp_all
  have "total forwarding M = 0" "happened forwarded s = 0" "happened ((=) ProxyDetachFuture) s = 0"
    using log by (simp_all add: st)
  moreover have "total inside M = 0" "total lambda M = 0" "total unset M = 0" "\<not> c_queued s"
    using core_invD(2) [OF inv] by (simp_all add: machine_ok_def st)
  moreover from this have "total callback_refs M = 0" "total unguarded M = 0" "total storing M = 0"
    using callback_refs_total [of M] total_bounds(2,4) [of M] by simp_all
  ultimately show ?thesis
    using core_invD [OF inv]
    by (intro core_invI; cases r)
      (simp_all add: inv_defs st ends_def unset_def proxyCallback_def after_proxyCallback_def log_event_def)
qed


text \<open>Winning a compare-exchange.\<close>

lemma knows_cas:
  "knows s q \<Longrightarrow> c_state s = Start \<or> unset q = 0 \<and> unfulfilled q = 0 \<Longrightarrow>
    c_state s = OnlyResult \<longrightarrow> st = Done \<Longrightarrow> c_state s \<noteq> Done \<Longrightarrow> knows (s\<lparr>c_state := st\<rparr>) q"
  by (cases q) (auto simp: unset_def)

lemma cas_knows_all:
  assumes inv: "core_inv s (add_mset p M)" and p: "c_state s = Start \<or> 0 < unset p + unfulfilled p"
    and st: "c_state s = OnlyResult \<longrightarrow> st = Done" "c_state s \<noteq> Done"
    and alone: "c_state s = Proxy \<or> c_state s = OnlyResult \<longrightarrow> unset p = 1"
  shows "\<forall>q \<in># M. knows (s\<lparr>c_state := st\<rparr>) q"
proof
  fix q assume q: "q \<in># M"
  note m = core_invD(2) [OF inv, unfolded machine_ok_def total_simps]
  have "total unset M = 0 \<and> total unfulfilled M = 0" if "c_state s \<noteq> Start"
    using m p alone that by (cases "c_state s") simp_all
  then have "c_state s = Start \<or> unset q = 0 \<and> unfulfilled q = 0"
    using q by (auto dest: total_zeroD)
  moreover have "knows s q" using m q by simp
  ultimately show "knows (s\<lparr>c_state := st\<rparr>) q" using st by (intro knows_cas)
qed

lemma cas_callback_inv:
  assumes inv: "core_inv s (add_mset (C_CasStart allow) M)" and "c_state s = Start"
    and "st = OnlyCallback \<or> st = OnlyCallbackAllowInline"
  shows "core_inv (s\<lparr>c_state := st\<rparr>) (add_mset C_Own M)"
  by (rule disjE [OF assms(3)]; intro core_invI;
      use core_invD [OF inv] assms(2) cas_knows_all [OF inv, of st] in
        \<open>simp add: inv_defs ends_def unset_def; blast?\<close>)

lemma cas_result_inv:
  assumes inv: "core_inv s (add_mset (P_CasStart ka) M)" and "c_state s = Start"
  shows "core_inv (s\<lparr>c_state := OnlyResult\<rparr>) (add_mset P_Own M)"
  using core_invD [OF inv] assms(2) cas_knows_all [OF inv, of OnlyResult]
  by (intro core_invI) (simp_all add: inv_defs ends_def unset_def, blast)

lemma cas_proxy_inv:
  assumes inv: "core_inv s (add_mset P_ProxyCasStart M)" and "c_state s = Start"
  shows "core_inv (s\<lparr>c_state := Proxy\<rparr>) (add_mset P_ProxyDetach M)"
  using core_invD [OF inv] assms(2) cas_knows_all [OF inv, of Proxy] not_deleted [OF inv]
  by (intro core_invI) (simp_all add: inv_defs ends_def unset_def holds_core_def, blast)

lemma cas_done_consumer_inv:
  assumes inv: "core_inv s (add_mset C_CasDone M)"
  shows "c_state s = OnlyResult"
    and "core_inv (s\<lparr>c_state := Done\<rparr>) (add_mset (D_Exchange Consumer OnlyResult ka) M)"
proof -
  show st: "c_state s = OnlyResult" using core_invD(2) [OF inv] by (simp add: machine_ok_def)
  show "core_inv (s\<lparr>c_state := Done\<rparr>) (add_mset (D_Exchange Consumer OnlyResult ka) M)"
    using core_invD [OF inv] st cas_knows_all [OF inv, of Done]
    by (intro core_invI) (simp_all add: inv_defs ends_def unset_def, blast)
qed

lemma cas_empty_consumer_inv:
  assumes inv: "core_inv s (add_mset C_CasEmpty M)"
  shows "c_state s = Proxy" and "core_inv (s\<lparr>c_state := Empty\<rparr>) (add_mset (X_Proxy Consumer Proxy) M)"
proof -
  show st: "c_state s = Proxy" using core_invD(2) [OF inv] by (simp add: machine_ok_def)
  show "core_inv (s\<lparr>c_state := Empty\<rparr>) (add_mset (X_Proxy Consumer Proxy) M)"
    using core_invD [OF inv] st cas_knows_all [OF inv, of Empty] not_deleted [OF inv]
    by (intro core_invI) (simp_all add: inv_defs ends_def unset_def holds_core_def, blast)
qed

lemma cas_done_producer_inv:
  assumes inv: "core_inv s (add_mset (P_CasDone st ka) M)"
  shows "c_state s = st"
    and "core_inv (s\<lparr>c_state := Done\<rparr>) (add_mset (D_Exchange Producer st ka) M)"
proof -
  have k: "knows s (P_CasDone st ka)" using core_invD(2) [OF inv] by (simp add: machine_ok_def)
  then show "c_state s = st" by simp
  have r: "c_result s" and or: "c_state s = OnlyCallback \<or> c_state s = OnlyCallbackAllowInline"
    and np: "st \<noteq> Proxy" using k by auto
  show "core_inv (s\<lparr>c_state := Done\<rparr>) (add_mset (D_Exchange Producer st ka) M)"
    using or
  proof
    assume "c_state s = OnlyCallback"
    with core_invD [OF inv] r np cas_knows_all [OF inv, of Done] show ?thesis
      by (intro core_invI) (simp_all add: inv_defs ends_def unset_def, blast)
  next
    assume "c_state s = OnlyCallbackAllowInline"
    with core_invD [OF inv] r np cas_knows_all [OF inv, of Done] show ?thesis
      by (intro core_invI) (simp_all add: inv_defs ends_def unset_def, blast)
  qed
qed

lemma cas_empty_producer_inv:
  assumes inv: "core_inv s (add_mset (P_ProxyCasEmpty st) M)"
  shows "c_state s = st" and "core_inv (s\<lparr>c_state := Empty\<rparr>) (add_mset (X_Proxy Producer st) M)"
proof -
  have k: "knows s (P_ProxyCasEmpty st)" using core_invD(2) [OF inv] by (simp add: machine_ok_def)
  then show "c_state s = st" by simp
  have or: "c_state s = OnlyCallback \<or> c_state s = OnlyCallbackAllowInline" using k by auto
  show "core_inv (s\<lparr>c_state := Empty\<rparr>) (add_mset (X_Proxy Producer st) M)"
    using or
  proof
    assume "c_state s = OnlyCallback"
    with core_invD [OF inv] cas_knows_all [OF inv, of Empty] show ?thesis
      by (intro core_invI) (simp_all add: inv_defs ends_def unset_def, blast)
  next
    assume "c_state s = OnlyCallbackAllowInline"
    with core_invD [OF inv] cas_knows_all [OF inv, of Empty] show ?thesis
      by (intro core_invI) (simp_all add: inv_defs ends_def unset_def, blast)
  qed
qed


subsection \<open>Every step\<close>

lemmas duty_simps = duty_defs holds_core_def ends_def unset_def

lemma core_inv_state:
  assumes "core_inv s (add_mset p M)"
  shows "0 < unset p \<Longrightarrow> c_state s \<in> {Start, OnlyResult, Proxy}"
    and "0 < unfulfilled p \<Longrightarrow> c_state s \<in> {Start, OnlyCallback, OnlyCallbackAllowInline}"
    and "0 < inside p \<Longrightarrow> c_state s = Done" and "knows s p"
  using core_invD(2) [OF assms] by (cases "c_state s"; simp add: machine_ok_def)+

lemma setCallback_inv:
  assumes inv: "core_inv s (add_mset p M)" and "setCallback_act s p s' p'"
  shows "core_inv s' (add_mset p' M)"
  using assms(2)
proof cases
  case (executor x)
  then have "c_state s \<in> {Start, OnlyResult, Proxy}" using inv core_inv_state(1) by (simp add: unset_def)
  then show ?thesis using inv executor by (auto simp: setExecutor_def dcheck_def)
next
  case (store ctx allow)
  then have "c_state s \<in> {Start, OnlyResult, Proxy}" using inv core_inv_state(1) by (simp add: unset_def)
  then show ?thesis using inv store store_callback_inv [of s M ctx allow] by (auto simp: dcheck_def)
next
  case (load allow)
  then have "c_state s \<in> {Start, OnlyResult, Proxy}" using inv core_inv_state(1) by (simp add: unset_def)
  then show ?thesis
    using inv load by (auto simp: setCallback_race_def duty_simps intro: rests_inv)
next
  case (cas_start allow)
  then have "c_state s \<in> {Start, OnlyResult, Proxy}" using inv core_inv_state(1) by (simp add: unset_def)
  then show ?thesis
    using inv cas_start
    by (auto simp: cas_state_def setCallback_race_def duty_simps intro: rests_inv cas_callback_inv)
next
  case cas_done
  then show ?thesis
    using inv cas_done_consumer_inv by (auto simp: final_cas_def cas_state_def)
next
  case cas_empty
  then show ?thesis
    using inv cas_empty_consumer_inv by (auto simp: final_cas_def cas_state_def)
next
  case drop
  then show ?thesis
    using inv detachOne_inv [OF inv, of C_End] by (auto simp: detachFuture_def duty_simps)
qed

lemma setResult_inv:
  assumes inv: "core_inv s (add_mset p M)" and "setResult_act s p s' p'"
  shows "core_inv s' (add_mset p' M)"
  using assms(2)
proof cases
  case (store ka)
  then show ?thesis using inv store_result_inv by simp
next
  case (load ka)
  then have "c_state s \<in> {Start, OnlyCallback, OnlyCallbackAllowInline}" "knows s p"
    using inv core_inv_state(2,4) [OF inv] by simp_all
  then show ?thesis
    using inv load by (auto simp: setResult_race_def duty_simps intro: rests_inv)
next
  case (cas_start ka)
  then have "c_state s \<in> {Start, OnlyCallback, OnlyCallbackAllowInline}" "knows s p"
    using inv core_inv_state(2,4) [OF inv] by simp_all
  then show ?thesis
    using inv cas_start
    by (auto simp: cas_state_def setResult_race_def duty_simps intro: rests_inv cas_result_inv)
next
  case (cas_done state ka)
  then show ?thesis
    using inv cas_done_producer_inv by (auto simp: final_cas_def cas_state_def)
next
  case drop
  then have "hasResult (c_state s)" using inv core_inv_state(4) [OF inv] by simp
  then show ?thesis
    using drop detachOne_inv [OF inv, of P_End] by (simp add: detachPromise_def dcheck_def duty_simps)
qed

lemma setProxy_inv:
  assumes inv: "core_inv s (add_mset p M)" and "setProxy_act s p s' p'"
  shows "core_inv s' (add_mset p' M)"
  using assms(2)
proof cases
  case store
  then show ?thesis using inv rests_inv [OF inv, of P_ProxyLoad] by (simp add: duty_simps)
next
  case load
  then have "c_state s \<in> {Start, OnlyCallback, OnlyCallbackAllowInline}"
    using inv core_inv_state(2) by simp
  then show ?thesis
    using inv load by (auto simp: setProxy_race_def duty_simps intro: rests_inv)
next
  case cas_start
  then have "c_state s \<in> {Start, OnlyCallback, OnlyCallbackAllowInline}"
    using inv core_inv_state(2) by simp
  then show ?thesis
    using inv cas_start
    by (auto simp: cas_state_def setProxy_race_def duty_simps intro: rests_inv cas_proxy_inv)
next
  case (cas_empty state)
  then show ?thesis
    using inv cas_empty_producer_inv by (auto simp: final_cas_def cas_state_def)
next
  case (proxy r state)
  then show ?thesis using inv proxyCallback_inv by simp
next
  case detach
  then show ?thesis
    using detachOne_inv [OF inv, of P_End] by (simp add: duty_simps)
qed

lemma worker_inv:
  assumes inv: "core_inv s (add_mset p M)" and "worker_act s p s' p'"
  shows "core_inv s' (add_mset p' M)"
  using assms(2)
proof cases
  case run
  then show ?thesis using run_callback_inv [OF inv, of W_Deref False] by (simp add: duty_simps)
next
  case deref
  then show ?thesis using derefCallback_inv [OF inv, of W_Detach] by (simp add: duty_simps)
next
  case detach
  then show ?thesis using detachOne_inv [OF inv, of W_End] by (simp add: duty_simps)
qed (use inv take_inv drop_inv in simp_all)

lemma doCallback_inv:
  assumes inv: "core_inv s (add_mset p M)" and "doCallback_act s p s' p'"
  shows "core_inv s' (add_mset p' M)"
  using assms(2)
proof cases
  case (exchange r prior ka)
  then have "c_state s = Done" using inv core_inv_state(3) by simp
  moreover have "core_inv s (add_mset (D_Attach1 r) M)" "core_inv s (add_mset (D_Attach2 r ex k) M)" for ex k
    using rests_inv [OF inv] exchange by (simp_all add: duty_simps)
  ultimately show ?thesis using exchange by (simp add: dcheck_def)
next
  case (add_inline r ex ka)
  then show ?thesis using rests_inv [OF inv, of "D_Run r"] by (simp add: duty_simps)
next
  case (add_discard ex ka r)
  then show ?thesis
    using delivers_inv [OF inv, of "D_LambdaDeref r False" Discarded] by (simp add: duty_simps)
next
  case (add_throw ex ka r)
  then show ?thesis using rests_inv [OF inv, of "D_LambdaDeref r True"] by (simp add: duty_simps)
next
  case (run r)
  then show ?thesis
    using run_callback_inv [OF inv, of "D_LambdaDeref r False" False] by (simp add: duty_simps)
next
  case (lambda_deref r ew)
  then show ?thesis using derefCallback_inv [OF inv, of "D_LambdaDetach r ew"] by (simp add: duty_simps)
next
  case (lambda_detach r ew)
  then show ?thesis
    using detachOne_inv [OF inv, of "D_Throw r"] detachOne_inv [OF inv, of "D_Deref r"]
    by (cases r) (simp_all add: duty_simps)
next
  case (throw r)
  then show ?thesis using run_callback_inv [OF inv, of "D_Deref r" True] by (simp add: duty_simps)
next
  case (deref r)
  then show ?thesis using derefCallback_inv [OF inv, of "D_Detach r"] by (simp add: duty_simps)
next
  case (detach r)
  then have "c_state s = Done" using inv core_inv_state(3) by simp
  then show ?thesis
    using detach detachOne_inv [OF inv, of "after_doCallback r"]
    by (cases r) (simp_all add: after_doCallback_def duty_simps)
next
  case (direct r)
  then show ?thesis
    using run_callback_inv [OF inv, of "D_Reset r" False] by (simp add: duty_simps)
next
  case (reset r)
  have "total inside M = 0" "total lambda M = 0" "\<not> c_queued s"
    using core_invD(2) [OF inv] core_inv_state(3) [OF inv] reset(1) by (simp_all add: machine_ok_def)
  then have "core_inv s' (add_mset p M)"
    using reset_inv [OF inv] reset callback_refs_total [of M] by simp
  then show ?thesis
    using rests_inv [of s' p M "D_Detach r"] reset by (simp add: duty_simps)
qed (use inv attach2_inv attach1_inv refs_inv queue_inv in simp_all)

lemma core_act_inv:
  "core_act s p s' p' \<Longrightarrow> core_inv s (add_mset p M) \<Longrightarrow> core_inv s' (add_mset p' M)"
  by (elim core_act.cases)
    (auto intro: setCallback_inv setResult_inv setProxy_inv doCallback_inv worker_inv)

lemma core_inv_init: "core_inv Core_make core_threads"
  by (auto simp: core_inv_def inv_defs Core_make_def CoreBase_init_def core_threads_def ends_def unset_def)

lemma core_inv_init_result: "core_inv Core_make_result core_threads_result"
  by (auto simp: core_inv_def inv_defs Core_make_result_def CoreBase_init_def core_threads_result_def
      ends_def unset_def)

section \<open>Reaching the end\<close>

text \<open>The steps a thread has left at most, the function kept by the executor counting as four.\<close>

fun core_left :: "core_pc \<Rightarrow> nat" where
  "core_left C_Begin = 15" | "core_left (C_Load a) = 14" | "core_left (C_CasStart a) = 13"
| "core_left C_CasDone = 12" | "core_left C_CasEmpty = 12" | "core_left C_Own = 1"
| "core_left P_Begin = 15" | "core_left (P_Load ka) = 14" | "core_left (P_CasStart ka) = 13"
| "core_left (P_CasDone st ka) = 12" | "core_left P_Own = 1" | "core_left P_ProxyLoad = 14"
| "core_left P_ProxyCasStart = 13" | "core_left (P_ProxyCasEmpty st) = 12" | "core_left P_ProxyDetach = 1"
| "core_left (D_Exchange r st ka) = 11" | "core_left (D_Attach2 r ex ka) = 10"
| "core_left (D_Refs r ex ka) = 9" | "core_left (D_Add r ex ka) = 8" | "core_left (D_Run r) = 7"
| "core_left (D_LambdaDeref r ew) = 6" | "core_left (D_LambdaDetach r ew) = 5" | "core_left (D_Throw r) = 4"
| "core_left (D_Deref r) = 3" | "core_left (D_Detach r) = 2" | "core_left (D_Attach1 r) = 5"
| "core_left (D_Direct r) = 4" | "core_left (D_Reset r) = 3" | "core_left (X_Proxy r st) = 2"
| "core_left W_Run = 3" | "core_left W_Deref = 2" | "core_left W_Detach = 1"
| "core_left _ = 0"

definition core_load :: "core \<Rightarrow> core_pc multiset \<Rightarrow> nat" where
  "core_load s M = total core_left M + (if c_queued s then 4 else 0)"

lemma queued_detach [simp]:
  "c_queued (detachOne s) = c_queued s" "c_queued (derefCallback s) = c_queued s"
  by (auto simp: detachOne_def Core_destructor_def destroyDerived_def derefCallback_def dcheck_def log_event_def
      Let_def split: State.splits)

lemma queued_calls [simp]:
  "c_queued (run_callback ew s) = c_queued s" "c_queued (proxyCallback st s) = c_queued s"
  "c_queued (dcheck b s) = c_queued s" "c_queued (detachPromise s) = c_queued s"
  "c_queued (detachFuture s) = c_queued s"
  by (simp_all add: run_callback_def proxyCallback_def dcheck_def log_event_def detachPromise_def detachFuture_def)

text \<open>Every step, except setting the executor, brings the end closer.\<close>

lemma core_act_decreases:
  assumes "core_act s p s' p'" and "p' \<noteq> C_Begin"
  shows "core_load s' (add_mset p' N) < core_load s (add_mset p N)"
  using assms(1)
proof cases
  case 1
  then show ?thesis
    using assms(2)
    by cases (auto simp: core_load_def cas_state_def final_cas_def setCallback_race_def split: if_splits)
next
  case 2
  then show ?thesis
    by cases (auto simp: core_load_def cas_state_def final_cas_def setResult_race_def split: if_splits)
next
  case 3
  then show ?thesis
    by cases (auto simp: core_load_def cas_state_def final_cas_def setProxy_race_def after_proxyCallback_def
        split: if_splits role.splits)
next
  case 4
  then show ?thesis
    by cases (auto simp: core_load_def after_doCallback_def log_event_def split: if_splits role.splits)
next
  case 5
  then show ?thesis
    by cases (auto simp: core_load_def log_event_def)
qed

lemma core_act_leaves_begin:
  assumes "core_act s p s' p'" and "p \<noteq> C_Begin"
  shows "p' \<noteq> C_Begin"
  using assms
  by (auto elim!: core_act.cases setCallback_act.cases setResult_act.cases setProxy_act.cases
      doCallback_act.cases worker_act.cases
      simp: cas_state_def final_cas_def setCallback_race_def setResult_race_def setProxy_race_def
        after_doCallback_def after_proxyCallback_def split: if_splits role.splits)

lemma core_act_enabled:
  assumes "0 < core_left p"
  shows "\<exists>s' p'. core_act s p s' p' \<and> p' \<noteq> C_Begin"
proof -
  note intros = core_act.intros(1) [OF setCallback_act.load] core_act.intros(1) [OF setCallback_act.cas_start]
    core_act.intros(1) [OF setCallback_act.cas_done] core_act.intros(1) [OF setCallback_act.cas_empty]
    core_act.intros(2) [OF setResult_act.store] core_act.intros(2) [OF setResult_act.load]
    core_act.intros(2) [OF setResult_act.cas_start] core_act.intros(2) [OF setResult_act.cas_done]
    core_act.intros(2) [OF setResult_act.drop] core_act.intros(3) [OF setProxy_act.load]
    core_act.intros(3) [OF setProxy_act.cas_start] core_act.intros(3) [OF setProxy_act.cas_empty]
    core_act.intros(3) [OF setProxy_act.proxy] core_act.intros(3) [OF setProxy_act.detach]
    doCallback_act.intros [THEN core_act.intros(4)] worker_act.intros [THEN core_act.intros(5)]
  have drop: "core_act s C_Begin (detachFuture s) C_End" "core_act s C_Own (detachFuture s) C_End"
    by (simp_all add: core_act.intros(1) setCallback_act.drop)
  have "\<exists>s' p'. core_act s p s' p'" if "p \<noteq> C_Begin"
    by (insert assms that, cases p; simp?; rule exI, rule exI, rule intros drop; (rule prod.collapse)?)
  then show ?thesis using core_act_leaves_begin [of s p] drop(1) by (cases "p = C_Begin") blast+
qed


lemma queued_worker:
  assumes inv: "core_inv s M" and "c_queued s"
  shows "\<exists>N. M = add_mset W_Idle N"
proof -
  have log: "total pending M = 0" "0 < total worker_early M"
    using core_invD(4) [OF inv] assms(2) by (cases "c_state s = Done"; simp add: log_ok_def)+
  obtain p N where p: "M = add_mset p N" "0 < worker_early p" using total_pos [OF log(2)] by blast
  then have "p = W_Idle" using log(1) by (cases p) auto
  then show ?thesis using p(1) by blast
qed

lemma core_progress:
  assumes inv: "core_inv s M" and "0 < core_load s M"
  shows "\<exists>p N s' p'. M = add_mset p N \<and> core_act s p s' p' \<and> p' \<noteq> C_Begin"
proof (cases "c_queued s")
  case True
  then show ?thesis
    using queued_worker [OF inv True] core_act.intros(5) [OF worker_act.take [OF True]] by blast
next
  case False
  then obtain p N where "M = add_mset p N" "0 < core_left p"
    using assms(2) total_pos [of core_left M] by (auto simp: core_load_def)
  then show ?thesis using core_act_enabled [of p s] by blast
qed

interpretation future_core: measured_pool core_act core_inv core_load
proof
  show "core_inv s (add_mset p M) \<Longrightarrow> core_act s p s' p' \<Longrightarrow> core_inv s' (add_mset p' M)" for s p s' p' M
    by (rule core_act_inv)
  show "\<exists>p N s' p'. M = add_mset p N \<and> core_act s p s' p' \<and> core_load s' (add_mset p' N) < core_load s M"
    if "core_inv s M" "0 < core_load s M" for s M
    using core_progress [OF that] core_act_decreases by blast
qed

lemma core_reach_inv:
  assumes "pool_reach core_act init (s, M)"
    and "init = (Core_make, core_threads) \<or> init = (Core_make_result, core_threads_result)"
  shows "core_inv s M"
  using assms core_inv_init core_inv_init_result future_core.reach_inv by auto

section \<open>The whole life of a core\<close>

lemma guards_total: "total guards M \<le> total inside M + total lambda M"
  using total_mono [of guards "\<lambda>p. inside p + lambda p" M, OF guards_bound]
  by (simp add: total_def sum_mset.distrib)

lemma core_inv_counts:
  assumes inv: "core_inv s M"
  shows "c_attached s \<le> 4 \<and> c_refs s \<le> 2"
proof -
  have "of_bool (c_state s = Done) \<le> (1::nat)" by simp
  then have "total inside M \<le> 1" "total lambda M + of_bool (c_queued s) \<le> 1"
    using core_invD(2) [OF inv] unfolding machine_ok_def by (elim conjE; linarith)+
  then show ?thesis
    using core_invD(1) [OF inv] guards_total [of M] callback_refs_total [of M] by (simp add: refs_ok_def)
qed

lemma core_inv_deleted:
  assumes inv: "core_inv s M" and "c_deleted s"
  shows "\<not> c_queued s \<and> set_mset M \<subseteq> {C_End, P_End, W_Idle, W_End}"
proof -
  have z: "total (ends Consumer) M = 0" "total (ends Producer) M = 0" "total guards M = 0" "\<not> c_queued s"
    using core_invD(1) [OF inv] assms(2) by (auto simp: refs_ok_def)
  have "p \<in> {C_End, P_End, W_Idle, W_End}" if p: "p \<in># M" for p
  proof -
    have "knows s p" using core_invD(2) [OF inv] p by (simp add: machine_ok_def)
    moreover have "holds_core p = 0" using z p by (auto simp: holds_core_def dest: total_zeroD)
    ultimately show ?thesis by (cases p) (auto simp: holds_core_def ends_def intro: role.exhaust)
  qed
  then show ?thesis using z(4) by blast
qed


lemma core_inv_final:
  assumes inv: "core_inv s M" and "core_load s M = 0"
  shows "c_deleted s" and "c_state s \<notin> {Start, OnlyCallback, OnlyCallbackAllowInline}"
    and "happened delivery s = of_bool (c_state s = Done)"
    and "happened forwarded s = of_bool (c_state s = Empty)"
    and "happened ((=) ProxyDetachFuture) s = of_bool (c_state s \<in> {Empty, Proxy})"
proof -
  have q: "\<not> c_queued s" and left: "total core_left M = 0"
    using assms(2) by (auto simp: core_load_def split: if_splits)
  have p: "holds_core p = 0 \<and> unfulfilled p = 0 \<and> pending p = 0 \<and> forwarding p = 0" if "p \<in># M" for p
  proof -
    have "knows s p" using core_invD(2) [OF inv] that by (simp add: machine_ok_def)
    then show ?thesis
      using total_zeroD [OF left that] by (cases p) (auto simp: holds_core_def ends_def)
  qed
  have zero: "total f M = 0" if "\<And>p. p \<in># M \<Longrightarrow> f p = 0" for f :: "core_pc \<Rightarrow> nat"
    using that by (simp add: total_def)
  show del: "c_deleted s"
    using core_invD(1) [OF inv] q p zero [of "ends Consumer"] zero [of "ends Producer"] zero [of guards]
    by (simp add: refs_ok_def holds_core_def)
  show "c_state s \<notin> {Start, OnlyCallback, OnlyCallbackAllowInline}"
    using core_invD(2) [OF inv] p zero [of unfulfilled] by (auto simp: machine_ok_def)
  note log = core_invD(4) [OF inv, unfolded log_ok_def]
  show "happened delivery s = of_bool (c_state s = Done)"
    using log q p zero [of pending] by simp
  show "happened forwarded s = of_bool (c_state s = Empty)"
    using log p zero [of forwarding] by simp
  show "happened ((=) ProxyDetachFuture) s = of_bool (c_state s \<in> {Empty, Proxy})"
    using log p zero [of forwarding] del by (cases "c_state s") simp_all
qed

text \<open>The transitions that the diagram of \<open>Core.h\<close> allows.\<close>

inductive fsm_arrow :: "State \<Rightarrow> State \<Rightarrow> bool" where
  "fsm_arrow Start OnlyResult"
| "fsm_arrow Start OnlyCallback"
| "fsm_arrow Start OnlyCallbackAllowInline"
| "fsm_arrow Start Proxy"
| "fsm_arrow OnlyResult Done"
| "fsm_arrow OnlyCallback Done"
| "fsm_arrow OnlyCallbackAllowInline Done"
| "fsm_arrow Proxy Empty"
| "fsm_arrow OnlyCallback Empty"
| "fsm_arrow OnlyCallbackAllowInline Empty"

lemma state_calls [simp]:
  "c_state (detachOne s) = c_state s" "c_state (derefCallback s) = c_state s"
  "c_state (run_callback ew s) = c_state s" "c_state (proxyCallback st s) = c_state s"
  "c_state (dcheck b s) = c_state s" "c_state (detachPromise s) = c_state s"
  "c_state (detachFuture s) = c_state s" "c_state (log_event e s) = c_state s"
  "c_state (setExecutor x s) = c_state s"
  by (auto simp: detachOne_def Core_destructor_def destroyDerived_def derefCallback_def dcheck_def log_event_def
      run_callback_def proxyCallback_def detachPromise_def detachFuture_def setExecutor_def Let_def
      split: State.splits)

lemma core_act_arrow:
  assumes inv: "core_inv s (add_mset p N)" and "core_act s p s' p'"
  shows "c_state s' = c_state s \<or> fsm_arrow (c_state s) (c_state s')"
  using assms(2) core_inv_state(4) [OF inv]
  by (auto elim!: core_act.cases setCallback_act.cases setResult_act.cases setProxy_act.cases
      doCallback_act.cases worker_act.cases
      simp: cas_state_def final_cas_def fsm_arrow.intros split: if_splits)

text \<open>A run: the result is there, the consumer attaches a callback without an executor.\<close>

abbreviation quiet_core :: "State \<Rightarrow> nat \<Rightarrow> bool \<Rightarrow> bool \<Rightarrow> bool \<Rightarrow> core_event list \<Rightarrow> core" where
  "quiet_core st a r cb del log \<equiv>
     \<lparr>c_state = st, c_attached = a, c_refs = 0, c_result = r, c_callback = cb, c_context = False,
      c_executor = NoExecutor, c_queued = False, c_deleted = del, c_failed = False, c_log = log\<rparr>"

lemma core_direct_1:
  "pool_reach core_act (Core_make_result, core_threads_result)
     (quiet_core OnlyResult 1 True True False [], {#C_CasDone, W_Idle#})"
proof -
  note one = pool_reach_1 [of core_act _ _ _ _ "{#W_Idle#}"]
  let ?c = "quiet_core OnlyResult 1 True"
  have "pool_reach core_act (?c False False [], {#C_Begin, W_Idle#}) (?c True False [], {#C_Load False, W_Idle#})"
    using one [OF core_act.intros(1) [OF setCallback_act.store [of "?c False False []" False False]]]
    by (simp add: dcheck_def)
  moreover have "pool_reach core_act (?c True False [], {#C_Load False, W_Idle#}) (?c True False [], {#C_CasDone, W_Idle#})"
    using one [OF core_act.intros(1) [OF setCallback_act.load [of "?c True False []" False]]]
    by (simp add: setCallback_race_def)
  moreover have "Core_make_result = ?c False False []"
    by (simp add: Core_make_result_def CoreBase_init_def)
  ultimately show ?thesis
    unfolding core_threads_result_def by (metis pool_reach_trans)
qed

lemma core_direct_2:
  "core_act (quiet_core OnlyResult 1 True True False []) C_CasDone (quiet_core Done 1 True True False [])
     (D_Exchange Consumer OnlyResult None)"
  by (intro core_act.intros(1) setCallback_act.cas_done) (simp add: final_cas_def cas_state_def)

lemma core_direct_3:
  "pool_reach core_act (quiet_core Done 1 True True False [], {#D_Exchange Consumer OnlyResult None, W_Idle#})
     (quiet_core Done 0 False False True [Invoked True True False], {#C_End, W_Idle#})"
proof -
  let ?c = "quiet_core Done"
  let ?i = "[Invoked True True False]"
  let ?r = "\<lambda>s p s' p'. pool_reach core_act (s, {#p, W_Idle#}) (s', {#p', W_Idle#})"
  note one = pool_reach_1 [of core_act _ _ _ _ "{#W_Idle#}"]
  have 4: "?r (?c 1 True True False []) (D_Exchange Consumer OnlyResult None) (?c 1 True True False []) (D_Attach1 Consumer)"
    using one [OF core_act.intros(4) [OF doCallback_act.exchange [of "?c 1 True True False []" Consumer]]]
    by (simp add: dcheck_def)
  have 5: "?r (?c 1 True True False []) (D_Attach1 Consumer) (?c 2 True True False []) (D_Direct Consumer)"
    using one [OF core_act.intros(4) [OF doCallback_act.attach1 [of "?c 1 True True False []" Consumer]]]
    by (simp add: numeral_2_eq_2)
  have 6: "?r (?c 2 True True False []) (D_Direct Consumer) (?c 2 True True False ?i) (D_Reset Consumer)"
    using one [OF core_act.intros(4) [OF doCallback_act.direct [of "?c 2 True True False []" Consumer]]]
    by (simp add: run_callback_def log_event_def)
  have 7: "?r (?c 2 True True False ?i) (D_Reset Consumer) (?c 2 True False False ?i) (D_Detach Consumer)"
    using one [OF core_act.intros(4) [OF doCallback_act.reset [of "?c 2 True True False ?i" Consumer]]] by simp
  have 8: "?r (?c 2 True False False ?i) (D_Detach Consumer) (?c 1 True False False ?i) C_Own"
    using one [OF core_act.intros(4) [OF doCallback_act.detach [of "?c 2 True False False ?i" Consumer]]]
    by (simp add: after_doCallback_def detachOne_def dcheck_def)
  have 9: "?r (?c 1 True False False ?i) C_Own (?c 0 False False True ?i) C_End"
    using one [OF core_act.intros(1) [OF setCallback_act.drop [of C_Own "?c 1 True False False ?i"]]]
    by (simp add: detachFuture_def detachOne_def dcheck_def Core_destructor_def destroyDerived_def)
  show ?thesis
    by (rule pool_reach_trans [OF 4 pool_reach_trans [OF 5 pool_reach_trans [OF 6
      pool_reach_trans [OF 7 pool_reach_trans [OF 8 9]]]]])
qed

lemmas core_direct_run =
  pool_reach_trans [OF core_direct_1 pool_reach_trans [OF pool_reach_1
    [of core_act _ _ _ _ "{#W_Idle#}", OF core_direct_2] core_direct_3]]

text \<open>
  C1. Whatever the interleaving of the consumer, the producer and the executor, starting from a
  core with or without a promise: no assertion fails and no operation terminates on an unexpected
  state; the core is deleted only when no thread and no queued function can touch it any more; the
  two counters stay within four and two, far below what their \<open>unsigned char\<close> holds; and the
  callback is called or discarded at most once, and called only while both it and the result
  are there, also when the executor throws.
\<close>

theorem future_core_safe:
  assumes "init = (Core_make, core_threads) \<or> init = (Core_make_result, core_threads_result)"
    and "pool_reach core_act init (s, M)"
  shows "\<not> c_failed s \<and> Terminated \<notin># M \<and>
    (c_deleted s \<longrightarrow> \<not> c_queued s \<and> set_mset M \<subseteq> {C_End, P_End, W_Idle, W_End}) \<and>
    c_attached s \<le> 4 \<and> c_refs s \<le> 2 \<and>
    happened delivery s \<le> 1 \<and> list_all event_ok (c_log s)"
proof -
  have inv: "core_inv s M" using core_reach_inv [OF assms(2,1)] .
  have "knows s p" if "p \<in># M" for p using core_invD(2) [OF inv] that by (simp add: machine_ok_def)
  then have "Terminated \<notin># M" by fastforce
  moreover have "happened delivery s \<le> 1"
    using core_invD(4) [OF inv] by (cases "c_state s = Done") (simp_all add: log_ok_def)
  ultimately show ?thesis
    using core_invD(1,4) [OF inv] core_inv_counts [OF inv] core_inv_deleted [OF inv]
    by (auto simp: refs_ok_def log_ok_def)
qed

theorem future_core_safe_witness:
  "\<exists>s M. pool_reach core_act (Core_make_result, core_threads_result) (s, M) \<and>
    \<not> c_failed s \<and> c_deleted s \<and> \<not> c_queued s \<and> c_log s = [Invoked True True False]"
  using future_core_safe [OF disjI2 [OF refl] core_direct_run] core_direct_run
  by (intro exI conjI) (rule core_direct_run, simp_all)

text \<open>
  C33. A core always comes to its end. From every reachable state the threads can run to a state
  where nothing is left to do, and every step they take, apart from choosing an executor again,
  brings it closer. In such a state the core is deleted exactly with what it owes done: the
  callback was called or discarded once if both it and the result were set, and a proxy was given
  the callback once if there was one, and was let go once in any case.
\<close>

theorem future_core_delivers:
  assumes "init = (Core_make, core_threads) \<or> init = (Core_make_result, core_threads_result)"
    and "pool_reach core_act init (s, M)"
  shows "(\<exists>s' N. pool_reach core_act (s, M) (s', N) \<and> core_load s' N = 0) \<and>
    (\<forall>p N s' p'. M = add_mset p N \<longrightarrow> core_act s p s' p' \<longrightarrow> p' \<noteq> C_Begin \<longrightarrow>
       core_load s' (add_mset p' N) < core_load s M) \<and>
    (core_load s M = 0 \<longrightarrow> c_deleted s \<and> c_state s \<notin> {Start, OnlyCallback, OnlyCallbackAllowInline} \<and>
       happened delivery s = of_bool (c_state s = Done) \<and>
       happened forwarded s = of_bool (c_state s = Empty) \<and>
       happened ((=) ProxyDetachFuture) s = of_bool (c_state s \<in> {Empty, Proxy}))"
proof -
  have inv: "core_inv s M" using core_reach_inv [OF assms(2,1)] .
  have "\<exists>s' N. pool_reach core_act (s, M) (s', N) \<and> core_load s' N = 0"
    using future_core.settle [OF inv] by (elim exE conjE) (intro exI conjI)
  then show ?thesis
    using core_act_decreases core_inv_final [OF inv] by simp
qed

theorem future_core_delivers_witness:
  "\<exists>s M. pool_reach core_act (Core_make, core_threads) (s, M) \<and> core_load s M = 0"
  using future_core_delivers [OF disjI1 [OF refl], of Core_make core_threads]
  by (simp add: pool_reach_def)

text \<open>
  C34. The core implements the state machine its documentation draws: a step of any thread either
  leaves the state or follows one of the arrows.
\<close>

theorem future_core_fsm:
  assumes "init = (Core_make, core_threads) \<or> init = (Core_make_result, core_threads_result)"
    and "pool_reach core_act init (s, add_mset p N)" and "core_act s p s' p'"
  shows "c_state s' = c_state s \<or> fsm_arrow (c_state s) (c_state s')"
  using core_act_arrow [OF core_reach_inv [OF assms(2,1)] assms(3)] .

theorem future_core_fsm_witness:
  "\<exists>s s' p'. pool_reach core_act (Core_make_result, core_threads_result) (s, {#C_CasDone, W_Idle#}) \<and>
    core_act s C_CasDone s' p' \<and> c_state s' = Done \<and> fsm_arrow (c_state s) Done"
  using future_core_fsm [OF disjI2 [OF refl] core_direct_1 core_direct_2] core_direct_1 core_direct_2
  by (intro exI conjI) (rule core_direct_1, rule core_direct_2, simp_all)

end
