(* ===== verification/FutureInterrupt.thy ===== *)
theory FutureInterrupt
  imports Thread_Pool Folly_Prelude
begin

text \<open>
  The interrupt of a future's core, from \<open>folly/futures/detail/Core.h\<close> and \<open>Core.cpp\<close>: \<open>raise\<close>, called by
  consumers, and \<open>setInterruptHandler\<close>, called once by the producer, meet in one word that holds the
  address of a handler or of an exception in its upper bits and a state in the lowest two. An
  exception and a handler are known by the address of the copy that is made of them. The log
  records the copies made and deleted and the calls of the handler.
\<close>

section \<open>The word\<close>

definition InterruptMask :: u64 where "InterruptMask = 3"
definition InterruptInitial :: u64 where "InterruptInitial = 0"
definition InterruptHasHandler :: u64 where "InterruptHasHandler = 1"
definition InterruptHasObject :: u64 where "InterruptHasObject = 2"
definition InterruptTerminal :: u64 where "InterruptTerminal = 3"

datatype int_event = Allocated u64 | Freed u64 | Handled u64 u64

record interrupt =
  i_word :: u64
  i_log :: "int_event list"

definition interrupt_init :: interrupt where
  "interrupt_init = \<lparr>i_word = 0, i_log = []\<rparr>"

definition int_log :: "int_event list \<Rightarrow> interrupt \<Rightarrow> interrupt" where
  "int_log es s = s\<lparr>i_log := i_log s @ es\<rparr>"

section \<open>Member functions as programs\<close>

text \<open>
  \<open>R\<close> points belong to \<open>raise\<close> and \<open>S\<close> points to \<open>setInterruptHandler\<close>; \<open>R_Skip\<close> and \<open>S_Skip\<close> are calls
  that returned because the core had its result. The flag of \<open>S_CasTerminal\<close> and \<open>S_Handle\<close>
  tells whether the handler was copied to the heap before the race was lost.
\<close>

datatype int_pc =
    R_Begin u64 | R_Load u64 | R_CasObject u64 | R_CasTerminal u64 u64 | R_Handle u64 u64 | R_End | R_Skip
  | S_Begin u64 | S_Load u64 | S_CasHandler u64 | S_CasTerminal u64 bool u64 | S_Handle u64 bool u64
  | S_End | S_Skip
  | Int_Terminated

inductive raise_act :: "interrupt \<Rightarrow> int_pc \<Rightarrow> interrupt \<Rightarrow> int_pc \<Rightarrow> bool" where
  skip: "raise_act s (R_Begin e) s R_Skip"
| go: "raise_act s (R_Begin e) s (R_Load e)"
| load_initial: "i_word s AND InterruptMask = InterruptInitial \<Longrightarrow>
    raise_act s (R_Load e) (int_log [Allocated e] s) (R_CasObject e)"
| load_handler: "i_word s AND InterruptMask = InterruptHasHandler \<Longrightarrow>
    raise_act s (R_Load e) s (R_CasTerminal e (i_word s))"
| load_object: "i_word s AND InterruptMask = InterruptHasObject \<Longrightarrow> raise_act s (R_Load e) s R_End"
| load_terminal: "i_word s AND InterruptMask = InterruptTerminal \<Longrightarrow> raise_act s (R_Load e) s R_End"
| store: "i_word s = 0 \<Longrightarrow>
    raise_act s (R_CasObject e) (s\<lparr>i_word := e OR InterruptHasObject\<rparr>) R_End"
| lost_object: "i_word s \<noteq> 0 \<Longrightarrow> i_word s AND InterruptHasObject \<noteq> 0 \<Longrightarrow>
    raise_act s (R_CasObject e) (int_log [Freed e] s) R_End"
| lost_handler: "i_word s \<noteq> 0 \<Longrightarrow> i_word s AND InterruptHasObject = 0 \<Longrightarrow>
    raise_act s (R_CasObject e) (int_log [Freed e] s)
      (if i_word s AND InterruptHasHandler \<noteq> 0 then R_CasTerminal e (i_word s) else Int_Terminated)"
| take: "i_word s = w \<Longrightarrow>
    raise_act s (R_CasTerminal e w) (s\<lparr>i_word := (w AND NOT InterruptMask) OR InterruptTerminal\<rparr>)
      (R_Handle (w AND NOT InterruptMask) e)"
| lost_take: "i_word s \<noteq> w \<Longrightarrow> raise_act s (R_CasTerminal e w) s R_End"
| handle: "raise_act s (R_Handle h e) (int_log [Handled h e] s) R_End"

inductive setInterruptHandler_act :: "interrupt \<Rightarrow> int_pc \<Rightarrow> interrupt \<Rightarrow> int_pc \<Rightarrow> bool" where
  skip: "setInterruptHandler_act s (S_Begin h) s S_Skip"
| go: "setInterruptHandler_act s (S_Begin h) s (S_Load h)"
| load_initial: "i_word s AND InterruptMask = InterruptInitial \<Longrightarrow>
    setInterruptHandler_act s (S_Load h) (int_log [Allocated h] s) (S_CasHandler h)"
| load_object: "i_word s AND InterruptMask = InterruptHasObject \<Longrightarrow>
    setInterruptHandler_act s (S_Load h) s (S_CasTerminal h False (i_word s))"
| load_duplicate: "i_word s AND InterruptMask = InterruptHasHandler \<Longrightarrow>
    setInterruptHandler_act s (S_Load h) s Int_Terminated"
| load_done: "i_word s AND InterruptMask = InterruptTerminal \<Longrightarrow>
    setInterruptHandler_act s (S_Load h) s Int_Terminated"
| store: "i_word s = 0 \<Longrightarrow>
    setInterruptHandler_act s (S_CasHandler h) (s\<lparr>i_word := h OR InterruptHasHandler\<rparr>) S_End"
| lost: "i_word s \<noteq> 0 \<Longrightarrow>
    setInterruptHandler_act s (S_CasHandler h) s
      (if i_word s AND InterruptHasHandler \<noteq> 0 then Int_Terminated
       else if i_word s AND InterruptHasObject \<noteq> 0 then S_CasTerminal h True (i_word s)
       else Int_Terminated)"
| take: "i_word s = w \<Longrightarrow>
    setInterruptHandler_act s (S_CasTerminal h copied w) (s\<lparr>i_word := InterruptTerminal\<rparr>)
      (S_Handle h copied (w AND NOT InterruptMask))"
| lost_take: "i_word s \<noteq> w \<Longrightarrow> setInterruptHandler_act s (S_CasTerminal h copied w) s Int_Terminated"
| handle: "setInterruptHandler_act s (S_Handle h copied e)
    (int_log ([Handled h e] @ (if copied then [Freed h] else []) @ [Freed e]) s) S_End"

inductive int_act :: "interrupt \<Rightarrow> int_pc \<Rightarrow> interrupt \<Rightarrow> int_pc \<Rightarrow> bool" where
  "raise_act s p s' p' \<Longrightarrow> int_act s p s' p'"
| "setInterruptHandler_act s p s' p' \<Longrightarrow> int_act s p s' p'"

text \<open>
  The part of \<open>~CoreBase\<close> on a core whose handler is not shared, and copying the handler into a new
  core: the new word, and the handler whose count goes up.
\<close>

definition interrupt_destroy :: "interrupt \<Rightarrow> interrupt" where
  "interrupt_destroy s =
     (let pointer = i_word s AND NOT InterruptMask; state = i_word s AND InterruptMask
      in if state = InterruptHasHandler \<or> state = InterruptHasObject \<or>
            (state = InterruptTerminal \<and> pointer \<noteq> 0)
         then int_log [Freed pointer] s else s)"

definition initCopyInterruptHandlerFrom :: "u64 \<Rightarrow> u64 \<Rightarrow> u64 \<times> u64 option" where
  "initCopyInterruptHandlerFrom self other =
     (let pointer = other AND NOT InterruptMask; state = other AND InterruptMask
      in if state = InterruptHasHandler \<or> (state = InterruptTerminal \<and> pointer \<noteq> 0)
         then (pointer OR InterruptHasHandler, Some pointer) else (self, None))"

section \<open>Tagged addresses\<close>

lemmas interrupt_tags = InterruptMask_def InterruptInitial_def InterruptHasHandler_def
  InterruptHasObject_def InterruptTerminal_def

definition address :: "u64 \<Rightarrow> bool" where
  "address p \<longleftrightarrow> p AND InterruptMask = 0 \<and> p \<noteq> 0"

lemma tags_distinct [simp]:
  "InterruptHasHandler \<noteq> 0" "InterruptHasObject \<noteq> 0" "InterruptTerminal \<noteq> 0" "InterruptInitial = 0"
  "InterruptHasHandler \<noteq> InterruptHasObject" "InterruptHasHandler \<noteq> InterruptTerminal"
  "InterruptHasObject \<noteq> InterruptTerminal" "InterruptHasObject \<noteq> InterruptHasHandler"
  "InterruptTerminal \<noteq> InterruptHasHandler" "InterruptTerminal \<noteq> InterruptHasObject"
  "InterruptTerminal AND InterruptMask = InterruptTerminal"
  "InterruptTerminal AND InterruptHasHandler = InterruptHasHandler"
  "InterruptTerminal AND InterruptHasObject = InterruptHasObject"
  "InterruptTerminal AND NOT InterruptMask = 0"
  by (simp_all add: interrupt_tags)

lemma tag_of [simp]:
  assumes "address p"
  shows "(p OR InterruptHasHandler) AND InterruptMask = InterruptHasHandler"
    "(p OR InterruptHasObject) AND InterruptMask = InterruptHasObject"
    "(p OR InterruptTerminal) AND InterruptMask = InterruptTerminal"
    "(p OR InterruptHasHandler) AND InterruptHasObject = 0"
    "(p OR InterruptHasHandler) AND InterruptHasHandler = InterruptHasHandler"
    "(p OR InterruptHasObject) AND InterruptHasHandler = 0"
    "(p OR InterruptHasObject) AND InterruptHasObject = InterruptHasObject"
    "(p OR InterruptTerminal) AND InterruptHasObject = InterruptHasObject"
    "(p OR InterruptTerminal) AND InterruptHasHandler = InterruptHasHandler"
proof -
  have p: "p AND 3 = 0" using assms by (simp add: address_def interrupt_tags)
  have "p AND 2 = (p AND 3) AND 2" "p AND 1 = (p AND 3) AND 1" by (simp_all add: and.assoc)
  then have "p AND 2 = 0" "p AND 1 = 0" using p by simp_all
  with p show "(p OR InterruptHasHandler) AND InterruptMask = InterruptHasHandler"
    "(p OR InterruptHasObject) AND InterruptMask = InterruptHasObject"
    "(p OR InterruptTerminal) AND InterruptMask = InterruptTerminal"
    "(p OR InterruptHasHandler) AND InterruptHasObject = 0"
    "(p OR InterruptHasHandler) AND InterruptHasHandler = InterruptHasHandler"
    "(p OR InterruptHasObject) AND InterruptHasHandler = 0"
    "(p OR InterruptHasObject) AND InterruptHasObject = InterruptHasObject"
    "(p OR InterruptTerminal) AND InterruptHasObject = InterruptHasObject"
    "(p OR InterruptTerminal) AND InterruptHasHandler = InterruptHasHandler"
    unfolding interrupt_tags by (simp_all add: bit.conj_disj_distrib2)
qed

lemma pointer_of [simp]:
  assumes "address p"
  shows "(p OR InterruptHasHandler) AND NOT InterruptMask = p"
    "(p OR InterruptHasObject) AND NOT InterruptMask = p"
    "(p OR InterruptTerminal) AND NOT InterruptMask = p"
proof -
  have "p AND 3 = 0" using assms by (simp add: address_def interrupt_tags)
  moreover have "p = (p AND 3) OR (p AND NOT 3)"
    by (simp add: bit_eq_iff bit_simps) blast
  ultimately have "p AND NOT 3 = p" by simp
  then show "(p OR InterruptHasHandler) AND NOT InterruptMask = p"
    "(p OR InterruptHasObject) AND NOT InterruptMask = p"
    "(p OR InterruptTerminal) AND NOT InterruptMask = p"
    unfolding interrupt_tags by (simp_all add: bit.conj_disj_distrib2)
qed

lemma address_or [simp]:
  assumes "address p"
  shows "p OR InterruptHasHandler \<noteq> 0" "p OR InterruptHasObject \<noteq> 0" "p OR InterruptTerminal \<noteq> 0"
    "p OR InterruptHasHandler \<noteq> p OR InterruptTerminal" "p OR InterruptHasHandler \<noteq> InterruptTerminal"
proof -
  have n: "x AND InterruptMask \<noteq> y AND InterruptMask \<Longrightarrow> x \<noteq> y" for x y by auto
  show "p OR InterruptHasHandler \<noteq> 0" "p OR InterruptHasObject \<noteq> 0" "p OR InterruptTerminal \<noteq> 0"
    "p OR InterruptHasHandler \<noteq> p OR InterruptTerminal" "p OR InterruptHasHandler \<noteq> InterruptTerminal"
    by (rule n, simp add: assms)+
qed

section \<open>Invariant\<close>

text \<open>
  For a handler \<open>h\<close> and exceptions \<open>E\<close>: what the word can be, what each thread knows, that a setter
  which is not done keeps the word from having a handler, that the terminal state stands for
  one call of the handler, made or about to be made, and that every copy on the heap has one owner.
\<close>

definition word_ok :: "u64 \<Rightarrow> u64 set \<Rightarrow> u64 \<Rightarrow> bool" where
  "word_ok h E w \<longleftrightarrow> w = 0 \<or> w = h OR InterruptHasHandler \<or> (\<exists>e \<in> E. w = e OR InterruptHasObject) \<or> w = InterruptTerminal \<or> w = h OR InterruptTerminal"

fun setting :: "int_pc \<Rightarrow> nat" where
  "setting (S_Begin h) = 1" | "setting (S_Load h) = 1" | "setting (S_CasHandler h) = 1"
| "setting (S_CasTerminal h c w) = 1" | "setting _ = 0"

fun handling :: "int_pc \<Rightarrow> nat" where
  "handling (R_Handle h e) = 1" | "handling (S_Handle h c e) = 1" | "handling _ = 0"

fun owns :: "u64 \<Rightarrow> int_pc \<Rightarrow> nat" where
  "owns a (R_CasObject e) = of_bool (e = a)"
| "owns a (S_CasHandler h) = of_bool (h = a)"
| "owns a (S_CasTerminal h c w) = of_bool (c \<and> h = a)"
| "owns a (S_Handle h c e) = of_bool (c \<and> h = a) + of_bool (e = a)"
| "owns a _ = 0"

fun int_knows :: "u64 \<Rightarrow> u64 set \<Rightarrow> u64 \<Rightarrow> int_pc \<Rightarrow> bool" where
  "int_knows h E w (R_Begin e) = (e \<in> E)"
| "int_knows h E w (R_Load e) = (e \<in> E)"
| "int_knows h E w (R_CasObject e) = (e \<in> E)"
| "int_knows h E w (R_CasTerminal e w') = (e \<in> E \<and> w' = h OR InterruptHasHandler \<and> w \<in> {h OR InterruptHasHandler, h OR InterruptTerminal})"
| "int_knows h E w (R_Handle h' e) = (e \<in> E \<and> h' = h \<and> w = h OR InterruptTerminal)"
| "int_knows h E w R_End = (w AND InterruptHasObject \<noteq> 0)"
| "int_knows h E w (S_Begin h') = (h' = h)"
| "int_knows h E w (S_Load h') = (h' = h)"
| "int_knows h E w (S_CasHandler h') = (h' = h)"
| "int_knows h E w (S_CasTerminal h' c w') = (h' = h \<and> w' = w \<and> w AND InterruptMask = InterruptHasObject)"
| "int_knows h E w (S_Handle h' c e) = (h' = h \<and> e \<in> E \<and> w = InterruptTerminal)"
| "int_knows h E w S_End = (w AND InterruptHasHandler \<noteq> 0)"
| "int_knows h E w Int_Terminated = False"
| "int_knows h E w _ = True"

fun is_handled :: "int_event \<Rightarrow> bool" where
  "is_handled (Handled h e) = True" | "is_handled _ = False"

abbreviation times :: "int_event \<Rightarrow> interrupt \<Rightarrow> nat" where
  "times ev s \<equiv> count_list (i_log s) ev"

definition int_inv :: "u64 \<Rightarrow> u64 set \<Rightarrow> interrupt \<Rightarrow> int_pc multiset \<Rightarrow> bool" where
  "int_inv h E s M \<longleftrightarrow>
     word_ok h E (i_word s) \<and>
     total setting M \<le> of_bool (i_word s AND InterruptHasHandler = 0) \<and>
     total handling M + length (filter is_handled (i_log s)) = of_bool (i_word s AND InterruptMask = InterruptTerminal) \<and>
     (\<forall>p \<in># M. int_knows h E (i_word s) p) \<and>
     (\<forall>a. a \<noteq> 0 \<longrightarrow> times (Allocated a) s =
        times (Freed a) s + total (owns a) M + of_bool (i_word s AND NOT InterruptMask = a)) \<and>
     (\<forall>h' e. Handled h' e \<in> set (i_log s) \<longrightarrow> h' = h \<and> e \<in> E)"


section \<open>The invariant is kept\<close>

lemma int_log_inv:
  assumes inv: "int_inv h E s (add_mset p M)"
    and "setting p' \<le> setting p" and "handling p' + length (filter is_handled es) = handling p"
    and "int_knows h E (i_word s) p'" and "\<forall>h' e. Handled h' e \<in> set es \<longrightarrow> h' = h \<and> e \<in> E"
    and owner: "\<And>a. a \<noteq> 0 \<Longrightarrow> count_list es (Allocated a) + owns a p = count_list es (Freed a) + owns a p'"
  shows "int_inv h E (int_log es s) (add_mset p' M)"
proof -
  note old = inv [unfolded int_inv_def total_simps]
  have "times (Allocated a) (int_log es s) =
      times (Freed a) (int_log es s) + (owns a p' + total (owns a) M) + of_bool (i_word s AND NOT InterruptMask = a)"
    if "a \<noteq> 0" for a
    using old owner [OF that] that by (simp add: int_log_def count_list_append)
  moreover have "setting p' + total setting M \<le> of_bool (i_word s AND InterruptHasHandler = 0)"
    using old assms(2) by (elim conjE) linarith
  moreover have "handling p' + total handling M + length (filter is_handled (i_log (int_log es s))) =
      of_bool (i_word s AND InterruptMask = InterruptTerminal)"
    using old assms(3) by (simp add: int_log_def)
  moreover have "i_word (int_log es s) = i_word s" "set (i_log (int_log es s)) = set (i_log s) \<union> set es"
    by (simp_all add: int_log_def)
  ultimately show ?thesis
    using old assms(4,5) unfolding int_inv_def total_simps by simp
qed

lemma int_log_nil: "int_log [] s = s"
  by (simp add: int_log_def)

lemmas int_move_inv = int_log_inv [where es = "[]", unfolded int_log_nil]

lemma int_inv_knows:
  "int_inv h E s (add_mset p M) \<Longrightarrow> int_knows h E (i_word s) p"
  "int_inv h E s M \<Longrightarrow> q \<in># M \<Longrightarrow> int_knows h E (i_word s) q"
  "int_inv h E s M \<Longrightarrow> word_ok h E (i_word s)"
  by (simp_all add: int_inv_def)

lemma word_cases:
  assumes "word_ok h E w" and "address h" and "\<forall>e \<in> E. address e"
  obtains (initial) "w = 0" "w AND InterruptMask = 0"
  | (handler) "w = h OR InterruptHasHandler"
  | (object) e where "e \<in> E" "address e" "w = e OR InterruptHasObject"
  | (terminal) "w = InterruptTerminal \<or> w = h OR InterruptTerminal"
      "w AND InterruptMask = InterruptTerminal" "w AND InterruptHasObject = InterruptHasObject"
      "w AND InterruptHasHandler = InterruptHasHandler"
proof -
  consider "w = 0" | "w = h OR InterruptHasHandler" | e where "e \<in> E" "w = e OR InterruptHasObject"
    | "w = InterruptTerminal" | "w = h OR InterruptTerminal"
    using assms(1) unfolding word_ok_def by blast
  then show ?thesis
    by cases (use assms(2,3) that in simp_all)
qed

text \<open>Winning a compare-exchange.\<close>

lemma int_cas_inv:
  assumes inv: "int_inv h E s (add_mset p M)" and "word_ok h E w"
    and "\<forall>q \<in># M. int_knows h E w q" and "int_knows h E w p'"
    and "setting p' + total setting M \<le> of_bool (w AND InterruptHasHandler = 0)"
    and "handling p' + total handling M + length (filter is_handled (i_log s)) =
      of_bool (w AND InterruptMask = InterruptTerminal)"
    and owner: "\<And>a. a \<noteq> 0 \<Longrightarrow> owns a p + of_bool (i_word s AND NOT InterruptMask = a) =
      owns a p' + of_bool (w AND NOT InterruptMask = a)"
  shows "int_inv h E (s\<lparr>i_word := w\<rparr>) (add_mset p' M)"
proof -
  note old = inv [unfolded int_inv_def total_simps]
  have "times (Allocated a) s =
      times (Freed a) s + (owns a p' + total (owns a) M) + of_bool (w AND NOT InterruptMask = a)"
    if "a \<noteq> 0" for a
    using old owner [OF that] that by (elim conjE) (drule spec [of _ a], linarith)
  then show ?thesis
    using old assms(2-6) unfolding int_inv_def total_simps by simp
qed

lemma int_knows_initial: "int_knows h E 0 q \<Longrightarrow> address h \<Longrightarrow> int_knows h E w q"
  by (cases q) (auto simp: address_or [THEN not_sym])

lemma int_knows_handler:
  assumes "int_knows h E (h OR InterruptHasHandler) q" and "address h"
  shows "int_knows h E (h OR InterruptTerminal) q"
  using assms by (cases q) (auto simp: address_or [THEN not_sym])

lemma int_knows_object:
  assumes "int_knows h E (e OR InterruptHasObject) q" and "address h" "address e" and "setting q = 0"
  shows "int_knows h E InterruptTerminal q"
proof -
  have n: "x AND InterruptMask \<noteq> y AND InterruptMask \<Longrightarrow> x \<noteq> y" for x y by auto
  have "e OR InterruptHasObject \<noteq> h OR InterruptHasHandler" "e OR InterruptHasObject \<noteq> h OR InterruptTerminal"
    "e OR InterruptHasObject \<noteq> InterruptTerminal"
    by (rule n, simp add: assms)+
  then show ?thesis using assms by (cases q) auto
qed

lemma raise_inv:
  assumes inv: "int_inv h E s (add_mset p M)" and h: "address h" and E: "\<forall>e \<in> E. address e"
    and "raise_act s p s' p'"
  shows "int_inv h E s' (add_mset p' M)"
proof -
  note k = int_inv_knows(1) [OF inv]
  have w: "word_ok h E (i_word s)" using int_inv_knows(3) [OF inv] .
  show ?thesis
    using assms(4)
  proof cases
    case (load_initial e)
    then show ?thesis using int_log_inv [OF inv, of "R_CasObject e" "[Allocated e]"] k by simp
  next
    case (load_handler e)
    from w h E have "i_word s = h OR InterruptHasHandler"
      by (cases rule: word_cases) (use load_handler in simp_all)
    then show ?thesis
      using int_move_inv [OF inv, of p'] load_handler k by simp
  next
    case (load_object e)
    from w h E have "i_word s AND InterruptHasObject \<noteq> 0"
      by (cases rule: word_cases) (use load_object h in simp_all)
    then show ?thesis using int_move_inv [OF inv, of p'] load_object by simp
  next
    case (load_terminal e)
    from w h E have "i_word s AND InterruptHasObject \<noteq> 0"
      by (cases rule: word_cases) (use load_terminal h in simp_all)
    then show ?thesis using int_move_inv [OF inv, of p'] load_terminal by simp
  next
    case (lost_object e)
    then show ?thesis using int_log_inv [OF inv, of R_End "[Freed e]"] k by simp
  next
    case (lost_handler e)
    from w h E have "i_word s = h OR InterruptHasHandler"
      by (cases rule: word_cases) (use lost_handler in simp_all)
    then show ?thesis
      using int_log_inv [OF inv, of p' "[Freed e]"] lost_handler k h by simp
  next
    case (lost_take w e)
    then show ?thesis using int_move_inv [OF inv, of R_End] k h by auto
  next
    case (handle g e)
    then show ?thesis using int_log_inv [OF inv, of R_End "[Handled g e]"] k h by simp
  next
    case (store e)
    then have "address e" "e \<in> E" using k E by simp_all
    moreover have "total setting M \<le> 1" "total handling M = 0" "filter is_handled (i_log s) = []"
      using inv store by (simp_all add: int_inv_def)
    moreover have "\<forall>q \<in># M. int_knows h E (e OR InterruptHasObject) q"
      using inv store h by (auto simp: int_inv_def intro: int_knows_initial)
    ultimately show ?thesis
      using int_cas_inv [OF inv, of "e OR InterruptHasObject" R_End] store
      by (auto simp: word_ok_def)
  next
    case (take w e)
    then have st: "i_word s = h OR InterruptHasHandler" "e \<in> E" using k h by auto
    then have "total setting M = 0" "total handling M = 0" "filter is_handled (i_log s) = []"
      using inv take h by (simp_all add: int_inv_def)
    moreover have "\<forall>q \<in># M. int_knows h E (h OR InterruptTerminal) q"
      using inv st h by (auto simp: int_inv_def intro: int_knows_handler)
    ultimately show ?thesis
      using int_cas_inv [OF inv, of "h OR InterruptTerminal" "R_Handle h e"] take st h
      by (auto simp: word_ok_def)
  qed (use int_move_inv [OF inv, of p'] k in simp_all)
qed

lemma setInterruptHandler_inv:
  assumes inv: "int_inv h E s (add_mset p M)" and h: "address h" and E: "\<forall>e \<in> E. address e"
    and "setInterruptHandler_act s p s' p'"
  shows "int_inv h E s' (add_mset p' M)"
proof -
  note k = int_inv_knows(1) [OF inv]
  have w: "word_ok h E (i_word s)" using int_inv_knows(3) [OF inv] .
  have unset: "i_word s AND InterruptHasHandler = 0" if "setting p = 1"
    using inv that by (cases "i_word s AND InterruptHasHandler = 0") (simp_all add: int_inv_def)
  show ?thesis
    using assms(4)
  proof cases
    case (load_initial g)
    then show ?thesis using int_log_inv [OF inv, of "S_CasHandler g" "[Allocated g]"] k by simp
  next
    case (load_duplicate g)
    from w h E have False by (cases rule: word_cases) (use load_duplicate unset h in simp_all)
    then show ?thesis ..
  next
    case (load_done g)
    from w h E have False by (cases rule: word_cases) (use load_done unset h in simp_all)
    then show ?thesis ..
  next
    case (lost g)
    from w h E have "i_word s AND InterruptMask = InterruptHasObject \<and> i_word s AND InterruptHasObject \<noteq> 0"
      by (cases rule: word_cases) (use lost unset h in simp_all)
    then show ?thesis using int_move_inv [OF inv, of p'] lost k unset by simp
  next
    case (lost_take w g copied)
    then show ?thesis using k by simp
  next
    case (handle g copied e)
    then show ?thesis
      using int_log_inv [OF inv, of S_End "[Handled g e] @ (if copied then [Freed g] else []) @ [Freed e]"] k
      by (cases copied) simp_all
  next
    case (store g)
    then have g: "g = h" using k by simp
    have "total setting M = 0" "total handling M = 0" "filter is_handled (i_log s) = []"
      using inv store by (simp_all add: int_inv_def)
    moreover have "\<forall>q \<in># M. int_knows h E (h OR InterruptHasHandler) q"
      using inv store h by (auto simp: int_inv_def intro: int_knows_initial)
    ultimately show ?thesis
      using int_cas_inv [OF inv, of "h OR InterruptHasHandler" S_End] store g h
      by (auto simp: word_ok_def)
  next
    case (take w g copied)
    then have g: "g = h" using k by simp
    from w h E obtain e where e: "e \<in> E" "address e" "i_word s = e OR InterruptHasObject"
      by (cases rule: word_cases) (use take k h in simp_all)
    have none: "total setting M = 0" "total handling M = 0" "filter is_handled (i_log s) = []"
      using inv take(1) e by (simp_all add: int_inv_def)
    moreover have "\<forall>q \<in># M. int_knows h E InterruptTerminal q"
      using inv e h total_zeroD [OF none(1)] by (auto simp: int_inv_def intro: int_knows_object [of h E e])
    ultimately show ?thesis
      using int_cas_inv [OF inv, of InterruptTerminal "S_Handle h copied e"] take e g h
      by (auto simp: word_ok_def)
  qed (use int_move_inv [OF inv, of p'] k in simp_all)
qed

section \<open>Reaching the end\<close>

fun int_left :: "int_pc \<Rightarrow> nat" where
  "int_left (R_Begin e) = 5" | "int_left (R_Load e) = 4" | "int_left (R_CasObject e) = 3"
| "int_left (R_CasTerminal e w) = 2" | "int_left (R_Handle h e) = 1"
| "int_left (S_Begin h) = 5" | "int_left (S_Load h) = 4" | "int_left (S_CasHandler h) = 3"
| "int_left (S_CasTerminal h c w) = 2" | "int_left (S_Handle h c e) = 1"
| "int_left _ = 0"

definition int_safe :: "u64 \<Rightarrow> u64 set \<Rightarrow> interrupt \<Rightarrow> int_pc multiset \<Rightarrow> bool" where
  "int_safe h E s M \<longleftrightarrow> address h \<and> (\<forall>e \<in> E. address e) \<and> int_inv h E s M"

lemma int_enabled:
  assumes "word_ok h E (i_word s)" and "address h" and "\<forall>e \<in> E. address e" and "0 < int_left p"
  shows "\<exists>s' p'. int_act s p s' p' \<and> int_left p' < int_left p"
proof -
  have tag: "i_word s AND InterruptMask \<in>
      {InterruptInitial, InterruptHasHandler, InterruptHasObject, InterruptTerminal}"
    using assms(1-3) by (cases rule: word_cases) (use assms(2) in simp_all)
  note R = int_act.intros(1) and S = int_act.intros(2)
  have pick: "int_act s q s' p' \<Longrightarrow> q = p \<Longrightarrow> int_left p' < int_left q \<Longrightarrow> ?thesis" for q s' p' by blast
  show ?thesis
  proof (cases p)
    case (R_Begin e) then show ?thesis by (intro pick [OF R [OF raise_act.skip]]) simp_all
  next
    case (S_Begin g) then show ?thesis by (intro pick [OF S [OF setInterruptHandler_act.skip]]) simp_all
  next
    case (R_Handle g e) then show ?thesis by (intro pick [OF R [OF raise_act.handle]]) simp_all
  next
    case (S_Handle g c e)
    then show ?thesis by (intro pick [OF S [OF setInterruptHandler_act.handle]]) simp_all
  next
    case (R_Load e)
    show ?thesis
      by (insert tag, elim insertE emptyE;
          (rule raise_act.intros(3-6) [THEN R, THEN pick], (assumption | simp add: R_Load)+)[1])
  next
    case (S_Load g)
    show ?thesis
      by (insert tag, elim insertE emptyE;
          (rule setInterruptHandler_act.intros(3-6) [THEN S, THEN pick], (assumption | simp add: S_Load)+)[1])
  next
    case (R_CasObject e)
    consider "i_word s = 0" | "i_word s \<noteq> 0" "i_word s AND InterruptHasObject \<noteq> 0"
      | "i_word s \<noteq> 0" "i_word s AND InterruptHasObject = 0" by blast
    then show ?thesis
      by cases
        ((rule raise_act.intros(7-9) [THEN R, THEN pick], (assumption | simp add: R_CasObject)+)[1])+
  next
    case (S_CasHandler g)
    consider "i_word s = 0" | "i_word s \<noteq> 0" by blast
    then show ?thesis
      by cases
        ((rule setInterruptHandler_act.intros(7-8) [THEN S, THEN pick], (assumption | simp add: S_CasHandler)+)[1])+
  next
    case (R_CasTerminal e w)
    show ?thesis
      by (cases "i_word s = w";
          (rule raise_act.intros(10-11) [THEN R, THEN pick], (assumption | simp add: R_CasTerminal)+)[1])
  next
    case (S_CasTerminal g c w)
    show ?thesis
      by (cases "i_word s = w";
          (rule setInterruptHandler_act.intros(9-10) [THEN S, THEN pick], (assumption | simp add: S_CasTerminal)+)[1])
  qed (use assms(4) in simp_all)
qed

interpretation interrupts: draining_pool int_act "int_safe h E" int_left for h E
proof
  show "int_safe h E s' (add_mset p' M)" if "int_safe h E s (add_mset p M)" "int_act s p s' p'" for s p M s' p'
    using that by (auto simp: int_safe_def elim!: int_act.cases intro: raise_inv setInterruptHandler_inv)
  show "\<exists>p N s' p'. M = add_mset p N \<and> int_act s p s' p' \<and> int_left p' < int_left p"
    if safe: "int_safe h E s M" and q: "q \<in># M" "0 < int_left q" for s M q
  proof -
    obtain N where "M = add_mset q N" using q(1) by (meson multi_member_split)
    moreover obtain s' p' where "int_act s q s' p'" "int_left p' < int_left q"
      using int_enabled [of h E s q] safe q(2) int_inv_knows(3) by (auto simp: int_safe_def)
    ultimately show ?thesis by blast
  qed
qed

section \<open>Interrupts\<close>

definition int_threads :: "u64 \<Rightarrow> u64 multiset \<Rightarrow> int_pc multiset" where
  "int_threads h es = add_mset (S_Begin h) (image_mset R_Begin es)"

lemma int_safe_init:
  assumes "address h" and "\<forall>e \<in># es. address e"
  shows "int_safe h (set_mset es) interrupt_init (int_threads h es)"
proof -
  have "total setting (image_mset R_Begin es) = 0" "total handling (image_mset R_Begin es) = 0"
    "total (owns a) (image_mset R_Begin es) = 0" for a
    by (induction es) simp_all
  then show ?thesis
    using assms by (auto simp: int_safe_def int_inv_def int_threads_def interrupt_init_def word_ok_def)
qed

definition at_rest :: "int_pc multiset \<Rightarrow> bool" where
  "at_rest M \<longleftrightarrow> set_mset M \<subseteq> {R_End, R_Skip, S_End, S_Skip}"

lemma int_rest_totals:
  assumes "at_rest M"
  shows "total handling M = 0" "total (owns a) M = 0"
  using assms by (induction M) (auto simp: at_rest_def)

lemma int_safe_rest:
  assumes safe: "int_safe h E s M" and rest: "at_rest M"
  shows "S_End \<in># M \<Longrightarrow> R_End \<in># M \<Longrightarrow> length (filter is_handled (i_log s)) = 1"
    and "a \<noteq> 0 \<Longrightarrow> times (Allocated a) s = times (Freed a) (interrupt_destroy s)"
proof -
  have inv: "int_inv h E s M" and h: "address h" and E: "\<forall>e \<in> E. address e"
    using safe by (simp_all add: int_safe_def)
  have w: "word_ok h E (i_word s)" using int_inv_knows(3) [OF inv] .
  show "length (filter is_handled (i_log s)) = 1" if m: "S_End \<in># M" "R_End \<in># M"
  proof -
    have "i_word s AND InterruptHasHandler \<noteq> 0" "i_word s AND InterruptHasObject \<noteq> 0"
      using int_inv_knows(2) [OF inv] m by fastforce+
    with w h E have "i_word s AND InterruptMask = InterruptTerminal"
      by (cases rule: word_cases) (use h in simp_all)
    then show ?thesis using inv int_rest_totals(1) [OF rest] by (simp add: int_inv_def)
  qed
  show "times (Allocated a) s = times (Freed a) (interrupt_destroy s)" if "a \<noteq> 0"
  proof -
    have t: "times (Allocated a) s = times (Freed a) s + of_bool (i_word s AND NOT InterruptMask = a)"
      using inv int_rest_totals(2) [OF rest, of a] that by (simp add: int_inv_def)
    from w h E show ?thesis
      by (cases rule: word_cases)
        (use t h that in \<open>auto simp: interrupt_destroy_def int_log_def count_list_append\<close>)
  qed
qed

text \<open>
  C16. One \<open>setInterruptHandler\<close> and any number of concurrent calls of \<open>raise\<close>: none of them terminates;
  the handler is called at most once, with one of the raised exceptions; the calls can always
  finish, and when they have, the handler was called if both it and an exception got in before the
  result, and destroying the core leaves every copy of an exception or a handler deleted exactly as
  often as it was made.
\<close>

theorem interrupt_delivered_once:
  assumes "address h" and "\<forall>e \<in># es. address e"
    and "pool_reach int_act (interrupt_init, int_threads h es) (s, M)"
  shows "Int_Terminated \<notin># M \<and> length (filter is_handled (i_log s)) \<le> 1 \<and>
    (\<forall>h' e. Handled h' e \<in> set (i_log s) \<longrightarrow> h' = h \<and> e \<in># es) \<and>
    (\<exists>s' N. pool_reach int_act (s, M) (s', N) \<and> at_rest N) \<and>
    (at_rest M \<longrightarrow>
      (S_End \<in># M \<and> R_End \<in># M \<longrightarrow> length (filter is_handled (i_log s)) = 1) \<and>
      (\<forall>a. a \<noteq> 0 \<longrightarrow> times (Allocated a) s = times (Freed a) (interrupt_destroy s)))"
proof -
  have safe: "int_safe h (set_mset es) s M"
    using interrupts.reach_inv [OF assms(3)] int_safe_init [OF assms(1,2)] by simp
  then have inv: "int_inv h (set_mset es) s M" by (simp add: int_safe_def)
  have no: "Int_Terminated \<notin># N" if "int_safe h (set_mset es) s' N" for s' N
    using that int_inv_knows(2) by (fastforce simp: int_safe_def)
  have "at_rest N" if "int_safe h (set_mset es) s' N" "\<forall>p \<in># N. int_left p = 0" for s' N
  proof -
    have "p \<in> {R_End, R_Skip, S_End, S_Skip}" if "p \<in># N" for p
      using \<open>\<forall>p \<in># N. int_left p = 0\<close> no [OF \<open>int_safe h (set_mset es) s' N\<close>] that by (cases p) auto
    then show ?thesis by (auto simp: at_rest_def)
  qed
  then have "\<exists>s' N. pool_reach int_act (s, M) (s', N) \<and> at_rest N"
    using interrupts.quiesce [OF safe] by meson
  moreover have "length (filter is_handled (i_log s)) \<le> 1"
    using inv by (cases "i_word s AND InterruptMask = InterruptTerminal") (simp_all add: int_inv_def)
  moreover have "\<forall>h' e. Handled h' e \<in> set (i_log s) \<longrightarrow> h' = h \<and> e \<in># es"
    using inv by (simp add: int_inv_def)
  ultimately show ?thesis
    using no [OF safe] int_safe_rest [OF safe] by blast
qed

theorem interrupt_delivered_once_witness:
  "address 8 \<and> address 16 \<and>
    (\<exists>s' N. pool_reach int_act (interrupt_init, int_threads 8 {#16, 24#}) (s', N) \<and> at_rest N)"
proof -
  have a: "address 8" "\<forall>e \<in># {#16, 24#}. address e" by (simp_all add: address_def interrupt_tags)
  show ?thesis
    using interrupt_delivered_once [OF a, of interrupt_init "int_threads 8 {#16, 24#}"] a
    by (simp add: pool_reach_def)
qed

text \<open>A copied core gets the handler of the other one, called already or not, and counts as an owner.\<close>

lemma initCopy_handler:
  assumes "word_ok h E w" and "address h" and "\<forall>e \<in> E. address e"
  shows "initCopyInterruptHandlerFrom 0 w =
    (if w \<in> {h OR InterruptHasHandler, h OR InterruptTerminal}
     then (h OR InterruptHasHandler, Some h) else (0, None))"
proof -
  have n: "x AND InterruptMask \<noteq> y AND InterruptMask \<Longrightarrow> x \<noteq> y" for x y by auto
  have h: "InterruptTerminal \<noteq> h OR InterruptTerminal" "h \<noteq> 0"
    using pointer_of(3) [OF assms(2)] tags_distinct(14) assms(2) unfolding address_def by metis+
  have obj: "e OR InterruptHasObject \<noteq> h OR InterruptHasHandler"
    "e OR InterruptHasObject \<noteq> h OR InterruptTerminal" if "address e" for e
    by (rule n, simp add: that assms(2))+
  from assms(1-3) show ?thesis
    by (cases rule: word_cases)
      (use h obj assms(2) address_or [OF assms(2), THEN not_sym] in
        \<open>auto simp: initCopyInterruptHandlerFrom_def Let_def\<close>)
qed

end
