(* ===== verification/DeferredExecutor.thy ===== *)
theory DeferredExecutor
  imports Thread_Pool Folly_Prelude
begin

text \<open>
  \<open>DeferredExecutor\<close> of \<open>folly/futures/detail/Core.h\<close> and \<open>Core.cpp\<close>: the executor of a
  \<open>SemiFuture\<close>, which keeps a function until a real executor is chosen or the future is dropped.
  \<open>addFrom\<close> runs in the producer and \<open>setExecutor\<close> or \<open>detach\<close> in the consumer; each is a sequence of
  atomic accesses. Executors are numbers and \<open>None\<close> is a null \<open>KeepAlive\<close>. The log tells what
  became of the function.
\<close>

section \<open>State\<close>

datatype DState = EMPTY | HAS_FUNCTION | HAS_EXECUTOR | DETACHED

text \<open>
  \<open>RunInline e unsafe\<close>: the function was called at once, with \<open>unsafe\<close> if \<open>setExecutor\<close> was asked to.
\<close>

datatype def_event = RunInline "nat option" bool | AddedTo "nat option" | Dropped

record deferred =
  d_state :: DState
  d_func :: bool
  d_executor :: "nat option"
  d_log :: "def_event list"

definition DeferredExecutor_init :: deferred where
  "DeferredExecutor_init = \<lparr>d_state = EMPTY, d_func = False, d_executor = None, d_log = []\<rparr>"

definition def_log :: "def_event \<Rightarrow> deferred \<Rightarrow> deferred" where
  "def_log e s = s\<lparr>d_log := d_log s @ [e]\<rparr>"

text \<open>What is done with a function shows only if there is one: \<open>func_\<close> may be null.\<close>

definition def_log_if :: "bool \<Rightarrow> def_event \<Rightarrow> deferred \<Rightarrow> deferred" where
  "def_log_if present e s = (if present then def_log e s else s)"

section \<open>Member functions as programs\<close>

text \<open>\<open>A_Add ka f\<close> is before \<open>addWithInline\<close>, with a function in hand if \<open>f\<close>.\<close>

datatype def_pc =
    A_Begin "nat option" | A_Cas "nat option" | A_Add "nat option" bool | A_End
  | F_Begin | X_Load bool | X_Cas bool | X_Cas2 bool | X_Run bool
  | T_Load | T_Cas | T_Cas2 | T_Drop | F_End
  | Def_Terminated

text \<open>\<open>addWithInline\<close>.\<close>

definition addWithInline :: "nat option \<Rightarrow> bool \<Rightarrow> deferred \<Rightarrow> deferred" where
  "addWithInline completingKA addFunc s =
     (if completingKA = d_executor s then def_log_if addFunc (RunInline (d_executor s) False) s
      else def_log_if addFunc (AddedTo (d_executor s)) s)"

inductive addFrom_act :: "deferred \<Rightarrow> def_pc \<Rightarrow> deferred \<Rightarrow> def_pc \<Rightarrow> bool" where
  load_detached: "d_state s = DETACHED \<Longrightarrow> addFrom_act s (A_Begin ka) (def_log Dropped s) A_End"
| load_executor: "d_state s = HAS_EXECUTOR \<Longrightarrow> addFrom_act s (A_Begin ka) s (A_Add ka True)"
| load_function: "d_state s = HAS_FUNCTION \<Longrightarrow> addFrom_act s (A_Begin ka) s Def_Terminated"
| load_empty: "d_state s = EMPTY \<Longrightarrow> addFrom_act s (A_Begin ka) (s\<lparr>d_func := True\<rparr>) (A_Cas ka)"
| store: "d_state s = EMPTY \<Longrightarrow> addFrom_act s (A_Cas ka) (s\<lparr>d_state := HAS_FUNCTION\<rparr>) A_End"
| lost_detached: "d_state s = DETACHED \<Longrightarrow>
    addFrom_act s (A_Cas ka) (def_log_if (d_func s) Dropped (s\<lparr>d_func := False\<rparr>)) A_End"
| lost_executor: "d_state s = HAS_EXECUTOR \<Longrightarrow>
    addFrom_act s (A_Cas ka) (s\<lparr>d_func := False\<rparr>) (A_Add ka (d_func s))"
| lost_function: "d_state s = HAS_FUNCTION \<Longrightarrow> addFrom_act s (A_Cas ka) s Def_Terminated"
| add: "addFrom_act s (A_Add ka f) (addWithInline ka f s) A_End"

text \<open>\<open>setExecutor\<close>, once the nested executors are done.\<close>

inductive setExecutor_act :: "deferred \<Rightarrow> def_pc \<Rightarrow> deferred \<Rightarrow> def_pc \<Rightarrow> bool" where
  store: "setExecutor_act s F_Begin (s\<lparr>d_executor := Some e\<rparr>) (X_Load inlineUnsafe)"
| load: "setExecutor_act s (X_Load u) s
    (if d_state s = EMPTY then X_Cas u else if d_state s = HAS_FUNCTION then X_Cas2 u else Def_Terminated)"
| cas: "d_state s = EMPTY \<Longrightarrow> setExecutor_act s (X_Cas u) (s\<lparr>d_state := HAS_EXECUTOR\<rparr>) F_End"
| lost: "d_state s \<noteq> EMPTY \<Longrightarrow>
    setExecutor_act s (X_Cas u) s (if d_state s = HAS_FUNCTION then X_Cas2 u else Def_Terminated)"
| cas2: "d_state s = HAS_FUNCTION \<Longrightarrow>
    setExecutor_act s (X_Cas2 u) (s\<lparr>d_state := HAS_EXECUTOR\<rparr>) (X_Run u)"
| lost2: "d_state s \<noteq> HAS_FUNCTION \<Longrightarrow> setExecutor_act s (X_Cas2 u) s Def_Terminated"
| run: "setExecutor_act s (X_Run u)
    (def_log_if (d_func s) (if u then RunInline (d_executor s) True else AddedTo (d_executor s)) (s\<lparr>d_func := False\<rparr>))
    F_End"

text \<open>\<open>detach\<close>, once the nested executors are done.\<close>

inductive detach_act :: "deferred \<Rightarrow> def_pc \<Rightarrow> deferred \<Rightarrow> def_pc \<Rightarrow> bool" where
  start: "detach_act s F_Begin s T_Load"
| load: "detach_act s T_Load s
    (if d_state s = EMPTY then T_Cas else if d_state s = HAS_FUNCTION then T_Cas2 else Def_Terminated)"
| cas: "d_state s = EMPTY \<Longrightarrow> detach_act s T_Cas (s\<lparr>d_state := DETACHED\<rparr>) F_End"
| lost: "d_state s \<noteq> EMPTY \<Longrightarrow>
    detach_act s T_Cas s (if d_state s = HAS_FUNCTION then T_Cas2 else Def_Terminated)"
| cas2: "d_state s = HAS_FUNCTION \<Longrightarrow> detach_act s T_Cas2 (s\<lparr>d_state := DETACHED\<rparr>) T_Drop"
| lost2: "d_state s \<noteq> HAS_FUNCTION \<Longrightarrow> detach_act s T_Cas2 s Def_Terminated"
| drop: "detach_act s T_Drop (def_log_if (d_func s) Dropped (s\<lparr>d_func := False\<rparr>)) F_End"

inductive def_act :: "deferred \<Rightarrow> def_pc \<Rightarrow> deferred \<Rightarrow> def_pc \<Rightarrow> bool" where
  "addFrom_act s p s' p' \<Longrightarrow> def_act s p s' p'"
| "setExecutor_act s p s' p' \<Longrightarrow> def_act s p s' p'"
| "detach_act s p s' p' \<Longrightarrow> def_act s p s' p'"

text \<open>
  \<open>setNestedExecutors\<close> makes a tree of executors. \<open>setExecutor\<close> and \<open>detach\<close> first go through the
  nested ones, taking them away, and then act on their own: the order in which the executors are
  reached, and the tree that is left.
\<close>

datatype dtree = DTree (dtree_id: nat) (dtree_nested: "dtree list option")

definition setNestedExecutors :: "dtree list \<Rightarrow> dtree \<Rightarrow> dtree option" where
  "setNestedExecutors executors t =
     (if dtree_nested t \<noteq> None then None else Some (DTree (dtree_id t) (Some executors)))"

fun visit_nested :: "dtree \<Rightarrow> nat list" where
  "visit_nested (DTree i None) = [i]"
| "visit_nested (DTree i (Some ts)) = concat (map visit_nested ts) @ [i]"

section \<open>Invariant\<close>

text \<open>
  There is one function: it is with \<open>addFrom\<close>, or published, or with whoever took it from there, or
  it has gone its way. There is one decision about the executor.
\<close>

fun adding :: "def_pc \<Rightarrow> nat" where
  "adding (A_Begin ka) = 1" | "adding (A_Cas ka) = 1" | "adding (A_Add ka f) = 1" | "adding _ = 0"

fun taking :: "def_pc \<Rightarrow> nat" where
  "taking (X_Run u) = 1" | "taking T_Drop = 1" | "taking _ = 0"

fun deciding :: "def_pc \<Rightarrow> nat" where
  "deciding F_Begin = 1" | "deciding (X_Load u) = 1" | "deciding (X_Cas u) = 1" | "deciding (X_Cas2 u) = 1"
| "deciding T_Load = 1" | "deciding T_Cas = 1" | "deciding T_Cas2 = 1" | "deciding _ = 0"

fun def_knows :: "nat option \<Rightarrow> deferred \<Rightarrow> def_pc \<Rightarrow> bool" where
  "def_knows k s (A_Begin ka) = (ka = k)"
| "def_knows k s (A_Cas ka) = (ka = k \<and> d_func s)"
| "def_knows k s (A_Add ka f) = (ka = k \<and> d_state s = HAS_EXECUTOR \<and> f)"
| "def_knows k s (X_Load u) = (d_executor s \<noteq> None)"
| "def_knows k s (X_Cas u) = (d_executor s \<noteq> None)"
| "def_knows k s (X_Cas2 u) = (d_executor s \<noteq> None \<and> d_state s = HAS_FUNCTION)"
| "def_knows k s (X_Run u) = (d_state s = HAS_EXECUTOR \<and> d_func s)"
| "def_knows k s T_Cas2 = (d_state s = HAS_FUNCTION)"
| "def_knows k s T_Drop = (d_state s = DETACHED \<and> d_func s)"
| "def_knows k s Def_Terminated = False"
| "def_knows k s _ = True"

text \<open>Which thread a program point belongs to.\<close>

fun adder :: "def_pc \<Rightarrow> nat" where
  "adder (A_Begin ka) = 1" | "adder (A_Cas ka) = 1" | "adder (A_Add ka f) = 1" | "adder A_End = 1" | "adder _ = 0"

fun chooser :: "def_pc \<Rightarrow> nat" where
  "chooser F_End = 1" | "chooser (X_Run u) = 1" | "chooser T_Drop = 1" | "chooser p = deciding p"

definition def_event_ok :: "nat option \<Rightarrow> deferred \<Rightarrow> def_event \<Rightarrow> bool" where
  "def_event_ok k s ev = (case ev of
       RunInline e unsafe \<Rightarrow> d_state s = HAS_EXECUTOR \<and> e = d_executor s \<and> (unsafe \<or> k = e)
     | AddedTo e \<Rightarrow> d_state s = HAS_EXECUTOR \<and> e = d_executor s
     | Dropped \<Rightarrow> d_state s = DETACHED)"

definition def_inv :: "nat option \<Rightarrow> deferred \<Rightarrow> def_pc multiset \<Rightarrow> bool" where
  "def_inv k s M \<longleftrightarrow>
     total adder M = 1 \<and> total chooser M = 1 \<and>
     total adding M + of_bool (d_state s = HAS_FUNCTION) + total taking M + length (d_log s) = 1 \<and>
     total deciding M = of_bool (d_state s = EMPTY \<or> d_state s = HAS_FUNCTION) \<and>
     (d_state s = HAS_FUNCTION \<longrightarrow> d_func s) \<and> (d_state s = HAS_EXECUTOR \<longrightarrow> d_executor s \<noteq> None) \<and>
     (\<forall>p \<in># M. def_knows k s p) \<and> list_all (def_event_ok k s) (d_log s)"


section \<open>The invariant is kept\<close>

lemma def_knows_irrelevant [simp]: "def_knows k (s\<lparr>d_log := l\<rparr>) p = def_knows k s p"
  by (cases p) simp_all

lemma def_knows_clear: "def_knows k s q \<Longrightarrow> adding q = 0 \<Longrightarrow> taking q = 0 \<Longrightarrow> def_knows k (s\<lparr>d_func := False\<rparr>) q"
  by (cases q) simp_all

lemma def_knows_store: "def_knows k s q \<Longrightarrow> def_knows k (s\<lparr>d_func := True\<rparr>) q"
  by (cases q) simp_all

lemma def_knows_executor: "def_knows k s q \<Longrightarrow> def_knows k (s\<lparr>d_executor := Some e\<rparr>) q"
  by (cases q) simp_all

lemma def_knows_publish:
  "def_knows k s q \<Longrightarrow> d_state s = EMPTY \<Longrightarrow> def_knows k (s\<lparr>d_state := HAS_FUNCTION\<rparr>) q"
  by (cases q) simp_all

lemma def_knows_decide:
  "def_knows k s q \<Longrightarrow> d_state s = EMPTY \<or> d_state s = HAS_FUNCTION \<Longrightarrow> deciding q = 0 \<Longrightarrow>
    def_knows k (s\<lparr>d_state := st\<rparr>) q"
  by (cases q) auto

text \<open>Clearing \<open>func_\<close> is safe for its owner.\<close>

lemma def_clear_all:
  assumes "def_inv k s (add_mset p M)" and "0 < adding p + taking p"
  shows "\<forall>q \<in># M. def_knows k (s\<lparr>d_func := False\<rparr>) q" and "d_state s \<noteq> HAS_FUNCTION" and "d_log s = []"
    and "total adding M = 0" and "total taking M = 0"
proof -
  have one: "adding p + total adding M + of_bool (d_state s = HAS_FUNCTION) + (taking p + total taking M) +
      length (d_log s) = 1"
    using assms(1) by (simp add: def_inv_def)
  show z: "total adding M = 0" "total taking M = 0" using one assms(2) by linarith+
  have "length (d_log s) = 0" using one assms(2) by linarith
  then show "d_log s = []" by simp
  have "of_bool (d_state s = HAS_FUNCTION) = (0::nat)" using one assms(2) by linarith
  then show "d_state s \<noteq> HAS_FUNCTION" by simp
  show "\<forall>q \<in># M. def_knows k (s\<lparr>d_func := False\<rparr>) q"
    using assms(1) total_zeroD [OF z(1)] total_zeroD [OF z(2)]
    by (auto simp: def_inv_def intro: def_knows_clear)
qed

text \<open>A decision finds nothing logged, and nobody else deciding.\<close>

lemma def_decide_all:
  assumes "def_inv k s (add_mset p M)" and "deciding p = 1"
  shows "\<forall>q \<in># M. def_knows k (s\<lparr>d_state := st\<rparr>) q" and "total deciding M = 0"
    and "d_state s = EMPTY \<or> d_state s = HAS_FUNCTION" and "d_log s = []"
proof -
  show st: "d_state s = EMPTY \<or> d_state s = HAS_FUNCTION"
    using assms by (cases "d_state s") (simp_all add: def_inv_def)
  then show z: "total deciding M = 0" using assms by (auto simp: def_inv_def)
  show "\<forall>q \<in># M. def_knows k (s\<lparr>d_state := st\<rparr>) q"
    using assms(1) st total_zeroD [OF z] by (auto simp: def_inv_def intro: def_knows_decide)
  show "d_log s = []"
    using assms(1) st by (cases "d_log s") (auto simp: def_inv_def def_event_ok_def split: def_event.splits)
qed

lemma addFrom_inv:
  assumes inv: "def_inv k s (add_mset p M)" and "addFrom_act s p s' p'"
  shows "def_inv k s' (add_mset p' M)"
  using assms(2)
proof cases
  case (load_detached ka)
  then show ?thesis using inv def_clear_all(3) [OF inv] by (simp add: def_inv_def def_log_if_def def_log_def def_event_ok_def)
next
  case (load_executor ka)
  then show ?thesis using inv by (simp add: def_inv_def)
next
  case (load_function ka)
  then show ?thesis using def_clear_all(2) [OF inv] by simp
next
  case (load_empty ka)
  then show ?thesis
    using inv def_clear_all(3) [OF inv] by (auto simp: def_inv_def intro: def_knows_store)
next
  case (store ka)
  then show ?thesis
    using inv def_clear_all(3) [OF inv] by (auto simp: def_inv_def intro: def_knows_publish)
next
  case (lost_detached ka)
  then show ?thesis
    using inv def_clear_all(1,3) [OF inv] by (simp add: def_inv_def def_log_if_def def_log_def def_event_ok_def)
next
  case (lost_executor ka)
  then show ?thesis
    using inv def_clear_all(1,3) [OF inv] by (simp add: def_inv_def)
next
  case (lost_function ka)
  then show ?thesis using def_clear_all(2) [OF inv] by simp
next
  case (add ka f)
  then show ?thesis
    using inv def_clear_all(3) [OF inv]
    by (auto simp: def_inv_def def_log_if_def def_log_def def_event_ok_def addWithInline_def)
qed

lemma setExecutor_inv:
  assumes inv: "def_inv k s (add_mset p M)" and "setExecutor_act s p s' p'"
  shows "def_inv k s' (add_mset p' M)"
  using assms(2)
proof cases
  case (store e u)
  then show ?thesis
    using inv def_decide_all(4) [OF inv] by (auto simp: def_inv_def intro: def_knows_executor)
next
  case (load u)
  then show ?thesis
    using inv def_decide_all(3) [OF inv] by (auto simp: def_inv_def)
next
  case (cas u)
  then show ?thesis
    using inv def_decide_all [OF inv] by (simp add: def_inv_def)
next
  case (lost u)
  then show ?thesis
    using inv def_decide_all(3) [OF inv] by (auto simp: def_inv_def)
next
  case (cas2 u)
  then show ?thesis
    using inv def_decide_all [OF inv] by (simp add: def_inv_def)
next
  case (lost2 u)
  then show ?thesis using inv by (simp add: def_inv_def)
next
  case (run u)
  then show ?thesis
    using inv def_clear_all [OF inv] by (simp add: def_inv_def def_log_if_def def_log_def def_event_ok_def)
qed

lemma detach_inv:
  assumes inv: "def_inv k s (add_mset p M)" and "detach_act s p s' p'"
  shows "def_inv k s' (add_mset p' M)"
  using assms(2)
proof cases
  case start
  then show ?thesis using inv by (simp add: def_inv_def)
next
  case load
  then show ?thesis
    using inv def_decide_all(3) [OF inv] by (auto simp: def_inv_def)
next
  case cas
  then show ?thesis
    using inv def_decide_all [OF inv] by (simp add: def_inv_def)
next
  case lost
  then show ?thesis
    using inv def_decide_all(3) [OF inv] by (auto simp: def_inv_def)
next
  case cas2
  then show ?thesis
    using inv def_decide_all [OF inv] by (simp add: def_inv_def)
next
  case lost2
  then show ?thesis using inv by (simp add: def_inv_def)
next
  case drop
  then show ?thesis
    using inv def_clear_all [OF inv] by (simp add: def_inv_def def_log_if_def def_log_def def_event_ok_def)
qed

section \<open>Reaching the end\<close>

fun def_left :: "def_pc \<Rightarrow> nat" where
  "def_left (A_Begin ka) = 3" | "def_left (A_Cas ka) = 2" | "def_left (A_Add ka f) = 1"
| "def_left F_Begin = 5" | "def_left (X_Load u) = 4" | "def_left (X_Cas u) = 3" | "def_left (X_Cas2 u) = 2"
| "def_left (X_Run u) = 1" | "def_left T_Load = 4" | "def_left T_Cas = 3" | "def_left T_Cas2 = 2"
| "def_left T_Drop = 1" | "def_left _ = 0"

lemma def_enabled:
  assumes "0 < def_left p"
  shows "\<exists>s' p'. def_act s p s' p' \<and> def_left p' < def_left p"
proof -
  note A = addFrom_act.intros [THEN def_act.intros(1)] and X = setExecutor_act.intros [THEN def_act.intros(2)]
    and D = detach_act.intros [THEN def_act.intros(3)]
  have pick: "def_act s q s' p' \<Longrightarrow> q = p \<Longrightarrow> def_left p' < def_left q \<Longrightarrow> ?thesis" for q s' p' by blast
  show ?thesis
  proof (cases p)
    case (A_Begin ka)
    show ?thesis
      by (cases "d_state s"; (rule A(1-4) [THEN pick], (assumption | simp add: A_Begin)+)[1])
  next
    case (A_Cas ka)
    show ?thesis by (cases "d_state s"; (rule A(5-8) [THEN pick], (assumption | simp add: A_Cas)+)[1])
  next
    case (A_Add ka)
    show ?thesis by (rule A(9) [THEN pick]) (simp_all add: A_Add)
  next
    case F_Begin
    show ?thesis by (rule D(1) [THEN pick]) (simp_all add: F_Begin)
  next
    case (X_Load u)
    show ?thesis by (rule X(2) [THEN pick]) (simp_all add: X_Load)
  next
    case (X_Cas u)
    show ?thesis
      by (cases "d_state s = EMPTY"; (rule X(3,4) [THEN pick], (assumption | simp add: X_Cas)+)[1])
  next
    case (X_Cas2 u)
    show ?thesis
      by (cases "d_state s = HAS_FUNCTION"; (rule X(5,6) [THEN pick], (assumption | simp add: X_Cas2)+)[1])
  next
    case (X_Run u)
    show ?thesis by (rule X(7) [THEN pick]) (simp_all add: X_Run)
  next
    case T_Load
    show ?thesis by (rule D(2) [THEN pick]) (simp_all add: T_Load)
  next
    case T_Cas
    show ?thesis
      by (cases "d_state s = EMPTY"; (rule D(3,4) [THEN pick], (assumption | simp add: T_Cas)+)[1])
  next
    case T_Cas2
    show ?thesis
      by (cases "d_state s = HAS_FUNCTION"; (rule D(5,6) [THEN pick], (assumption | simp add: T_Cas2)+)[1])
  next
    case T_Drop
    show ?thesis by (rule D(7) [THEN pick]) (simp_all add: T_Drop)
  qed (use assms in simp_all)
qed

interpretation deferred_executor: draining_pool def_act "def_inv k" def_left for k
proof
  show "def_inv k s' (add_mset p' M)" if "def_inv k s (add_mset p M)" "def_act s p s' p'" for s p M s' p'
    using that by (auto elim!: def_act.cases intro: addFrom_inv setExecutor_inv detach_inv)
  show "\<exists>p N s' p'. M = add_mset p N \<and> def_act s p s' p' \<and> def_left p' < def_left p"
    if "def_inv k s M" and q: "q \<in># M" "0 < def_left q" for s M q
    using def_enabled [OF q(2), of s] multi_member_split [OF q(1)] by blast
qed

lemma def_inv_init: "def_inv k DeferredExecutor_init {#A_Begin k, F_Begin#}"
  by (simp add: def_inv_def DeferredExecutor_init_def)

lemma def_ended:
  assumes "set_mset M \<subseteq> {A_End, F_End}"
  shows "M = replicate_mset (total adder M) A_End + replicate_mset (total chooser M) F_End"
  using assms by (induction M) auto

lemma def_rest:
  assumes inv: "def_inv k s M" and "\<forall>p \<in># M. def_left p = 0"
  shows "M = {#A_End, F_End#}"
proof -
  have "p \<in> {A_End, F_End}" if "p \<in># M" for p
  proof -
    have "def_knows k s p" "def_left p = 0" using inv assms(2) that by (simp_all add: def_inv_def)
    then show ?thesis by (cases p) simp_all
  qed
  then have "M = replicate_mset (total adder M) A_End + replicate_mset (total chooser M) F_End"
    by (intro def_ended) blast
  also have "\<dots> = {#A_End, F_End#}" using inv by (simp add: def_inv_def)
  finally show ?thesis .
qed

lemma def_outcome:
  assumes inv: "def_inv k s {#A_End, F_End#}"
  shows "\<exists>ev. d_log s = [ev] \<and>
    (d_state s = DETACHED \<and> ev = Dropped \<or>
     d_state s = HAS_EXECUTOR \<and> d_executor s \<noteq> None \<and>
       (ev = AddedTo (d_executor s) \<or> ev = RunInline (d_executor s) True \<or>
        ev = RunInline (d_executor s) False \<and> k = d_executor s))"
proof -
  have "d_state s \<noteq> HAS_FUNCTION" using inv by (auto simp: def_inv_def)
  then have "length (d_log s) = 1" "list_all (def_event_ok k s) (d_log s)"
    using inv by (simp_all add: def_inv_def)
  then obtain ev where ev: "d_log s = [ev]" "def_event_ok k s ev" by (cases "d_log s") auto
  have ex: "d_state s = HAS_EXECUTOR \<longrightarrow> d_executor s \<noteq> None" using inv by (simp add: def_inv_def)
  show ?thesis
    by (cases ev) (use ev ex in \<open>auto simp: def_event_ok_def\<close>)
qed

text \<open>
  C17. \<open>addFrom\<close> in one thread against \<open>setExecutor\<close> or \<open>detach\<close> in another, in every interleaving:
  neither terminates on an unexpected state, both can always finish, and when they have, exactly
  one thing happened to the function, which is present when \<open>addFrom\<close> stores it and is not moved out twice. After \<open>detach\<close> it was dropped; after \<open>setExecutor\<close> it went to
  the executor that was set, called at once only if that is the completing executor or if
  \<open>setExecutor\<close> was asked to.
\<close>

theorem deferred_function_once:
  assumes "pool_reach def_act (DeferredExecutor_init, {#A_Begin k, F_Begin#}) (s, M)"
  shows "Def_Terminated \<notin># M \<and> length (d_log s) \<le> 1 \<and>
    (\<exists>s' N. pool_reach def_act (s, M) (s', N) \<and> N = {#A_End, F_End#}) \<and>
    (M = {#A_End, F_End#} \<longrightarrow> (\<exists>ev. d_log s = [ev] \<and>
       (d_state s = DETACHED \<and> ev = Dropped \<or>
        d_state s = HAS_EXECUTOR \<and> d_executor s \<noteq> None \<and>
          (ev = AddedTo (d_executor s) \<or> ev = RunInline (d_executor s) True \<or>
           ev = RunInline (d_executor s) False \<and> k = d_executor s))))"
proof -
  have inv: "def_inv k s M"
    using deferred_executor.reach_inv [OF assms] def_inv_init by simp
  have "Def_Terminated \<notin># M" using inv by (auto simp: def_inv_def)
  moreover have "length (d_log s) \<le> 1" using inv unfolding def_inv_def by (elim conjE) linarith
  moreover obtain s' N where "pool_reach def_act (s, M) (s', N)" "def_inv k s' N" "\<forall>p \<in># N. def_left p = 0"
    using deferred_executor.quiesce [OF inv] by blast
  moreover from this have "N = {#A_End, F_End#}" using def_rest by blast
  ultimately show ?thesis using inv def_outcome by blast
qed

theorem deferred_function_once_witness:
  "\<exists>s. pool_reach def_act (DeferredExecutor_init, {#A_Begin (Some 1), F_Begin#}) (s, {#A_End, F_End#})"
  using deferred_function_once [of "Some 1" DeferredExecutor_init "{#A_Begin (Some 1), F_Begin#}"]
  by (simp add: pool_reach_def)

section \<open>Nested executors\<close>

text \<open>All executors of a tree are reached once, each one after those nested in it.\<close>

fun dtree_ids :: "dtree \<Rightarrow> nat multiset" where
  "dtree_ids (DTree i None) = {#i#}"
| "dtree_ids (DTree i (Some ts)) = add_mset i (\<Sum>t \<in># mset ts. dtree_ids t)"

lemma visit_nested_all: "mset (visit_nested t) = dtree_ids t"
proof (induction t rule: visit_nested.induct)
  case (2 i ts)
  have "(\<Sum>t \<leftarrow> ts. mset (visit_nested t)) = (\<Sum>t \<leftarrow> ts. dtree_ids t)"
    by (intro arg_cong [of _ _ sum_list] map_cong refl) (rule 2)
  then show ?case by (simp add: mset_concat o_def sum_mset_sum_list flip: mset_map)
qed simp

end
