(* ===== verification/BucketedTimeSeries.thy ===== *)
theory BucketedTimeSeries
  imports ConstexprMath "HOL-Library.Signed_Division"
begin

text \<open>
  \<open>BucketedTimeSeries\<close> of \<open>folly/stats/BucketedTimeSeries.h\<close> and \<open>-inl.h\<close>, with \<open>Bucket\<close> of
  \<open>folly/stats/detail/Bucket.h\<close>, for an integral value type \<open>t\<close>: a circular array of buckets that keeps the
  sum and the number of the values of a sliding window of time. Time points and durations are
  64-bit signed counts, as in \<open>std::chrono\<close>; \<^term>\<open>None\<close> is undefined behaviour (signed overflow,
  division by zero, an index out of range) or a failed check of \<open>forEachBucket\<close>. Averages and rates are floating-point and not
  modelled; the scaling of a partly covered bucket in \<open>rangeAdjust\<close> is a parameter \<open>scale\<close>.
\<close>

section \<open>Buckets\<close>

record bucket =
  b_sum :: int
  b_count :: int

definition Bucket_init :: bucket where
  "Bucket_init = \<lparr>b_sum = 0, b_count = 0\<rparr>"

definition Bucket_clear :: "bucket \<Rightarrow> bucket" where
  "Bucket_clear b = b\<lparr>b_sum := 0, b_count := 0\<rparr>"

text \<open>\<open>bi\<close> tells whether the compiler has \<open>__builtin_add_overflow\<close>.\<close>

definition addHelper :: "bool \<Rightarrow> ctype \<Rightarrow> int \<Rightarrow> int \<Rightarrow> int option" where
  "addHelper bi t a b = constexpr_add_overflow_clamped bi False t a b"

definition subtractHelper :: "bool \<Rightarrow> ctype \<Rightarrow> int \<Rightarrow> int \<Rightarrow> int option" where
  "subtractHelper bi t a b = constexpr_sub_overflow_clamped bi False t a b"

definition Bucket_add :: "bool \<Rightarrow> ctype \<Rightarrow> int \<Rightarrow> int \<Rightarrow> bucket \<Rightarrow> bucket option" where
  "Bucket_add bi t s c b =
     do { s' \<leftarrow> addHelper bi t (b_sum b) s;
          c' \<leftarrow> addHelper bi uint64 (b_count b) c;
          Some \<lparr>b_sum = s', b_count = c'\<rparr> }"

definition Bucket_minus :: "bool \<Rightarrow> ctype \<Rightarrow> bucket \<Rightarrow> bucket \<Rightarrow> bucket option" where
  "Bucket_minus bi t b o' =
     do { s' \<leftarrow> subtractHelper bi t (b_sum b) (b_sum o');
          c' \<leftarrow> subtractHelper bi uint64 (b_count b) (b_count o');
          Some \<lparr>b_sum = s', b_count = c'\<rparr> }"

section \<open>Time series\<close>

record series =
  firstTime :: int
  latestTime :: int
  duration :: int
  total_bucket :: bucket
  buckets :: "bucket list"

definition isAllTime :: "series \<Rightarrow> bool" where
  "isAllTime s \<longleftrightarrow> duration s = 0"

definition series_empty :: "series \<Rightarrow> bool" where
  "series_empty s \<longleftrightarrow> firstTime s > latestTime s"

definition BucketedTimeSeries_init :: "nat \<Rightarrow> int \<Rightarrow> series" where
  "BucketedTimeSeries_init nBuckets maxDuration =
     \<lparr>firstTime = 1, latestTime = 0, duration = maxDuration, total_bucket = Bucket_init,
      buckets =
        (if maxDuration = 0 then []
         else replicate (if int nBuckets > cast uint64 maxDuration then nat (cast uint64 maxDuration)
                         else nBuckets) Bucket_init)\<rparr>"

text \<open>The constructor from saved data, which throws on data that do not fit together.\<close>

datatype restore_error = TotalNotZero | TimesTooFarApart

fun add_all :: "bool \<Rightarrow> ctype \<Rightarrow> bucket list \<Rightarrow> bucket \<Rightarrow> bucket option" where
  "add_all bi t [] b = Some b"
| "add_all bi t (x # xs) b = do { b' \<leftarrow> Bucket_add bi t (b_sum x) (b_count x) b; add_all bi t xs b' }"

definition BucketedTimeSeries_restore ::
    "bool \<Rightarrow> ctype \<Rightarrow> int \<Rightarrow> int \<Rightarrow> int \<Rightarrow> bucket list \<Rightarrow> (restore_error + series) option" where
  "BucketedTimeSeries_restore bi t theFirstTime theLatestTime maxDuration bucketsList =
     do { total \<leftarrow> add_all bi t bucketsList Bucket_init;
          if theFirstTime > theLatestTime \<and> (b_sum total \<noteq> 0 \<or> b_count total \<noteq> 0) then Some (Inl TotalNotZero)
          else do {
            apart \<leftarrow> (if theFirstTime \<le> theLatestTime then arith int64 (theLatestTime - theFirstTime) else Some 0);
            if theFirstTime \<le> theLatestTime \<and> apart > maxDuration then Some (Inl TimesTooFarApart)
            else Some (Inr \<lparr>firstTime = theFirstTime, latestTime = theLatestTime, duration = maxDuration,
                            total_bucket = total, buckets = bucketsList\<rparr>) } }"

subsection \<open>Bucket indices\<close>

text \<open>Signed division truncates; dividing by zero is undefined.\<close>

definition cxx_div :: "int \<Rightarrow> int \<Rightarrow> int option" where
  "cxx_div a b = (if b = 0 then None else Some (a sdiv b))"

definition cxx_mod :: "int \<Rightarrow> int \<Rightarrow> int option" where
  "cxx_mod a b = (if b = 0 then None else Some (a smod b))"

definition size_of :: "series \<Rightarrow> int" where
  "size_of s = int (length (buckets s))"

text \<open>The product is unsigned, since the size of a vector is.\<close>

definition getBucketIdx :: "series \<Rightarrow> int \<Rightarrow> nat option" where
  "getBucketIdx s time =
     do { timeIntoCurrentCycle \<leftarrow> cxx_mod time (duration s);
          p \<leftarrow> arith uint64 (cast uint64 timeIntoCurrentCycle * size_of s);
          q \<leftarrow> cxx_div p (cast uint64 (duration s));
          Some (nat q) }"

text \<open>Rounding a scaled time up to a real one.\<close>

definition unscale :: "series \<Rightarrow> int \<Rightarrow> int option" where
  "unscale s scaled =
     do { a \<leftarrow> arith uint64 (cast uint64 scaled + size_of s);
          b \<leftarrow> arith uint64 (a - 1);
          q \<leftarrow> cxx_div b (size_of s);
          Some (cast int64 q) }"

definition getBucketInfo :: "series \<Rightarrow> int \<Rightarrow> (nat \<times> int \<times> int) option" where
  "getBucketInfo s time =
     do { timeMod \<leftarrow> cxx_mod time (duration s);
          numFullDurations \<leftarrow> cxx_div time (duration s);
          scaledTime \<leftarrow> arith int64 (timeMod * cast int64 (size_of s));
          idx \<leftarrow> cxx_div scaledTime (duration s);
          scaledOffsetInBucket \<leftarrow> cxx_mod scaledTime (duration s);
          scaledBucketStart \<leftarrow> arith int64 (scaledTime - scaledOffsetInBucket);
          scaledNextBucketStart \<leftarrow> arith int64 (scaledBucketStart + duration s);
          bucketStartMod \<leftarrow> unscale s scaledBucketStart;
          nextBucketStartMod \<leftarrow> unscale s scaledNextBucketStart;
          durationStart \<leftarrow> arith int64 (numFullDurations * duration s);
          bucketStart \<leftarrow> arith int64 (bucketStartMod + durationStart);
          nextBucketStart \<leftarrow> arith int64 (nextBucketStartMod + durationStart);
          Some (nat (cast uint64 idx), bucketStart, nextBucketStart) }"

definition getEarliestTimeNonEmpty :: "series \<Rightarrow> int option" where
  "getEarliestTimeNonEmpty s =
     do { (_, _, nextBucketStart) \<leftarrow> getBucketInfo s (latestTime s);
          arith int64 (nextBucketStart - duration s) }"

subsection \<open>Adding values\<close>

text \<open>The loop of \<open>updateBuckets\<close>.\<close>

partial_function (option) rotate :: "bool \<Rightarrow> ctype \<Rightarrow> nat \<Rightarrow> nat \<Rightarrow> series \<Rightarrow> series option" where
  "rotate bi t newBucket idx s =
     (if idx = newBucket then Some s
      else let idx = (if idx + 1 \<ge> length (buckets s) then 0 else idx + 1)
           in if idx < length (buckets s) then
                do { total \<leftarrow> Bucket_minus bi t (total_bucket s) (buckets s ! idx);
                     rotate bi t newBucket idx
                       (s\<lparr>total_bucket := total, buckets := (buckets s)[idx := Bucket_clear (buckets s ! idx)]\<rparr>) }
              else None)"

definition clear_all :: "series \<Rightarrow> series" where
  "clear_all s = s\<lparr>buckets := map Bucket_clear (buckets s), total_bucket := Bucket_clear (total_bucket s)\<rparr>"

definition updateBuckets :: "bool \<Rightarrow> ctype \<Rightarrow> int \<Rightarrow> series \<Rightarrow> (nat \<times> series) option" where
  "updateBuckets bi t now s =
     do { (currentBucket, currentBucketStart, nextBucketStart) \<leftarrow> getBucketInfo s (latestTime s);
          let s = s\<lparr>latestTime := now\<rparr>;
          if now < nextBucketStart then Some (currentBucket, s)
          else do {
            wrapped \<leftarrow> arith int64 (currentBucketStart + duration s);
            if now \<ge> wrapped then
              do { idx \<leftarrow> getBucketIdx (clear_all s) (latestTime s); Some (idx, clear_all s) }
            else do {
              newBucket \<leftarrow> getBucketIdx s now;
              s \<leftarrow> rotate bi t newBucket currentBucket s;
              Some (newBucket, s) } } }"

definition add_to :: "bool \<Rightarrow> ctype \<Rightarrow> int \<Rightarrow> int \<Rightarrow> nat \<Rightarrow> series \<Rightarrow> series option" where
  "add_to bi t tot nsamples idx s =
     do { tb \<leftarrow> Bucket_add bi t tot nsamples (total_bucket s);
          if idx < length (buckets s) then
            do { b \<leftarrow> Bucket_add bi t tot nsamples (buckets s ! idx);
                 Some (s\<lparr>total_bucket := tb, buckets := (buckets s)[idx := b]\<rparr>) }
          else None }"

definition addValueAggregated ::
    "bool \<Rightarrow> ctype \<Rightarrow> int \<Rightarrow> int \<Rightarrow> int \<Rightarrow> series \<Rightarrow> (bool \<times> series) option" where
  "addValueAggregated bi t now tot nsamples s =
     (if isAllTime s then
        let s = (if series_empty s then s\<lparr>firstTime := now, latestTime := now\<rparr>
                 else if now > latestTime s then s\<lparr>latestTime := now\<rparr>
                 else if now < firstTime s then s\<lparr>firstTime := now\<rparr> else s)
        in do { tb \<leftarrow> Bucket_add bi t tot nsamples (total_bucket s); Some (True, s\<lparr>total_bucket := tb\<rparr>) }
      else if series_empty s then
        let s = s\<lparr>firstTime := now, latestTime := now\<rparr>
        in do { idx \<leftarrow> getBucketIdx s now; s \<leftarrow> add_to bi t tot nsamples idx s; Some (True, s) }
      else if now > latestTime s then
        do { (idx, s) \<leftarrow> updateBuckets bi t now s; s \<leftarrow> add_to bi t tot nsamples idx s; Some (True, s) }
      else if now = latestTime s then
        do { idx \<leftarrow> getBucketIdx s now; s \<leftarrow> add_to bi t tot nsamples idx s; Some (True, s) }
      else
        do { earliest \<leftarrow> getEarliestTimeNonEmpty s;
             if now < earliest then Some (False, s)
             else do { idx \<leftarrow> getBucketIdx s now; s \<leftarrow> add_to bi t tot nsamples idx s; Some (True, s) } })"

definition addValue :: "bool \<Rightarrow> ctype \<Rightarrow> int \<Rightarrow> int \<Rightarrow> series \<Rightarrow> (bool \<times> series) option" where
  "addValue bi t now val s = addValueAggregated bi t now val 1 s"

text \<open>The product of the value and the number of times is an ordinary one, which may overflow.\<close>

definition addValue_times :: "bool \<Rightarrow> ctype \<Rightarrow> int \<Rightarrow> int \<Rightarrow> int \<Rightarrow> series \<Rightarrow> (bool \<times> series) option" where
  "addValue_times bi t now val k s =
     do { p \<leftarrow> arith (promote t) (val * cast t k);
          addValueAggregated bi t now (cast t p) k s }"

definition update :: "bool \<Rightarrow> ctype \<Rightarrow> int \<Rightarrow> series \<Rightarrow> (nat \<times> series) option" where
  "update bi t now s0 =
     (let s = (if series_empty s0 then s0\<lparr>firstTime := now\<rparr> else s0)
      in if isAllTime s then Some (0, s\<lparr>latestTime := max (latestTime s) now\<rparr>)
         else if now \<le> latestTime s then do { idx \<leftarrow> getBucketIdx s (latestTime s); Some (idx, s) }
         else updateBuckets bi t now s)"

definition clear :: "series \<Rightarrow> series" where
  "clear s = (clear_all s)\<lparr>firstTime := 1, latestTime := 0\<rparr>"

subsection \<open>Reading\<close>

definition getEarliestTime :: "series \<Rightarrow> int option" where
  "getEarliestTime s =
     (if series_empty s then Some 0
      else if isAllTime s then Some (firstTime s)
      else do { e \<leftarrow> getEarliestTimeNonEmpty s; Some (max e (firstTime s)) })"

definition elapsed :: "series \<Rightarrow> int option" where
  "elapsed s =
     (if series_empty s then Some 0
      else do { e \<leftarrow> getEarliestTime s; d \<leftarrow> arith int64 (latestTime s - e); arith int64 (d + 1) })"

definition elapsed_range :: "int \<Rightarrow> int \<Rightarrow> series \<Rightarrow> int option" where
  "elapsed_range start stop s =
     (if series_empty s then Some 0
      else do { e \<leftarrow> getEarliestTime s;
                let start = max start e;
                l \<leftarrow> arith int64 (latestTime s + 1);
                let stop = min stop l;
                let stop = max start stop;
                arith int64 (stop - start) })"

text \<open>
  \<open>forEachBucket\<close> with a function that returns whether to go on, and changes a state.
\<close>

partial_function (option) forEachBucket_loop ::
    "('a \<Rightarrow> bucket \<Rightarrow> int \<Rightarrow> int \<Rightarrow> (bool \<times> 'a) option) \<Rightarrow> series \<Rightarrow> nat \<Rightarrow> nat \<Rightarrow> int \<Rightarrow> int \<Rightarrow> int \<Rightarrow> 'a \<Rightarrow> 'a option" where
  "forEachBucket_loop fn s latestBucketIdx idx durationStart scaledNextBucketStart bucketStart a =
     do { let wrap = (idx + 1 \<ge> length (buckets s));
          let idx = (if wrap then 0 else idx + 1);
          durationStart \<leftarrow> (if wrap then arith int64 (durationStart + duration s) else Some durationStart);
          scaledNextBucketStart \<leftarrow>
            (if wrap then Some (duration s) else arith int64 (scaledNextBucketStart + duration s));
          m \<leftarrow> unscale s scaledNextBucketStart;
          nextBucketStart \<leftarrow> arith int64 (m + durationStart);
          if bucketStart \<le> latestTime s \<and> idx < length (buckets s) then
            do { (ret, a) \<leftarrow> fn a (buckets s ! idx) bucketStart nextBucketStart;
                 if \<not> ret \<or> idx = latestBucketIdx then Some a
                 else forEachBucket_loop fn s latestBucketIdx idx durationStart scaledNextBucketStart
                        nextBucketStart a }
          else None }"

declare rotate.simps [code] forEachBucket_loop.simps [code]

definition forEachBucket ::
    "('a \<Rightarrow> bucket \<Rightarrow> int \<Rightarrow> int \<Rightarrow> (bool \<times> 'a) option) \<Rightarrow> series \<Rightarrow> 'a \<Rightarrow> 'a option" where
  "forEachBucket fn s a =
     (if isAllTime s then
        do { l \<leftarrow> arith int64 (latestTime s + 1);
             (_, a) \<leftarrow> fn a (total_bucket s) (firstTime s) l;
             Some a }
      else do {
        timeMod \<leftarrow> cxx_mod (latestTime s) (duration s);
        numFullDurations \<leftarrow> cxx_div (latestTime s) (duration s);
        durationStart \<leftarrow> arith int64 (numFullDurations * duration s);
        scaledTime \<leftarrow> arith int64 (timeMod * cast int64 (size_of s));
        latestBucketIdx \<leftarrow> cxx_div scaledTime (duration s);
        scaledOffsetInBucket \<leftarrow> cxx_mod scaledTime (duration s);
        scaledBucketStart \<leftarrow> arith int64 (scaledTime - scaledOffsetInBucket);
        scaledNextBucketStart \<leftarrow> arith int64 (scaledBucketStart + duration s);
        durationStart \<leftarrow> arith int64 (durationStart - duration s);
        m \<leftarrow> unscale s scaledNextBucketStart;
        nextBucketStart \<leftarrow> arith int64 (m + durationStart);
        let idx = nat (cast uint64 latestBucketIdx);
        forEachBucket_loop fn s idx idx durationStart scaledNextBucketStart nextBucketStart a })"

definition forEachBucket_range ::
    "int \<Rightarrow> int \<Rightarrow> ('a \<Rightarrow> bucket \<Rightarrow> int \<Rightarrow> int \<Rightarrow> (bool \<times> 'a) option) \<Rightarrow> series \<Rightarrow> 'a \<Rightarrow> 'a option" where
  "forEachBucket_range start stop fn s a =
     forEachBucket (\<lambda>a b bucketStart nextBucketStart.
        if start \<ge> nextBucketStart then Some (True, a)
        else if stop \<le> bucketStart then Some (False, a)
        else fn a b bucketStart nextBucketStart) s a"

text \<open>
  \<open>scale num den x\<close> is the conversion back of \<open>x * (num * 1.f / den)\<close>, computed in \<open>float\<close>.
\<close>

definition rangeAdjust :: "(int \<Rightarrow> int \<Rightarrow> int \<Rightarrow> int) \<Rightarrow> series \<Rightarrow> int \<Rightarrow> int \<Rightarrow> int \<Rightarrow> int \<Rightarrow> int \<Rightarrow> int option" where
  "rangeAdjust scale s bucketStart nextBucketStart start stop input =
     do { next' \<leftarrow> (if bucketStart \<le> latestTime s \<and> nextBucketStart > latestTime s
                     then arith int64 (latestTime s + 1) else Some nextBucketStart);
          if bucketStart \<le> latestTime s \<and> nextBucketStart > latestTime s \<and> start \<ge> next' then Some 0
          else if start \<le> bucketStart \<and> stop \<ge> next' then Some input
          else do {
            num \<leftarrow> arith int64 (min stop next' - max start bucketStart);
            den \<leftarrow> arith int64 (next' - bucketStart);
            Some (scale num den input) } }"

text \<open>\<open>a += x\<close> on a value of type \<open>t\<close>.\<close>

definition plus_assign :: "ctype \<Rightarrow> int \<Rightarrow> int \<Rightarrow> int option" where
  "plus_assign t a x = do { r \<leftarrow> arith (promote t) (a + x); Some (cast t r) }"

definition series_sum :: "(int \<Rightarrow> int \<Rightarrow> int \<Rightarrow> int) \<Rightarrow> ctype \<Rightarrow> int \<Rightarrow> int \<Rightarrow> series \<Rightarrow> int option" where
  "series_sum scale t start stop s =
     forEachBucket_range start stop (\<lambda>total b bucketStart nextBucketStart.
        do { x \<leftarrow> rangeAdjust scale s bucketStart nextBucketStart start stop (b_sum b);
             total \<leftarrow> plus_assign t total x;
             Some (True, total) }) s 0"

definition series_count :: "(int \<Rightarrow> int \<Rightarrow> int \<Rightarrow> int) \<Rightarrow> int \<Rightarrow> int \<Rightarrow> series \<Rightarrow> int option" where
  "series_count scale start stop s =
     forEachBucket_range start stop (\<lambda>total b bucketStart nextBucketStart.
        do { x \<leftarrow> rangeAdjust scale s bucketStart nextBucketStart start stop (b_count b);
             total \<leftarrow> plus_assign uint64 total x;
             Some (True, total) }) s 0"

end
