(* ===== verification/BucketedTimeSeries_Correct.thy ===== *)
theory BucketedTimeSeries_Correct
  imports BucketedTimeSeries
begin

text \<open>
  What a \<open>BucketedTimeSeries\<close> computes. Time is cut into numbered cells, of which the series keeps the
  last \<open>n\<close>; the index of a bucket is the number of its cell modulo \<open>n\<close>. The operations on the circular
  array are shown to keep, for every bucket, the sum of the values recorded in its cell.
\<close>

section \<open>Cells\<close>

text \<open>With \<open>n\<close> buckets in a duration \<open>D\<close>: the cell of a time, and the first time of a cell.\<close>

definition cell :: "int \<Rightarrow> int \<Rightarrow> int \<Rightarrow> int" where
  "cell n D t = t * n div D"

definition cell_start :: "int \<Rightarrow> int \<Rightarrow> int \<Rightarrow> int" where
  "cell_start n D k = (k * D + n - 1) div n"

lemma le_div_iff_mult:
  assumes d: "0 < (d::int)"
  shows "k \<le> a div d \<longleftrightarrow> k * d \<le> a"
proof
  assume "k \<le> a div d"
  then have "k * d \<le> a div d * d" using d by (simp add: mult_right_mono)
  also have "\<dots> \<le> a" using div_mult_mod_eq [of a d] pos_mod_sign [OF d, of a] by linarith
  finally show "k * d \<le> a" .
next
  assume "k * d \<le> a"
  then have "k * d div d \<le> a div d" using d by (rule zdiv_mono1)
  then show "k \<le> a div d" using d by simp
qed

lemma ceil_div_le_iff: "0 < (n::int) \<Longrightarrow> (a + n - 1) div n \<le> t \<longleftrightarrow> a \<le> t * n"
  using le_div_iff_mult [of n "t + 1" "a + n - 1"] by (simp add: algebra_simps) linarith

lemma cell_start_le_iff: "0 < n \<Longrightarrow> 0 < D \<Longrightarrow> cell_start n D k \<le> t \<longleftrightarrow> k \<le> cell n D t"
  by (simp add: cell_start_def cell_def ceil_div_le_iff le_div_iff_mult)

lemma cell_start_shift:
  assumes "0 < n"
  shows "cell_start n D (k + q * n) = cell_start n D k + q * D"
proof -
  have eq: "(k + q * n) * D + n - 1 = (k * D + n - 1) + (q * D) * n" by (simp add: algebra_simps)
  show ?thesis unfolding cell_start_def eq using assms by simp
qed

lemma cell_start_mod:
  assumes "0 < n"
  shows "cell_start n D (k mod n + j) + (k div n) * D = cell_start n D (k + j)"
  using cell_start_shift [OF assms, of D "k mod n + j" "k div n"] by (simp add: algebra_simps)

lemma cell_mono: "0 < n \<Longrightarrow> 0 < D \<Longrightarrow> t \<le> u \<Longrightarrow> cell n D t \<le> cell n D u"
  by (simp add: cell_def zdiv_mono1)

lemma cell_split:
  assumes "0 < n" and "0 < D"
  shows "cell n D t = (t div D) * n + (t mod D) * n div D"
    and "0 \<le> (t mod D) * n div D" and "(t mod D) * n div D < n"
proof -
  have "t * n = ((t div D) * n) * D + (t mod D) * n"
    using div_mult_mod_eq [of t D] by (metis distrib_right mult.assoc mult.commute)
  then show "cell n D t = (t div D) * n + (t mod D) * n div D"
    using assms(2) by (simp add: cell_def)
  show "0 \<le> (t mod D) * n div D"
    using assms by (simp add: pos_imp_zdiv_nonneg_iff)
  show "(t mod D) * n div D < n"
    using assms le_div_iff_mult [of D n "(t mod D) * n"] pos_mod_bound [of D t]
    by (smt (verit) mult.commute mult_less_cancel_right)
qed

lemma cell_mod: "0 < n \<Longrightarrow> 0 < D \<Longrightarrow> cell n D t mod n = (t mod D) * n div D"
  using cell_split [of n D t] by (simp add: mod_pos_pos_trivial)

lemma cell_div: "0 < n \<Longrightarrow> 0 < D \<Longrightarrow> cell n D t div n = t div D"
  using cell_split [of n D t] by (simp add: div_pos_pos_trivial)

section \<open>Bucket indices\<close>

text \<open>Where the 64-bit arithmetic on times is exact.\<close>

definition series_ok :: "series \<Rightarrow> bool" where
  "series_ok s \<longleftrightarrow> 0 < size_of s \<and> 0 < duration s \<and> duration s * size_of s + size_of s < 2 ^ 63"

definition time_ok :: "int \<Rightarrow> int \<Rightarrow> bool" where
  "time_ok D t \<longleftrightarrow> 0 \<le> t \<and> t + D < 2 ^ 63"

lemma int64_arith: "- (2 ^ 63) \<le> x \<Longrightarrow> x < 2 ^ 63 \<Longrightarrow> arith int64 x = Some x"
  by (simp add: arith_def in_range_def lim_defs int64_def)

lemma uint64_arith: "0 \<le> x \<Longrightarrow> x < 2 ^ 63 \<Longrightarrow> arith uint64 x = Some x"
  by (simp add: arith_def in_range_def lim_defs uint64_def)

lemma int64_cast: "- (2 ^ 63) \<le> x \<Longrightarrow> x < 2 ^ 63 \<Longrightarrow> cast int64 x = x"
  by (rule cast_id) (simp_all add: in_range_def lim_defs int64_def)

lemma uint64_cast: "0 \<le> x \<Longrightarrow> x < 2 ^ 63 \<Longrightarrow> cast uint64 x = x"
  by (rule cast_id) (simp_all add: in_range_def lim_defs uint64_def)

lemma cxx_div_pos: "0 \<le> a \<Longrightarrow> 0 < b \<Longrightarrow> cxx_div a b = Some (a div b)"
  by (auto simp: cxx_div_def signed_divide_int_def sgn_if)

lemma cxx_mod_pos: "0 \<le> a \<Longrightarrow> 0 < b \<Longrightarrow> cxx_mod a b = Some (a mod b)"
  by (auto simp: cxx_mod_def signed_modulo_int_def signed_divide_int_def sgn_if minus_div_mult_eq_mod)

lemma unscale_eq:
  assumes "series_ok s" and "0 \<le> x" and "x \<le> duration s * size_of s"
  shows "unscale s x = Some ((x + size_of s - 1) div size_of s)"
proof -
  let ?n = "size_of s"
  have b: "0 < ?n" "x + ?n < 2 ^ 63" using assms by (auto simp: series_ok_def)
  have "(x + ?n - 1) div ?n \<le> x + ?n - 1" "0 \<le> (x + ?n - 1) div ?n"
    using zdiv_mono2 [of "x + ?n - 1" 1 ?n] assms(2) b(1) by (simp_all add: pos_imp_zdiv_nonneg_iff)
  then show ?thesis
    using assms(2) b
    by (simp add: unscale_def uint64_cast uint64_arith cxx_div_pos int64_cast)
qed

lemma scaled_bounds:
  assumes "0 < (n::int)" and "0 < D" and "0 \<le> r" and "r < D"
  shows "0 \<le> r * n" and "r * n \<le> D * n" and "D \<le> D * n" and "r < D * n"
proof -
  show "0 \<le> r * n" using assms by simp
  show "r * n \<le> D * n" using assms by (intro mult_right_mono) simp_all
  show "D \<le> D * n" using assms by (simp add: mult_le_cancel_left1)
  then show "r < D * n" using assms by linarith
qed

lemma getBucketIdx_eq:
  assumes "series_ok s" and "0 \<le> t"
  shows "getBucketIdx s t = Some (nat (cell (size_of s) (duration s) t mod size_of s))"
proof -
  let ?n = "size_of s" and ?D = "duration s"
  have b: "0 < ?n" "0 < ?D" "?D * ?n + ?n < 2 ^ 63" using assms by (simp_all add: series_ok_def)
  let ?r = "t mod ?D"
  have r: "0 \<le> ?r" "?r < ?D" using b by simp_all
  note s = scaled_bounds [OF b(1,2) r]
  have "cast uint64 ?r = ?r" "cast uint64 ?D = ?D"
    by (intro uint64_cast; use s r b in linarith)+
  moreover have "arith uint64 (?r * ?n) = Some (?r * ?n)"
    by (intro uint64_arith; use s b in linarith)
  moreover have "cxx_div (?r * ?n) ?D = Some (cell ?n ?D t mod ?n)"
    unfolding cell_mod [OF b(1,2)] using s b by (intro cxx_div_pos)
  ultimately show ?thesis
    using cxx_mod_pos [OF assms(2) b(2)] by (simp add: getBucketIdx_def)
qed

lemma getBucketInfo_eq:
  assumes "series_ok s" and "time_ok (duration s) t"
  defines "n \<equiv> size_of s" and "D \<equiv> duration s"
  shows "getBucketInfo s t =
    Some (nat (cell n D t mod n), cell_start n D (cell n D t), cell_start n D (cell n D t + 1))"
proof -
  have b: "0 < n" "0 < D" "D * n + n < 2 ^ 63" "0 \<le> t" "t + D < 2 ^ 63"
    using assms by (simp_all add: series_ok_def time_ok_def)
  define k where "k = cell n D t"
  define i where "i = k mod n"
  have k: "i = t mod D * n div D" "k div n = t div D"
    using b by (simp_all add: i_def k_def cell_mod cell_div)
  have r: "0 \<le> t mod D" "t mod D < D" using b by simp_all
  note sc = scaled_bounds [OF b(1,2) r]
  have i: "0 \<le> i" "i \<le> n - 1" using b by (simp_all add: i_def)
  have "i * D \<le> (n - 1) * D" using i b by (intro mult_right_mono) simp_all
  then have iD: "0 \<le> i * D" "i * D + D \<le> D * n" using i b by (simp_all add: algebra_simps)
  have off: "t mod D * n - t mod D * n mod D = i * D"
    by (simp add: k minus_mod_eq_div_mult)
  have iD': "i * D \<le> D * n" "0 \<le> i * D + D" using iD b by linarith+
  have u: "unscale s (i * D) = Some (cell_start n D i)"
    "unscale s (i * D + D) = Some (cell_start n D (i + 1))"
    using unscale_eq [OF assms(1), folded n_def D_def, OF iD(1) iD'(1)]
      unscale_eq [OF assms(1), folded n_def D_def, OF iD'(2) iD(2)]
    unfolding cell_start_def distrib_right by simp_all
  have q: "0 \<le> t div D * D" "t div D * D \<le> t"
    using b div_mult_mod_eq [of t D] r(1) by (simp add: pos_imp_zdiv_nonneg_iff, linarith)
  have start: "cell_start n D i + t div D * D = cell_start n D k"
    "cell_start n D (i + 1) + t div D * D = cell_start n D (k + 1)"
    using cell_start_mod [OF b(1), of D k 0] cell_start_mod [OF b(1), of D k 1] k(2) by (simp_all add: i_def)
  have "cell_start n D k \<le> t" using cell_start_le_iff [OF b(1,2)] by (simp add: k_def)
  moreover have "cell_start n D (k + 1) \<le> t + D"
  proof -
    have "cell_start n D (k + 1) \<le> cell_start n D (k + 1 * n)"
      unfolding cell_start_def using b
      by (intro zdiv_mono1 diff_right_mono add_right_mono mult_right_mono) simp_all
    then show ?thesis using cell_start_shift [OF b(1), of D k 1] calculation by simp
  qed
  moreover have "0 \<le> cell_start n D i" "0 \<le> cell_start n D (i + 1)"
    unfolding cell_start_def distrib_right using iD b
    by (intro pos_imp_zdiv_nonneg_iff [THEN iffD2]; linarith)+
  ultimately have a: "arith int64 (cell_start n D i + t div D * D) = Some (cell_start n D k)"
    "arith int64 (cell_start n D (i + 1) + t div D * D) = Some (cell_start n D (k + 1))"
    unfolding start [symmetric] by (intro int64_arith; use q b start in linarith)+
  have "0 < D * n" using b by simp
  then have c: "cast int64 n = n" and idx: "cast uint64 i = i"
    by (intro int64_cast uint64_cast; use b i in linarith)+
  have m: "cxx_mod t D = Some (t mod D)" "cxx_div t D = Some (t div D)"
    "cxx_div (t mod D * n) D = Some i" "cxx_mod (t mod D * n) D = Some (t mod D * n mod D)"
    using b sc k by (simp_all add: cxx_mod_pos cxx_div_pos)
  have ar: "arith int64 (t mod D * n) = Some (t mod D * n)" "arith int64 (i * D) = Some (i * D)"
    "arith int64 (i * D + D) = Some (i * D + D)" "arith int64 (t div D * D) = Some (t div D * D)"
    by (intro int64_arith; use b sc iD q in linarith)+
  show ?thesis
    using m c ar off u a idx
    by (simp add: getBucketInfo_def n_def [symmetric] D_def [symmetric] k_def [symmetric] i_def [symmetric])
qed

section \<open>Tallies\<close>

text \<open>A sample is a time, a sum of values and their number.\<close>

type_synonym sample = "int \<times> int \<times> int"

abbreviation time_of :: "sample \<Rightarrow> int" where "time_of e \<equiv> fst e"
abbreviation val_of :: "sample \<Rightarrow> int" where "val_of e \<equiv> fst (snd e)"
abbreviation num_of :: "sample \<Rightarrow> int" where "num_of e \<equiv> snd (snd e)"

definition tally :: "sample list \<Rightarrow> bucket" where
  "tally es = \<lparr>b_sum = (\<Sum>e \<leftarrow> es. val_of e), b_count = (\<Sum>e \<leftarrow> es. num_of e)\<rparr>"

text \<open>Samples whose sums stay within the value type and 64 bits, so that nothing is clamped.\<close>

definition fits :: "ctype \<Rightarrow> sample list \<Rightarrow> bool" where
  "fits t es \<longleftrightarrow> (\<Sum>e \<leftarrow> es. \<bar>val_of e\<bar>) \<le> lim_max t \<and> (\<Sum>e \<leftarrow> es. num_of e) \<le> lim_max uint64 \<and>
     (\<forall>e \<in> set es. 0 \<le> num_of e \<and> (is_signed t \<or> 0 \<le> val_of e))"

definition value_type :: "ctype \<Rightarrow> bool" where
  "value_type t \<longleftrightarrow> integral t \<and> width t \<le> 64"

lemma in_range_abs: "\<bar>x\<bar> \<le> lim_max t \<Longrightarrow> is_signed t \<or> 0 \<le> x \<Longrightarrow> in_range t x"
  by (auto simp: in_range_def lim_defs split: if_splits)

lemma sum_list_filter_le:
  assumes "\<And>x. x \<in> set xs \<Longrightarrow> 0 \<le> (f x :: int)"
  shows "(\<Sum>x \<leftarrow> filter P xs. f x) \<le> (\<Sum>x \<leftarrow> xs. f x)"
  using assms by (induction xs) (auto simp: add_increasing)

lemma fits_Nil: "fits t []"
  by (simp add: fits_def)

lemma fits_filter: "fits t es \<Longrightarrow> fits t (filter P es)"
  using sum_list_filter_le [of es "\<lambda>e. \<bar>val_of e\<bar>" P] sum_list_filter_le [of es num_of P]
  by (auto simp: fits_def)

lemma fits_append:
  assumes "fits t (es @ fs)"
  shows "fits t es \<and> fits t fs"
proof -
  have n: "0 \<le> (\<Sum>e \<leftarrow> gs. \<bar>val_of e\<bar>)" for gs :: "sample list"
    by (rule sum_list_nonneg) auto
  have m: "0 \<le> (\<Sum>e \<leftarrow> gs. num_of e)" if "set gs \<subseteq> set (es @ fs)" for gs
    by (rule sum_list_nonneg) (use assms that in \<open>auto simp: fits_def\<close>)
  have s: "(\<Sum>e \<leftarrow> es. \<bar>val_of e\<bar>) + (\<Sum>e \<leftarrow> fs. \<bar>val_of e\<bar>) \<le> lim_max t"
    "(\<Sum>e \<leftarrow> es. num_of e) + (\<Sum>e \<leftarrow> fs. num_of e) \<le> lim_max uint64"
    using assms by (simp_all add: fits_def)
  have "(\<Sum>e \<leftarrow> es. \<bar>val_of e\<bar>) \<le> lim_max t" "(\<Sum>e \<leftarrow> fs. \<bar>val_of e\<bar>) \<le> lim_max t"
    "(\<Sum>e \<leftarrow> es. num_of e) \<le> lim_max uint64" "(\<Sum>e \<leftarrow> fs. num_of e) \<le> lim_max uint64"
    using s n [of es] n [of fs] m [of es, simplified] m [of fs, simplified] by linarith+
  then show ?thesis using assms by (simp add: fits_def)
qed

lemma fits_range:
  assumes "fits t es"
  shows "in_range t (b_sum (tally es))" and "in_range uint64 (b_count (tally es))"
proof -
  have "\<bar>\<Sum>e \<leftarrow> es. val_of e\<bar> \<le> (\<Sum>e \<leftarrow> es. \<bar>val_of e\<bar>)"
    using sum_list_abs [of "map val_of es"] by (simp add: o_def)
  then show "in_range t (b_sum (tally es))"
    using assms by (intro in_range_abs) (auto simp: fits_def tally_def intro!: sum_list_nonneg)
  have "0 \<le> (\<Sum>e \<leftarrow> es. num_of e)" using assms by (auto simp: fits_def intro!: sum_list_nonneg)
  then show "in_range uint64 (b_count (tally es))"
    using assms by (auto simp: fits_def tally_def in_range_def lim_defs uint64_def)
qed

lemma uint64_value: "integral uint64" "width uint64 \<le> 64"
  by (simp_all add: integral_def uint64_def)

lemma Bucket_add_tally:
  assumes "value_type t" and "fits t (es @ [e])"
  shows "Bucket_add bi t (val_of e) (num_of e) (tally es) = Some (tally (es @ [e]))"
proof -
  note r = fits_range [OF assms(2)] fits_range [OF conjunct1 [OF fits_append [OF assms(2)]]]
    fits_range [OF conjunct2 [OF fits_append [OF assms(2)]]]
  have e: "in_range t (val_of e)" "in_range uint64 (num_of e)" using r(5,6) by (simp_all add: tally_def)
  show ?thesis
    using r e assms(1) add_overflow_clamped_correct [of t "b_sum (tally es)" "val_of e"]
      add_overflow_clamped_correct [of uint64 "b_count (tally es)" "num_of e"] uint64_value
    by (simp add: Bucket_add_def addHelper_def value_type_def clamp_to_id tally_def)
qed

lemma tally_split: "tally es = \<lparr>b_sum = b_sum (tally (filter P es)) + b_sum (tally (filter (\<lambda>e. \<not> P e) es)),
    b_count = b_count (tally (filter P es)) + b_count (tally (filter (\<lambda>e. \<not> P e) es))\<rparr>"
  by (induction es) (auto simp: tally_def)

lemma Bucket_minus_tally:
  assumes "value_type t" and "fits t es"
  shows "Bucket_minus bi t (tally es) (tally (filter P es)) = Some (tally (filter (\<lambda>e. \<not> P e) es))"
proof -
  note r = fits_range [OF assms(2)] fits_range [OF fits_filter [OF assms(2), of P]]
    fits_range [OF fits_filter [OF assms(2), of "\<lambda>e. \<not> P e"]]
  have d: "b_sum (tally es) - b_sum (tally (filter P es)) = b_sum (tally (filter (\<lambda>e. \<not> P e) es))"
    "b_count (tally es) - b_count (tally (filter P es)) = b_count (tally (filter (\<lambda>e. \<not> P e) es))"
    by (subst (1) tally_split [of es P], simp)+
  show ?thesis
    using r assms(1) sub_overflow_clamped_correct [of t "b_sum (tally es)" "b_sum (tally (filter P es))"]
      sub_overflow_clamped_correct [of uint64 "b_count (tally es)" "b_count (tally (filter P es))"] uint64_value
    by (simp add: Bucket_minus_def subtractHelper_def value_type_def clamp_to_id d)
qed

lemma tally_Nil: "tally [] = Bucket_init"
  by (simp add: tally_def Bucket_init_def)

lemma Bucket_clear_init: "Bucket_clear b = Bucket_init"
  by (simp add: Bucket_clear_def Bucket_init_def)

section \<open>The buckets of the last cells\<close>

text \<open>
  The series keeps the samples \<open>es\<close> up to cell \<open>g\<close>: its total is the tally of those in the last \<open>n\<close> cells,
  and each bucket the tally of its cell.
\<close>

definition kept :: "series \<Rightarrow> int \<Rightarrow> sample \<Rightarrow> bool" where
  "kept s g e \<longleftrightarrow> g - size_of s < cell (size_of s) (duration s) (time_of e)"

definition in_bucket :: "series \<Rightarrow> nat \<Rightarrow> sample \<Rightarrow> bool" where
  "in_bucket s i e \<longleftrightarrow> cell (size_of s) (duration s) (time_of e) mod size_of s = int i"

definition represents :: "series \<Rightarrow> sample list \<Rightarrow> int \<Rightarrow> bool" where
  "represents s es g \<longleftrightarrow>
     (\<forall>e \<in> set es. cell (size_of s) (duration s) (time_of e) \<le> g) \<and>
     total_bucket s = tally (filter (kept s g) es) \<and>
     (\<forall>i < length (buckets s). buckets s ! i = tally (filter (in_bucket s i) (filter (kept s g) es)))"

lemma mod_window_unique:
  fixes a b n g :: int
  assumes "0 < n" and "a mod n = b mod n" and "g - n < a" "a \<le> g" "g - n < b" "b \<le> g"
  shows "a = b"
proof -
  have "n dvd a - b" using assms(2) by (simp add: mod_eq_dvd_iff)
  moreover have "\<bar>a - b\<bar> < \<bar>n\<bar>" using assms by linarith
  ultimately have "a - b = 0" using dvd_imp_le_int [of "a - b" n] by linarith
  then show ?thesis by simp
qed

lemma kept_step:
  assumes "0 < size_of s" and "cell (size_of s) (duration s) (time_of e) \<le> g"
  shows "kept s (g + 1) e \<longleftrightarrow> kept s g e \<and> \<not> in_bucket s (nat ((g + 1) mod size_of s)) e"
proof -
  let ?n = "size_of s" and ?c = "cell (size_of s) (duration s) (time_of e)"
  have "in_bucket s (nat ((g + 1) mod ?n)) e \<longleftrightarrow> ?c mod ?n = (g + 1 - ?n) mod ?n"
    using assms(1) by (simp add: in_bucket_def)
  moreover have "g - ?n < ?c \<Longrightarrow> ?c mod ?n = (g + 1 - ?n) mod ?n \<Longrightarrow> ?c = g + 1 - ?n"
    using mod_window_unique [of ?n ?c "g + 1 - ?n" g] assms by simp
  ultimately show ?thesis unfolding kept_def by (cases "?c = g + 1 - ?n") auto
qed

definition same_shape :: "series \<Rightarrow> series \<Rightarrow> bool" where
  "same_shape s s' \<longleftrightarrow> length (buckets s') = length (buckets s) \<and> duration s' = duration s \<and>
     firstTime s' = firstTime s \<and> latestTime s' = latestTime s"

lemma same_shape_simps:
  assumes "same_shape s s'"
  shows "size_of s' = size_of s" "duration s' = duration s" "kept s' = kept s" "in_bucket s' = in_bucket s"
    "series_ok s' = series_ok s"
  using assms by (auto simp: same_shape_def size_of_def kept_def in_bucket_def series_ok_def fun_eq_iff)

lemma rotate_step:
  assumes ok: "series_ok s" "value_type t" "fits t (filter (kept s g) es)" and rep: "represents s es g"
  defines "i \<equiv> nat ((g + 1) mod size_of s)"
  shows "\<exists>tb. Bucket_minus bi t (total_bucket s) (buckets s ! i) = Some tb \<and>
    represents (s\<lparr>total_bucket := tb, buckets := (buckets s)[i := Bucket_clear (buckets s ! i)]\<rparr>) es (g + 1)"
proof -
  let ?K = "filter (kept s g) es" and ?I = "in_bucket s i"
  let ?s = "s\<lparr>total_bucket := tally (filter (\<lambda>e. \<not> ?I e) ?K), buckets := (buckets s)[i := Bucket_clear (buckets s ! i)]\<rparr>"
  have n: "0 < size_of s" using ok(1) by (simp add: series_ok_def)
  then have i: "i < length (buckets s)" by (simp add: i_def size_of_def nat_less_iff)
  have le: "\<forall>e \<in> set es. cell (size_of s) (duration s) (time_of e) \<le> g" using rep by (simp add: represents_def)
  have K: "filter (kept s (g + 1)) es = filter (\<lambda>e. \<not> ?I e) ?K"
    using le kept_step [OF n] by (auto simp: i_def intro!: filter_cong)
  have sh: "same_shape s ?s" by (simp add: same_shape_def)
  have "buckets ?s ! j = tally (filter (in_bucket ?s j) (filter (kept ?s (g + 1)) es))"
    if j: "j < length (buckets s)" for j
  proof (cases "j = i")
    case True
    then show ?thesis
      unfolding same_shape_simps [OF sh] K using i by (simp add: Bucket_clear_init flip: tally_Nil)
  next
    case False
    then have "in_bucket s j e \<Longrightarrow> \<not> ?I e" for e by (simp add: in_bucket_def)
    then have "filter (in_bucket s j) (filter (\<lambda>e. \<not> ?I e) ?K) = filter (in_bucket s j) ?K"
      by (auto intro!: filter_cong)
    then show ?thesis
      unfolding same_shape_simps [OF sh] K using False j rep by (simp add: represents_def)
  qed
  then have "represents ?s es (g + 1)"
    unfolding represents_def same_shape_simps [OF sh] K using le by (auto intro: order_trans)
  moreover have "Bucket_minus bi t (total_bucket s) (buckets s ! i) = Some (tally (filter (\<lambda>e. \<not> ?I e) ?K))"
    using rep i Bucket_minus_tally [OF ok(2,3)] by (simp add: represents_def)
  ultimately show ?thesis by blast
qed

lemma next_index:
  assumes "0 < size_of s"
  shows "(if nat (g mod size_of s) + 1 \<ge> length (buckets s) then 0 else nat (g mod size_of s) + 1) =
    nat ((g + 1) mod size_of s)"
proof -
  let ?n = "size_of s" and ?r = "g mod size_of s"
  have r: "0 \<le> ?r" "?r < ?n" using assms by simp_all
  have "(g + 1) mod ?n = (?r + 1) mod ?n" by (simp add: mod_simps)
  also have "\<dots> = (if ?r + 1 = ?n then 0 else ?r + 1)" using r by (simp add: mod_pos_pos_trivial)
  finally show ?thesis using r by (auto simp: size_of_def)
qed

lemma kept_fits:
  assumes "fits t (filter (kept s g) es)" and "g \<le> h"
  shows "fits t (filter (kept s h) es)"
proof -
  have "filter (kept s h) es = filter (kept s h) (filter (kept s g) es)"
    using assms(2) by (auto simp: kept_def intro!: filter_cong)
  then show ?thesis using fits_filter [OF assms(1), of "kept s h"] by simp
qed

lemma rotate_represents:
  assumes "series_ok s" "value_type t" "fits t (filter (kept s g) es)" "represents s es g" and "int k < size_of s"
  shows "\<exists>s'. rotate bi t (nat ((g + int k) mod size_of s)) (nat (g mod size_of s)) s = Some s' \<and>
    represents s' es (g + int k) \<and> same_shape s s'"
  using assms
proof (induction k arbitrary: s g)
  case 0
  then show ?case by (subst rotate.simps) (simp add: same_shape_def)
next
  case (Suc k)
  let ?n = "size_of s" and ?i = "nat ((g + 1) mod size_of s)" and ?new = "nat ((g + int (Suc k)) mod size_of s)"
  have n: "0 < ?n" using Suc.prems(1) by (simp add: series_ok_def)
  have "g mod ?n \<noteq> (g + int (Suc k)) mod ?n"
    using mod_window_unique [of ?n g "g + int (Suc k)" "g + int (Suc k)"] n Suc.prems(5) by auto
  then have neq: "nat (g mod ?n) \<noteq> ?new" using n by (simp add: nat_eq_iff)
  obtain tb where tb: "Bucket_minus bi t (total_bucket s) (buckets s ! ?i) = Some tb"
    and rep: "represents (s\<lparr>total_bucket := tb, buckets := (buckets s)[?i := Bucket_clear (buckets s ! ?i)]\<rparr>) es (g + 1)"
    using rotate_step [OF Suc.prems(1-4)] by blast
  define s1 where "s1 = s\<lparr>total_bucket := tb, buckets := (buckets s)[?i := Bucket_clear (buckets s ! ?i)]\<rparr>"
  have sh: "same_shape s s1" by (simp add: same_shape_def s1_def)
  have i: "?i < length (buckets s)" using n by (simp add: size_of_def nat_less_iff)
  have "rotate bi t ?new (nat (g mod ?n)) s = rotate bi t ?new ?i s1"
    unfolding rotate.simps [of bi t ?new "nat (g mod ?n)" s] Let_def next_index [OF n]
    using neq i tb by (simp add: s1_def)
  moreover have "\<exists>s'. rotate bi t (nat ((g + 1 + int k) mod size_of s1)) (nat ((g + 1) mod size_of s1)) s1 = Some s' \<and>
      represents s' es (g + 1 + int k) \<and> same_shape s1 s'"
    using Suc.IH [of s1 "g + 1"] Suc.prems rep same_shape_simps [OF sh] kept_fits [OF Suc.prems(3), of "g + 1"]
    by (simp add: s1_def)
  ultimately show ?case
    using sh same_shape_simps(1) [OF sh] by (auto simp: add_ac same_shape_def)
qed

section \<open>Operations\<close>

abbreviation cell_of :: "series \<Rightarrow> int \<Rightarrow> int" where
  "cell_of s \<equiv> cell (size_of s) (duration s)"

lemma cell_start_bounds:
  assumes "series_ok s" and "time_ok (duration s) u"
  shows "0 \<le> cell_start (size_of s) (duration s) (cell_of s u)"
    and "cell_start (size_of s) (duration s) (cell_of s u) \<le> u"
proof -
  have b: "0 < size_of s" "0 < duration s" "0 \<le> u" using assms by (simp_all add: series_ok_def time_ok_def)
  then have "0 \<le> cell_of s u" by (simp add: cell_def pos_imp_zdiv_nonneg_iff)
  then have "0 \<le> cell_of s u * duration s" using b by simp
  then show "0 \<le> cell_start (size_of s) (duration s) (cell_of s u)"
    unfolding cell_start_def using b by (intro pos_imp_zdiv_nonneg_iff [THEN iffD2]) linarith+
  show "cell_start (size_of s) (duration s) (cell_of s u) \<le> u"
    using cell_start_le_iff [OF b(1,2)] by simp
qed

lemma represents_later:
  assumes "represents s es g" and "g + size_of s \<le> g'" and "0 < size_of s"
  shows "represents (clear_all s) es g'"
proof -
  have sh: "same_shape s (clear_all s)" by (simp add: same_shape_def clear_all_def)
  have le: "\<forall>e \<in> set es. cell_of s (time_of e) \<le> g" using assms(1) by (simp add: represents_def)
  then have "filter (kept s g') es = []" using assms(2) by (force simp: kept_def filter_empty_conv)
  then show ?thesis
    unfolding represents_def same_shape_simps [OF sh] using le assms(2,3)
    by (auto simp: clear_all_def Bucket_clear_init tally_Nil intro: order_trans)
qed

lemma represents_latest: "represents (s\<lparr>latestTime := u, firstTime := f\<rparr>) es g = represents s es g"
  "represents (s\<lparr>latestTime := u\<rparr>) es g = represents s es g"
  "represents (s\<lparr>firstTime := f\<rparr>) es g = represents s es g"
  by (simp_all add: represents_def size_of_def kept_def [abs_def] in_bucket_def [abs_def])

lemma series_ok_latest: "series_ok (s\<lparr>latestTime := u\<rparr>) = series_ok s" "series_ok (s\<lparr>firstTime := u\<rparr>) = series_ok s"
  by (simp_all add: series_ok_def size_of_def)

lemma updateBuckets_represents:
  assumes ok: "series_ok s" "value_type t" and f: "fits t (filter (kept s (cell_of s (latestTime s))) es)"
    and rep: "represents s es (cell_of s (latestTime s))"
    and times: "time_ok (duration s) (latestTime s)" "time_ok (duration s) now" "latestTime s < now"
  shows "\<exists>s'. updateBuckets bi t now s = Some (nat (cell_of s now mod size_of s), s') \<and>
    represents s' es (cell_of s now) \<and> same_shape (s\<lparr>latestTime := now\<rparr>) s'"
proof -
  let ?n = "size_of s" and ?D = "duration s"
  let ?c = "cell_of s (latestTime s)" and ?d = "cell_of s now" and ?s = "s\<lparr>latestTime := now\<rparr>"
  have b: "0 < ?n" "0 < ?D" "0 \<le> now" "latestTime s + ?D < 2 ^ 63"
    using ok(1) times by (simp_all add: series_ok_def time_ok_def)
  have cd: "?c \<le> ?d" using times(3) b by (simp add: cell_mono)
  have nxt: "now < cell_start ?n ?D (?c + 1) \<longleftrightarrow> ?d = ?c"
    using cell_start_le_iff [OF b(1,2), of "?c + 1" now] cd by linarith
  have wrap: "cell_start ?n ?D ?c + ?D \<le> now \<longleftrightarrow> ?c + ?n \<le> ?d"
    using cell_start_le_iff [OF b(1,2), of "?c + ?n" now] cell_start_shift [OF b(1), of ?D ?c 1] by simp
  have ar: "arith int64 (cell_start ?n ?D ?c + ?D) = Some (cell_start ?n ?D ?c + ?D)"
    by (intro int64_arith; use cell_start_bounds [OF ok(1) times(1)] b in linarith)
  have s: "size_of ?s = ?n" "series_ok ?s" "represents ?s es ?c" "fits t (filter (kept ?s ?c) es)"
    using ok(1) rep f by (simp_all add: series_ok_latest represents_latest size_of_def kept_def [abs_def])
  note info = getBucketInfo_eq [OF ok(1) times(1)]
  consider "?d = ?c" | "?d \<noteq> ?c" "?c + ?n \<le> ?d" | "?d \<noteq> ?c" "?d < ?c + ?n" by linarith
  then show ?thesis
  proof cases
    case 1
    then show ?thesis
      using info nxt s by (simp add: updateBuckets_def same_shape_def)
  next
    case 2
    have sh: "same_shape ?s (clear_all ?s)" by (simp add: same_shape_def clear_all_def)
    have "getBucketIdx (clear_all ?s) now = Some (nat (?d mod ?n))"
      using getBucketIdx_eq [of "clear_all ?s" now] s b same_shape_simps [OF sh] by simp
    moreover have "represents (clear_all ?s) es ?d"
      using represents_later [OF s(3)] 2 s b by simp
    ultimately show ?thesis
      using info nxt wrap ar 2 sh by (simp add: updateBuckets_def)
  next
    case 3
    define k where "k = nat (?d - ?c)"
    have k: "?c + int k = ?d" "int k < ?n" using 3 cd by (simp_all add: k_def)
    have "getBucketIdx ?s now = Some (nat (?d mod ?n))"
      using getBucketIdx_eq [of ?s now] s b by simp
    moreover obtain s' where "rotate bi t (nat (?d mod ?n)) (nat (?c mod ?n)) ?s = Some s'"
        "represents s' es ?d" "same_shape ?s s'"
      using rotate_represents [OF s(2) ok(2) s(4,3), of k bi] k s by auto
    ultimately show ?thesis
      using info nxt wrap ar 3 by (simp add: updateBuckets_def)
  qed
qed

lemma add_to_represents:
  assumes ok: "series_ok s" "value_type t" and f1: "fits t (filter (kept s g) es @ [e])" and rep: "represents s es g"
    and e: "g - size_of s < cell_of s (time_of e)" "cell_of s (time_of e) \<le> g"
  shows "\<exists>s'. add_to bi t (val_of e) (num_of e) (nat (cell_of s (time_of e) mod size_of s)) s = Some s' \<and>
    represents s' (es @ [e]) g \<and> same_shape s s'"
proof -
  let ?i = "nat (cell_of s (time_of e) mod size_of s)"
  let ?K = "filter (kept s g) es"
  have n: "0 < size_of s" using ok(1) by (simp add: series_ok_def)
  then have i: "?i < length (buckets s)" by (simp add: size_of_def nat_less_iff)
  have K: "filter (kept s g) (es @ [e]) = ?K @ [e]" using e by (simp add: kept_def)
  have I: "in_bucket s j e \<longleftrightarrow> j = ?i" for j using n by (auto simp: in_bucket_def)
  have f2: "fits t (filter (in_bucket s ?i) ?K @ [e])"
    using fits_filter [OF f1, of "in_bucket s ?i"] I by simp
  define s' where "s' = s\<lparr>total_bucket := tally (?K @ [e]),
    buckets := (buckets s)[?i := tally (filter (in_bucket s ?i) ?K @ [e])]\<rparr>"
  have sh: "same_shape s s'" by (simp add: same_shape_def s'_def)
  have "add_to bi t (val_of e) (num_of e) ?i s = Some s'"
    using rep i Bucket_add_tally [OF ok(2) f1, of bi] Bucket_add_tally [OF ok(2) f2, of bi]
    by (simp add: add_to_def represents_def s'_def)
  moreover have "represents s' (es @ [e]) g"
    unfolding represents_def same_shape_simps [OF sh] K using rep e i I
    by (auto simp: represents_def s'_def nth_list_update)
  ultimately show ?thesis using sh by blast
qed

section \<open>Reference\<close>

text \<open>
  The reference remembers the latest time, if there was any, and every sample it has accepted.
  A sample is alive while its cell is among the last \<open>n\<close>; a duration of zero keeps everything.
\<close>

type_synonym reference = "int option \<times> sample list"

definition alive :: "int \<Rightarrow> int \<Rightarrow> int \<Rightarrow> sample \<Rightarrow> bool" where
  "alive n D latest e \<longleftrightarrow> D = 0 \<or> cell n D latest - n < cell n D (time_of e)"

fun ref_add :: "int \<Rightarrow> int \<Rightarrow> sample \<Rightarrow> reference \<Rightarrow> bool \<times> reference" where
  "ref_add n D e (None, es) = (True, (Some (time_of e), es @ [e]))"
| "ref_add n D e (Some l, es) =
     (if l < time_of e then (True, (Some (time_of e), es @ [e]))
      else if alive n D l e then (True, (Some l, es @ [e]))
      else (False, (Some l, es)))"

fun ref_update :: "int \<Rightarrow> reference \<Rightarrow> reference" where
  "ref_update now (None, es) = (Some now, es)"
| "ref_update now (Some l, es) = (Some (max l now), es)"

fun ref_alive :: "int \<Rightarrow> int \<Rightarrow> reference \<Rightarrow> sample list" where
  "ref_alive n D (None, es) = []"
| "ref_alive n D (Some l, es) = filter (alive n D l) es"

datatype series_op = Add sample | Update int | Clear

fun series_step :: "bool \<Rightarrow> ctype \<Rightarrow> series_op \<Rightarrow> series \<Rightarrow> (bool \<times> series) option" where
  "series_step bi t (Add e) s = addValueAggregated bi t (time_of e) (val_of e) (num_of e) s"
| "series_step bi t (Update now) s = do { (_, s) \<leftarrow> update bi t now s; Some (True, s) }"
| "series_step bi t Clear s = Some (True, clear s)"

fun ref_step :: "int \<Rightarrow> int \<Rightarrow> series_op \<Rightarrow> reference \<Rightarrow> bool \<times> reference" where
  "ref_step n D (Add e) r = ref_add n D e r"
| "ref_step n D (Update now) r = (True, ref_update now r)"
| "ref_step n D Clear r = (True, (None, []))"

fun series_run :: "bool \<Rightarrow> ctype \<Rightarrow> series_op list \<Rightarrow> series \<Rightarrow> (bool list \<times> series) option" where
  "series_run bi t [] s = Some ([], s)"
| "series_run bi t (op # ops) s =
     do { (b, s) \<leftarrow> series_step bi t op s; (bs, s) \<leftarrow> series_run bi t ops s; Some (b # bs, s) }"

fun ref_run :: "int \<Rightarrow> int \<Rightarrow> series_op list \<Rightarrow> reference \<Rightarrow> bool list \<times> reference" where
  "ref_run n D [] r = ([], r)"
| "ref_run n D (op # ops) r =
     (let (b, r) = ref_step n D op r; (bs, r) = ref_run n D ops r in (b # bs, r))"

text \<open>
  After every operation the samples in the window add up within the type of the values, so that no sum is
  clamped. Nothing is asked of samples that have expired or were refused.
\<close>

fun window_fits :: "ctype \<Rightarrow> int \<Rightarrow> int \<Rightarrow> series_op list \<Rightarrow> reference \<Rightarrow> bool" where
  "window_fits t n D [] r = True"
| "window_fits t n D (op # ops) r =
     (let r = snd (ref_step n D op r) in fits t (ref_alive n D r) \<and> window_fits t n D ops r)"

fun op_time_ok :: "int \<Rightarrow> series_op \<Rightarrow> bool" where
  "op_time_ok D (Add e) = time_ok D (time_of e)"
| "op_time_ok D (Update now) = time_ok D now"
| "op_time_ok D Clear = True"

text \<open>The series agrees with the reference.\<close>

definition agrees :: "series \<Rightarrow> reference \<Rightarrow> bool" where
  "agrees s r \<longleftrightarrow> (case r of
       (None, es) \<Rightarrow> es = [] \<and> series_empty s \<and> latestTime s = 0 \<and> total_bucket s = Bucket_init \<and>
         (\<forall>b \<in> set (buckets s). b = Bucket_init)
     | (Some l, es) \<Rightarrow> \<not> series_empty s \<and> latestTime s = l \<and> time_ok (duration s) l \<and>
         (if duration s = 0 then total_bucket s = tally es else represents s es (cell_of s l)))"

definition shape_ok :: "series \<Rightarrow> bool" where
  "shape_ok s \<longleftrightarrow> duration s = 0 \<or> series_ok s"

lemma represents_empty:
  "total_bucket s = Bucket_init \<Longrightarrow> \<forall>b \<in> set (buckets s). b = Bucket_init \<Longrightarrow> represents s [] g"
  by (simp add: represents_def tally_Nil)

lemma agrees_total:
  assumes "agrees s r"
  shows "total_bucket s = tally (ref_alive (size_of s) (duration s) r)"
proof (cases "fst r")
  case None
  then show ?thesis using assms by (cases r) (simp add: agrees_def tally_Nil)
next
  case (Some l)
  then show ?thesis
    using assms
    by (cases r) (auto simp: agrees_def represents_def alive_def [abs_def] kept_def [abs_def] split: if_splits)
qed

lemma add_agrees_alltime:
  assumes "duration s = 0" "value_type t" and "agrees s r" and "fits t (ref_alive n 0 (snd (ref_add n 0 e r)))"
    and "time_ok 0 (time_of e)"
  shows "\<exists>s'. addValueAggregated bi t (time_of e) (val_of e) (num_of e) s =
      Some (fst (ref_add n 0 e r), s') \<and> agrees s' (snd (ref_add n 0 e r)) \<and>
      duration s' = duration s \<and> length (buckets s') = length (buckets s)"
proof (cases "fst r")
  case None
  then have "Bucket_add bi t (val_of e) (num_of e) (total_bucket s) = Some (tally [e])"
    using assms Bucket_add_tally [of t "[]" e bi] by (cases r) (simp add: agrees_def tally_Nil alive_def)
  then show ?thesis
    using None assms
    by (cases r) (auto simp: addValueAggregated_def isAllTime_def agrees_def series_empty_def Let_def)
next
  case (Some l)
  then obtain es where r: "r = (Some l, es)" by (cases r) simp
  then have "Bucket_add bi t (val_of e) (num_of e) (total_bucket s) = Some (tally (es @ [e]))"
    using assms Bucket_add_tally [of t es e bi] by (simp add: agrees_def alive_def [abs_def] split: if_splits)
  then show ?thesis
    using r assms
    by (auto simp: addValueAggregated_def isAllTime_def agrees_def series_empty_def Let_def alive_def)
qed

lemma agrees_Some:
  assumes "duration s \<noteq> 0"
  shows "agrees s (Some l, es) \<longleftrightarrow> \<not> series_empty s \<and> latestTime s = l \<and> time_ok (duration s) l \<and>
    represents s es (cell_of s l)"
  using assms by (simp add: agrees_def)

lemma same_shape_agrees:
  assumes "same_shape s s'" and "duration s \<noteq> 0" and "represents s' es (cell_of s (latestTime s))"
    and "\<not> series_empty s" and "time_ok (duration s) (latestTime s)"
  shows "agrees s' (Some (latestTime s), es)" and "duration s' = duration s"
    and "length (buckets s') = length (buckets s)"
  using assms same_shape_simps [OF assms(1)] by (auto simp: agrees_Some same_shape_def series_empty_def)

text \<open>A sample is refused exactly when it is not alive.\<close>

lemma earliest_eq:
  assumes "series_ok s" and "time_ok (duration s) (latestTime s)"
  shows "getEarliestTimeNonEmpty s =
    Some (cell_start (size_of s) (duration s) (cell_of s (latestTime s) + 1 - size_of s))"
proof -
  let ?n = "size_of s" and ?D = "duration s" and ?c = "cell_of s (latestTime s)"
  have b: "0 < ?n" "0 < ?D" "latestTime s + ?D < 2 ^ 63" "0 \<le> latestTime s"
    using assms by (simp_all add: series_ok_def time_ok_def)
  have sh: "cell_start ?n ?D (?c + 1 - ?n) = cell_start ?n ?D (?c + 1) - ?D"
    using cell_start_shift [OF b(1), of ?D "?c + 1" "-1"] by simp
  have "\<not> ?c + 1 \<le> ?c" by simp
  then have low: "latestTime s < cell_start ?n ?D (?c + 1)"
    using cell_start_le_iff [OF b(1,2), of "?c + 1" "latestTime s"] by linarith
  have "?c + 1 - ?n \<le> ?c" using b by simp
  then have "cell_start ?n ?D (?c + 1 - ?n) \<le> latestTime s"
    using cell_start_le_iff [OF b(1,2)] by blast
  then have "arith int64 (cell_start ?n ?D (?c + 1) - ?D) = Some (cell_start ?n ?D (?c + 1) - ?D)"
    by (intro int64_arith; use low b sh in linarith)
  then show ?thesis
    using getBucketInfo_eq [OF assms] sh by (simp add: getEarliestTimeNonEmpty_def)
qed

lemma series_ok_pos:
  "series_ok s \<Longrightarrow> 0 < size_of s" "series_ok s \<Longrightarrow> 0 < duration s" "series_ok s \<Longrightarrow> \<not> isAllTime s"
  "series_ok s \<Longrightarrow> duration s \<noteq> 0"
  by (auto simp: series_ok_def isAllTime_def)

text \<open>Adding a sample to the bucket of a live cell.\<close>

lemma kept_alive: "duration s \<noteq> 0 \<Longrightarrow> kept s (cell_of s l) = alive (size_of s) (duration s) l"
  by (simp add: kept_def [abs_def] alive_def [abs_def])

lemma add_to_agrees:
  assumes ok: "series_ok s" "value_type t"
    and f: "fits t (filter (alive (size_of s) (duration s) (latestTime s)) es @ [e])"
    and s: "represents s es (cell_of s (latestTime s))" "\<not> series_empty s" "time_ok (duration s) (latestTime s)"
    and e: "time_of e \<le> latestTime s" "alive (size_of s) (duration s) (latestTime s) e"
  shows "\<exists>s'. add_to bi t (val_of e) (num_of e) (nat (cell_of s (time_of e) mod size_of s)) s = Some s' \<and>
    agrees s' (Some (latestTime s), es @ [e]) \<and> duration s' = duration s \<and>
    length (buckets s') = length (buckets s)"
proof -
  note pos = series_ok_pos [OF ok(1)]
  have "cell_of s (time_of e) \<le> cell_of s (latestTime s)" using e(1) pos by (simp add: cell_mono)
  moreover have "cell_of s (latestTime s) - size_of s < cell_of s (time_of e)"
    using e(2) pos by (simp add: alive_def)
  ultimately obtain s' where
    "add_to bi t (val_of e) (num_of e) (nat (cell_of s (time_of e) mod size_of s)) s = Some s'"
    "represents s' (es @ [e]) (cell_of s (latestTime s))" "same_shape s s'"
    using add_to_represents [OF ok f [folded kept_alive [OF pos(4)]] s(1), of bi] by blast
  then show ?thesis using same_shape_agrees [of s s' "es @ [e]"] pos s by blast
qed

lemma alive_latest: "0 < n \<Longrightarrow> alive n D (time_of e) e"
  by (simp add: alive_def)

lemma add_first:
  assumes ok: "series_ok s" "value_type t" and agr: "agrees s (None, es)" and f: "fits t [e]"
    and e: "time_ok (duration s) (time_of e)"
  shows "\<exists>s'. addValueAggregated bi t (time_of e) (val_of e) (num_of e) s = Some (True, s') \<and>
    agrees s' (Some (time_of e), [e]) \<and> duration s' = duration s \<and> length (buckets s') = length (buckets s)"
proof -
  let ?s = "s\<lparr>firstTime := time_of e, latestTime := time_of e\<rparr>"
  note pos = series_ok_pos [OF ok(1)]
  have s: "size_of ?s = size_of s" "series_ok ?s" "represents ?s [] (cell_of s (time_of e))"
    using agr ok(1) by (auto simp: agrees_def size_of_def series_ok_def intro!: represents_empty)
  have "getBucketIdx ?s (time_of e) = Some (nat (cell_of s (time_of e) mod size_of s))"
    using getBucketIdx_eq [OF s(2)] s e by (simp add: time_ok_def)
  moreover obtain s' where "add_to bi t (val_of e) (num_of e) (nat (cell_of s (time_of e) mod size_of s)) ?s = Some s'"
    "agrees s' (Some (time_of e), [e])" "duration s' = duration s" "length (buckets s') = length (buckets s)"
    using add_to_agrees [OF s(2) ok(2), of "[]" e bi] s f e pos alive_latest
    by (auto simp: series_empty_def)
  ultimately show ?thesis
    using agr pos by (simp add: addValueAggregated_def agrees_def)
qed

lemma add_newer:
  assumes ok: "series_ok s" "value_type t" and agr: "agrees s (Some l, es)"
    and f: "fits t (filter (alive (size_of s) (duration s) l) es)"
      "fits t (filter (alive (size_of s) (duration s) (time_of e)) es @ [e])"
    and e: "time_ok (duration s) (time_of e)" "l < time_of e"
  shows "\<exists>s'. addValueAggregated bi t (time_of e) (val_of e) (num_of e) s = Some (True, s') \<and>
    agrees s' (Some (time_of e), es @ [e]) \<and> duration s' = duration s \<and> length (buckets s') = length (buckets s)"
proof -
  note pos = series_ok_pos [OF ok(1)]
  have a: "\<not> series_empty s" "latestTime s = l" "time_ok (duration s) l" "represents s es (cell_of s l)"
    using agr pos by (simp_all add: agrees_Some)
  obtain s1 where s1: "updateBuckets bi t (time_of e) s = Some (nat (cell_of s (time_of e) mod size_of s), s1)"
    "represents s1 es (cell_of s (time_of e))" "same_shape (s\<lparr>latestTime := time_of e\<rparr>) s1"
    using updateBuckets_represents [OF ok, of es "time_of e" bi] f(1) kept_alive [of s l] a e pos by auto
  have s1': "size_of s1 = size_of s" "duration s1 = duration s" "series_ok s1" "latestTime s1 = time_of e"
    "firstTime s1 = firstTime s" "length (buckets s1) = length (buckets s)"
    using same_shape_simps [OF s1(3)] s1(3) ok(1)
    by (simp_all add: series_ok_latest size_of_def same_shape_def)
  obtain s' where "add_to bi t (val_of e) (num_of e) (nat (cell_of s (time_of e) mod size_of s)) s1 = Some s'"
    "agrees s' (Some (time_of e), es @ [e])" "duration s' = duration s" "length (buckets s') = length (buckets s)"
    using add_to_agrees [OF s1'(3) ok(2), of es e bi] f(2) s1(2) s1' e a pos alive_latest
    by (auto simp: series_empty_def)
  then show ?thesis
    using s1(1) a pos e by (simp add: addValueAggregated_def)
qed

lemma add_older:
  assumes ok: "series_ok s" "value_type t" and agr: "agrees s (Some l, es)"
    and f: "fits t (filter (alive (size_of s) (duration s) l) es @ [e])"
    and e: "time_ok (duration s) (time_of e)" "time_of e \<le> l" "alive (size_of s) (duration s) l e"
  shows "\<exists>s'. addValueAggregated bi t (time_of e) (val_of e) (num_of e) s = Some (True, s') \<and>
    agrees s' (Some l, es @ [e]) \<and> duration s' = duration s \<and> length (buckets s') = length (buckets s)"
proof -
  note pos = series_ok_pos [OF ok(1)]
  have a: "\<not> series_empty s" "latestTime s = l" "time_ok (duration s) l" "represents s es (cell_of s l)"
    using agr pos by (simp_all add: agrees_Some)
  obtain s' where s': "add_to bi t (val_of e) (num_of e) (nat (cell_of s (time_of e) mod size_of s)) s = Some s'"
    "agrees s' (Some l, es @ [e])" "duration s' = duration s" "length (buckets s') = length (buckets s)"
    using add_to_agrees [OF ok, of es e bi] f a e by auto
  have idx: "getBucketIdx s (time_of e) = Some (nat (cell_of s (time_of e) mod size_of s))"
    using getBucketIdx_eq [OF ok(1)] e(1) by (simp add: time_ok_def)
  have "cell_start (size_of s) (duration s) (cell_of s l + 1 - size_of s) \<le> time_of e"
    unfolding cell_start_le_iff [OF pos(1,2)] using e(3) pos by (simp add: alive_def)
  then show ?thesis
    using s' idx a pos e earliest_eq [OF ok(1)]
    by (cases "time_of e = l") (simp_all add: addValueAggregated_def)
qed

lemma add_refused:
  assumes ok: "series_ok s" and agr: "agrees s (Some l, es)"
    and e: "time_of e \<le> l" "\<not> alive (size_of s) (duration s) l e"
  shows "addValueAggregated bi t (time_of e) (val_of e) (num_of e) s = Some (False, s)"
proof -
  note pos = series_ok_pos [OF ok(1)]
  have a: "\<not> series_empty s" "latestTime s = l" "time_ok (duration s) l"
    using agr pos by (simp_all add: agrees_Some)
  have "\<not> cell_start (size_of s) (duration s) (cell_of s l + 1 - size_of s) \<le> time_of e"
    unfolding cell_start_le_iff [OF pos(1,2)] using e(2) pos by (simp add: alive_def)
  moreover have "time_of e \<noteq> l" using e(2) pos alive_latest [of "size_of s" "duration s" e] by auto
  ultimately show ?thesis
    using a pos e earliest_eq [OF ok] by (simp add: addValueAggregated_def)
qed

lemma add_agrees:
  assumes ok: "series_ok s" "value_type t" and agr: "agrees s r"
    and f: "fits t (ref_alive (size_of s) (duration s) r)"
      "fits t (ref_alive (size_of s) (duration s) (snd (ref_add (size_of s) (duration s) e r)))"
    and e: "time_ok (duration s) (time_of e)"
  shows "\<exists>s'. addValueAggregated bi t (time_of e) (val_of e) (num_of e) s =
      Some (fst (ref_add (size_of s) (duration s) e r), s') \<and>
      agrees s' (snd (ref_add (size_of s) (duration s) e r)) \<and>
      duration s' = duration s \<and> length (buckets s') = length (buckets s)"
proof -
  obtain L es where r: "r = (L, es)" by (cases r)
  show ?thesis
  proof (cases L)
    case None
    then have "es = []" using agr r by (simp add: agrees_def)
    then show ?thesis
      using add_first [OF ok _ _ e, of es bi] agr f r None alive_latest series_ok_pos [OF ok(1)] by simp
  next
    case (Some l)
    then show ?thesis
      using add_newer [OF ok _ _ _ e, of l es bi] add_older [OF ok _ _ e, of l es bi]
        add_refused [OF ok(1), of l es e bi t] agr f r alive_latest [of "size_of s" "duration s" e]
        series_ok_pos [OF ok(1)]
      by (cases "l < time_of e"; cases "alive (size_of s) (duration s) l e") simp_all
  qed
qed

lemma update_agrees:
  assumes ok: "shape_ok s" "value_type t" and agr: "agrees s r" and f: "fits t (ref_alive (size_of s) (duration s) r)"
    and now: "time_ok (duration s) now"
  shows "\<exists>i s'. update bi t now s = Some (i, s') \<and> agrees s' (ref_update now r) \<and>
      duration s' = duration s \<and> length (buckets s') = length (buckets s)"
proof -
  obtain L es where r: "r = (L, es)" by (cases r)
  let ?s = "if series_empty s then s\<lparr>firstTime := now\<rparr> else s"
  have now0: "0 \<le> now" using now by (simp add: time_ok_def)
  show ?thesis
  proof (cases "duration s = 0")
    case True
    then show ?thesis
      using agr r now0 now
      by (cases L) (auto simp: update_def isAllTime_def agrees_def series_empty_def tally_Nil max_def)
  next
    case D: False
    then have sok: "series_ok s" using ok(1) by (simp add: shape_ok_def)
    note pos = series_ok_pos [OF sok]
    have s: "series_ok ?s" "duration ?s = duration s" "latestTime ?s = latestTime s"
      "length (buckets ?s) = length (buckets s)" "size_of ?s = size_of s" "\<not> isAllTime ?s"
      using sok pos by (simp_all add: series_ok_latest size_of_def isAllTime_def)
    have rep: "represents ?s es (cell_of s (latestTime s))" and lat: "time_ok (duration s) (latestTime s)"
      using agr r D now
      by (cases L; auto simp: agrees_def represents_latest time_ok_def intro!: represents_empty)+
    have fk: "fits t (filter (kept ?s (cell_of s (latestTime s))) es)"
      using agr r D f kept_alive [of ?s "latestTime s"] s by (cases L) (auto simp: agrees_def fits_Nil)
    have new: "\<not> series_empty (?s\<lparr>latestTime := max (latestTime s) now\<rparr>)"
      by (auto simp: series_empty_def)
    have ref: "ref_update now r = (Some (max (latestTime s) now), es)"
      using agr r D now0 by (cases L) (auto simp: agrees_def)
    show ?thesis
    proof (cases "now \<le> latestTime s")
      case True
      then have "agrees ?s (Some (latestTime s), es)"
        using s rep lat new D by (auto simp: agrees_Some series_empty_def size_of_def)
      then show ?thesis
        using True s ref getBucketIdx_eq [OF s(1)] lat by (simp add: update_def Let_def time_ok_def max_def)
    next
      case False
      then obtain s' where s': "updateBuckets bi t now ?s = Some (nat (cell_of s now mod size_of s), s')"
        "represents s' es (cell_of s now)" "same_shape (?s\<lparr>latestTime := now\<rparr>) s'"
        using updateBuckets_represents [OF s(1) ok(2), of es now bi] s rep lat now fk by auto
      then have "agrees s' (Some now, es)" "duration s' = duration s" "length (buckets s') = length (buckets s)"
        using same_shape_agrees [OF s'(3)] s'(2) s new D now False by (simp_all add: size_of_def max_def)
      then show ?thesis
        using False s s'(1) ref by (simp add: update_def Let_def max_def)
    qed
  qed
qed

lemma clear_agrees:
  "agrees (clear s) (None, []) \<and> duration (clear s) = duration s \<and> length (buckets (clear s)) = length (buckets s)"
  by (auto simp: agrees_def clear_def clear_all_def series_empty_def Bucket_clear_init)


section \<open>Histories\<close>

lemma step_agrees:
  assumes ok: "shape_ok s" "value_type t" and agr: "agrees s r"
    and f: "fits t (ref_alive n D r)" "fits t (ref_alive n D (snd (ref_step n D op r)))"
    and op: "op_time_ok (duration s) op" and n: "n = size_of s" "D = duration s"
  shows "\<exists>s'. series_step bi t op s = Some (fst (ref_step n D op r), s') \<and>
    agrees s' (snd (ref_step n D op r)) \<and> shape_ok s' \<and> size_of s' = n \<and> duration s' = D"
proof -
  have sh: "shape_ok s'" "size_of s' = size_of s"
    if "duration s' = duration s" "length (buckets s') = length (buckets s)" for s'
    using ok(1) that by (simp_all add: shape_ok_def series_ok_def size_of_def)
  show ?thesis
  proof (cases op)
    case (Add e)
    have "\<exists>s'. addValueAggregated bi t (time_of e) (val_of e) (num_of e) s = Some (fst (ref_add n D e r), s') \<and>
        agrees s' (snd (ref_add n D e r)) \<and> duration s' = duration s \<and> length (buckets s') = length (buckets s)"
    proof (cases "duration s = 0")
      case True
      then show ?thesis
        using add_agrees_alltime [of s t r n e bi] ok agr f op n Add by simp
    next
      case False
      then show ?thesis
        using add_agrees [of s t r e bi] ok agr f op n Add by (simp add: shape_ok_def)
    qed
    then obtain s' where "addValueAggregated bi t (time_of e) (val_of e) (num_of e) s =
        Some (fst (ref_add n D e r), s')" "agrees s' (snd (ref_add n D e r))"
      "duration s' = duration s" "length (buckets s') = length (buckets s)" by blast
    then show ?thesis using Add n sh [of s'] by simp
  next
    case (Update now)
    then have "fits t (ref_alive (size_of s) (duration s) r)" "time_ok (duration s) now" using f op n by simp_all
    then obtain i s' where "update bi t now s = Some (i, s')" "agrees s' (ref_update now r)"
      "duration s' = duration s" "length (buckets s') = length (buckets s)"
      using update_agrees [OF ok agr] by blast
    then show ?thesis using Update n sh [of s'] by simp
  next
    case Clear
    then show ?thesis using clear_agrees [of s] n sh [of "clear s"] by simp
  qed
qed

lemma run_agrees:
  assumes "shape_ok s" "value_type t" and "agrees s r" and "fits t (ref_alive n D r)" "window_fits t n D ops r"
    and "\<forall>op \<in> set ops. op_time_ok D op" and "size_of s = n" "duration s = D"
  shows "\<exists>s'. series_run bi t ops s = Some (fst (ref_run n D ops r), s') \<and>
    agrees s' (snd (ref_run n D ops r)) \<and> shape_ok s' \<and> size_of s' = n \<and> duration s' = D"
  using assms
proof (induction ops arbitrary: s r)
  case Nil
  then show ?case by simp
next
  case (Cons op ops)
  let ?r = "snd (ref_step n D op r)"
  have f: "fits t (ref_alive n D ?r)" "window_fits t n D ops ?r" using Cons.prems(5) by (simp_all add: Let_def)
  have ops: "op_time_ok (duration s) op" "\<forall>op \<in> set ops. op_time_ok D op" using Cons.prems(6,8) by simp_all
  obtain s1 where s1: "series_step bi t op s = Some (fst (ref_step n D op r), s1)"
    "agrees s1 ?r" "shape_ok s1" "size_of s1 = n" "duration s1 = D"
    using step_agrees [OF Cons.prems(1-4) f(1) ops(1) Cons.prems(7,8) [symmetric]] by blast
  obtain s' where "series_run bi t ops s1 = Some (fst (ref_run n D ops ?r), s')"
    "agrees s' (snd (ref_run n D ops ?r))" "shape_ok s'" "size_of s' = n" "duration s' = D"
    using Cons.IH [OF s1(3) Cons.prems(2) s1(2) f ops(2) s1(4,5)] by blast
  then show ?case using s1(1) by (simp add: Let_def split_beta)
qed

lemma run_fits:
  "fits t (ref_alive n D r) \<Longrightarrow> window_fits t n D ops r \<Longrightarrow> fits t (ref_alive n D (snd (ref_run n D ops r)))"
  by (induction ops arbitrary: r) (auto simp: Let_def split_beta)

text \<open>The constructor caps the number of buckets by the duration.\<close>

lemma init_agrees: "agrees (BucketedTimeSeries_init nB D) (None, [])"
  by (simp add: agrees_def BucketedTimeSeries_init_def series_empty_def)

lemma init_size:
  assumes "0 \<le> D" "D < 2 ^ 63"
  shows "size_of (BucketedTimeSeries_init nB D) = (if D = 0 then 0 else min (int nB) D)"
    and "duration (BucketedTimeSeries_init nB D) = D"
  using assms uint64_cast [of D] by (auto simp: size_of_def BucketedTimeSeries_init_def)

definition config_ok :: "nat \<Rightarrow> int \<Rightarrow> bool" where
  "config_ok nB D \<longleftrightarrow> 0 \<le> D \<and> D < 2 ^ 63 \<and> (0 < D \<longrightarrow> 0 < nB \<and> (D + 1) * min (int nB) D < 2 ^ 63)"

lemma init_shape: "config_ok nB D \<Longrightarrow> shape_ok (BucketedTimeSeries_init nB D)"
  using init_size [of D nB] by (auto simp: config_ok_def shape_ok_def series_ok_def algebra_simps)


lemma init_run:
  assumes "value_type t" and "config_ok nB D" and "\<forall>op \<in> set ops. op_time_ok D op"
    and "n = (if D = 0 then 0 else min (int nB) D)" and "window_fits t n D ops (None, [])"
  shows "\<exists>s. series_run bi t ops (BucketedTimeSeries_init nB D) = Some (fst (ref_run n D ops (None, [])), s) \<and>
    agrees s (snd (ref_run n D ops (None, []))) \<and> shape_ok s \<and> size_of s = n \<and> duration s = D"
proof -
  have "0 \<le> D" "D < 2 ^ 63" using assms(2) by (simp_all add: config_ok_def)
  note size = init_size [OF this, of nB]
  have "fits t (ref_alive n D (None, []))" using assms(1) by (simp add: fits_Nil)
  then show ?thesis
    by (rule run_agrees [OF init_shape [OF assms(2)] assms(1) init_agrees])
      (use assms(3-5) size in simp_all)
qed

section \<open>The window\<close>


lemma int64_value_type: "value_type int64"
  by (simp add: value_type_def integral_def int64_def)

lemma int8_value_type: "value_type int8"
  by (simp add: value_type_def integral_def int8_def)

lemmas window_eval = config_ok_def time_ok_def fits_def lim_defs int8_def int64_def uint64_def alive_def cell_def


end
