(* ===== verification/BucketedTimeSeries_Range.thy ===== *)
theory BucketedTimeSeries_Range
  imports BucketedTimeSeries_Correct
begin

text \<open>
  Reading a \<open>BucketedTimeSeries\<close>. The walk of \<open>forEachBucket\<close> over the circular array visits the last \<open>n\<close>
  cells from the oldest to the latest, with the exact first and next time of each; hence the sum and
  the count of a range of time that starts and stops at bucket boundaries are exact. Then what lies outside the
  conditions of these facts: samples at times before the epoch, and totals that are clamped.
\<close>

section \<open>The walk over the buckets\<close>

lemma cell_start_cell_le: "0 < n \<Longrightarrow> 0 < D \<Longrightarrow> k \<le> cell n D (cell_start n D k)"
  using cell_start_le_iff [of n D k "cell_start n D k"] by simp

lemma cell_start_mono: "0 < n \<Longrightarrow> 0 < D \<Longrightarrow> k \<le> j \<Longrightarrow> cell_start n D k \<le> cell_start n D j"
  using cell_start_le_iff [of n D k "cell_start n D j"] cell_start_cell_le [of n D j] by simp

text \<open>The first times of the cells in and next to the window are 64-bit times.\<close>

lemma window_bounds:
  assumes "series_ok s" and "time_ok (duration s) (latestTime s)"
    and "cell_of s (latestTime s) - size_of s \<le> g" "g \<le> cell_of s (latestTime s) + 1"
  shows "- (2 ^ 63) \<le> cell_start (size_of s) (duration s) g" and "cell_start (size_of s) (duration s) g < 2 ^ 63"
proof -
  let ?n = "size_of s" and ?D = "duration s" and ?c = "cell_of s (latestTime s)"
  have b: "0 < ?n" "0 < ?D" "latestTime s + ?D < 2 ^ 63" "0 \<le> latestTime s"
    using assms by (simp_all add: series_ok_def time_ok_def)
  note cb = cell_start_bounds [OF assms(1,2)]
  have "cell_start ?n ?D (?c - ?n) \<le> cell_start ?n ?D g" "cell_start ?n ?D g \<le> cell_start ?n ?D (?c + ?n)"
    using cell_start_mono [OF b(1,2)] assms(3,4) b(1) by simp_all
  moreover have "cell_start ?n ?D (?c - ?n) = cell_start ?n ?D ?c - ?D" "cell_start ?n ?D (?c + ?n) = cell_start ?n ?D ?c + ?D"
    using cell_start_shift [OF b(1), of ?D ?c "-1"] cell_start_shift [OF b(1), of ?D ?c 1] by simp_all
  ultimately show "- (2 ^ 63) \<le> cell_start ?n ?D g" "cell_start ?n ?D g < 2 ^ 63"
    using b cb by linarith+
qed

lemma cycle_bounds:
  assumes "series_ok s" and "time_ok (duration s) (latestTime s)"
    and "cell_of s (latestTime s) - size_of s \<le> g" "g \<le> cell_of s (latestTime s)"
  shows "- (2 ^ 63) \<le> g div size_of s * duration s" and "g div size_of s * duration s < 2 ^ 63"
proof -
  let ?n = "size_of s" and ?D = "duration s" and ?c = "cell_of s (latestTime s)"
  have b: "0 < ?n" "0 < ?D" "latestTime s + ?D < 2 ^ 63" "0 \<le> latestTime s"
    using assms by (simp_all add: series_ok_def time_ok_def)
  have q: "?c div ?n = latestTime s div ?D" using cell_div b by simp
  have "(?c - ?n) div ?n \<le> g div ?n" "g div ?n \<le> ?c div ?n" using assms(3,4) b by (simp_all add: zdiv_mono1)
  moreover have "(?c - ?n) div ?n = ?c div ?n - 1" using b div_add_self2 [of ?n "?c - ?n"] by simp
  ultimately have "(latestTime s div ?D - 1) * ?D \<le> g div ?n * ?D" "g div ?n * ?D \<le> latestTime s div ?D * ?D"
    using b q by (simp_all add: mult_right_mono)
  moreover have "0 \<le> latestTime s div ?D * ?D" "latestTime s div ?D * ?D \<le> latestTime s"
    using b div_mult_mod_eq [of "latestTime s" ?D] pos_mod_sign [OF b(2), of "latestTime s"]
    by (simp add: pos_imp_zdiv_nonneg_iff, linarith)
  ultimately show "- (2 ^ 63) \<le> g div ?n * ?D" "g div ?n * ?D < 2 ^ 63"
    unfolding left_diff_distrib using b by linarith+
qed

text \<open>One turn of the loop goes from cell \<open>h\<close> to the next.\<close>

lemma wrap_step:
  assumes "0 < size_of s"
  shows "nat (h mod size_of s) + 1 \<ge> length (buckets s) \<Longrightarrow>
      (h + 1) mod size_of s = 0 \<and> (h + 1) div size_of s = h div size_of s + 1"
    and "\<not> nat (h mod size_of s) + 1 \<ge> length (buckets s) \<Longrightarrow>
      (h + 1) mod size_of s = h mod size_of s + 1 \<and> (h + 1) div size_of s = h div size_of s"
proof -
  let ?n = "size_of s" and ?r = "h mod size_of s"
  have r: "0 \<le> ?r" "?r < ?n" using assms by simp_all
  have h: "?r + 1 + h div ?n * ?n = h + 1" using div_mult_mod_eq [of h ?n] by linarith
  have d: "(h + 1) div ?n = h div ?n + (?r + 1) div ?n" "(h + 1) mod ?n = (?r + 1) mod ?n"
    using div_mult_self1 [of ?n "?r + 1" "h div ?n"] mod_mult_self1 [of "?r + 1" "h div ?n" ?n] assms
    unfolding h by simp_all
  { assume "nat ?r + 1 \<ge> length (buckets s)"
    then have "?r + 1 = ?n" using r by (simp add: size_of_def)
    then show "(h + 1) mod ?n = 0 \<and> (h + 1) div ?n = h div ?n + 1" using d assms by simp }
  { assume "\<not> nat ?r + 1 \<ge> length (buckets s)"
    then have "?r + 1 < ?n" using r by (simp add: size_of_def)
    then show "(h + 1) mod ?n = ?r + 1 \<and> (h + 1) div ?n = h div ?n"
      using d r by (simp add: mod_pos_pos_trivial div_pos_pos_trivial) }
qed

lemma mod_scaled:
  assumes "series_ok s"
  shows "0 \<le> g mod size_of s * duration s" and "g mod size_of s * duration s + duration s \<le> duration s * size_of s"
proof -
  let ?n = "size_of s" and ?D = "duration s"
  have b: "0 < ?n" "0 < ?D" using assms by (simp_all add: series_ok_def)
  then have "g mod ?n \<le> ?n - 1" by simp
  then have "g mod ?n * ?D \<le> (?n - 1) * ?D" using b by (intro mult_right_mono) simp_all
  then show "g mod ?n * ?D + ?D \<le> ?D * ?n" by (simp add: algebra_simps)
  show "0 \<le> g mod ?n * ?D" using b by simp
qed

lemma unscale_cell:
  assumes "series_ok s"
  shows "unscale s (g mod size_of s * duration s + duration s) =
    Some (cell_start (size_of s) (duration s) (g mod size_of s + 1))"
proof -
  let ?n = "size_of s" and ?D = "duration s"
  have "0 < ?D" using assms by (simp add: series_ok_def)
  then have "0 \<le> g mod ?n * ?D + ?D" using mod_scaled(1) [OF assms, of g] by linarith
  then show ?thesis
    using unscale_eq [OF assms _ mod_scaled(2) [OF assms, of g]] by (simp add: cell_start_def distrib_right)
qed

lemma loop_turn:
  assumes ok: "series_ok s" "time_ok (duration s) (latestTime s)"
    and h: "cell_of s (latestTime s) - size_of s \<le> h" "h < cell_of s (latestTime s)"
    and nD: "n = size_of s" "D = duration s"
  shows "forEachBucket_loop fn s l (nat (h mod n)) (h div n * D) (h mod n * D + D) (cell_start n D (h + 1)) a =
    do { (ret, a) \<leftarrow> fn a (buckets s ! nat ((h + 1) mod n)) (cell_start n D (h + 1)) (cell_start n D (h + 1 + 1));
         if \<not> ret \<or> nat ((h + 1) mod n) = l then Some a
         else forEachBucket_loop fn s l (nat ((h + 1) mod n)) ((h + 1) div n * D) ((h + 1) mod n * D + D)
                (cell_start n D (h + 1 + 1)) a }"
proof -
  have b: "0 < n" "0 < D" "D * n + n < 2 ^ 63" using ok(1) nD by (simp_all add: series_ok_def)
  let ?wrap = "nat (h mod n) + 1 \<ge> length (buckets s)"
  note w = wrap_step [of s h, folded nD, OF b(1)]
  have idx: "(if ?wrap then 0 else nat (h mod n) + 1) = nat ((h + 1) mod n)"
    using next_index [of s h, folded nD, OF b(1)] .
  have i: "nat ((h + 1) mod n) < length (buckets s)" using b nD by (simp add: size_of_def nat_less_iff)
  have ds: "(if ?wrap then arith int64 (h div n * D + D) else Some (h div n * D)) = Some ((h + 1) div n * D)"
  proof (cases ?wrap)
    case True
    then have "h div n * D + D = (h + 1) div n * D" using w(1) by (simp add: distrib_right)
    moreover have "arith int64 ((h + 1) div n * D) = Some ((h + 1) div n * D)"
      using cycle_bounds [OF ok, of "h + 1"] h nD by (intro int64_arith) simp_all
    ultimately show ?thesis using True by simp
  qed (use w(2) in simp)
  have sn: "(if ?wrap then Some D else arith int64 (h mod n * D + D + D)) = Some ((h + 1) mod n * D + D)"
  proof (cases ?wrap)
    case False
    then have eq: "h mod n * D + D + D = (h + 1) mod n * D + D" using w(2) by (simp add: distrib_right)
    have "arith int64 ((h + 1) mod n * D + D) = Some ((h + 1) mod n * D + D)"
      by (intro int64_arith; use mod_scaled [OF ok(1), of "h + 1", folded nD] b in linarith)
    then show ?thesis unfolding eq using False by simp
  qed (use w(1) in simp)
  have nb: "arith int64 (cell_start n D ((h + 1) mod n + 1) + (h + 1) div n * D) = Some (cell_start n D (h + 1 + 1))"
    using cell_start_mod [OF b(1), of D "h + 1" 1] window_bounds [OF ok, of "h + 2"] h nD
    by (simp add: int64_arith add.assoc)
  have le: "cell_start n D (h + 1) \<le> latestTime s" using cell_start_le_iff [OF b(1,2)] h(2) nD by simp
  show ?thesis
    unfolding forEachBucket_loop.simps [of fn s l "nat (h mod n)"] Let_def nD(2) [symmetric] idx ds sn
    by (simp only: nb i le simp_thms unscale_cell [OF ok(1), of "h + 1", folded nD] Option.bind.simps if_True)
qed


text \<open>Visiting \<open>k\<close> cells from cell \<open>g\<close> on, until the function asks to stop.\<close>

fun visit :: "('a \<Rightarrow> bucket \<Rightarrow> int \<Rightarrow> int \<Rightarrow> (bool \<times> 'a) option) \<Rightarrow> series \<Rightarrow> nat \<Rightarrow> int \<Rightarrow> 'a \<Rightarrow> 'a option" where
  "visit fn s 0 g a = Some a"
| "visit fn s (Suc k) g a =
     do { (ret, a) \<leftarrow> fn a (buckets s ! nat (g mod size_of s)) (cell_start (size_of s) (duration s) g)
                        (cell_start (size_of s) (duration s) (g + 1));
          if ret then visit fn s k (g + 1) a else Some a }"

lemma loop_visits:
  assumes ok: "series_ok s" "time_ok (duration s) (latestTime s)" and nD: "n = size_of s" "D = duration s"
    and c: "c = cell_of s (latestTime s)" and h: "c - n \<le> h" "h + 1 + int k = c"
  shows "forEachBucket_loop fn s (nat (c mod n)) (nat (h mod n)) (h div n * D) (h mod n * D + D)
      (cell_start n D (h + 1)) a = visit fn s (Suc k) (h + 1) a"
  using h
proof (induction k arbitrary: h a)
  case 0
  then have r: "c - n \<le> h" "h < c" and e: "h + 1 = c" by simp_all
  show ?case
    unfolding loop_turn [OF ok r [unfolded c nD(1)] nD] visit.simps(2) [of fn s 0] nD [symmetric]
    by (rule Option.bind_cong [OF refl]) (auto simp: e)
next
  case (Suc k)
  have b: "0 < n" using ok(1) nD by (simp add: series_ok_def)
  have "(h + 1) mod n \<noteq> c mod n"
    using mod_window_unique [of n "h + 1" c c] Suc.prems b by auto
  then have ne: "nat ((h + 1) mod n) \<noteq> nat (c mod n)" using b by (simp add: nat_eq_iff)
  have r: "c - n \<le> h" "h < c" "c - n \<le> h + 1" "h + 1 + 1 + int k = c" using Suc.prems by simp_all
  note IH = Suc.IH [OF r(3,4)]
  show ?case
    unfolding loop_turn [OF ok r(1,2) [unfolded c nD(1)] nD] visit.simps(2) [of fn s "Suc k"] nD [symmetric]
    by (rule Option.bind_cong [OF refl]) (use ne IH in \<open>auto simp del: visit.simps\<close>)
qed

lemma forEachBucket_visits:
  assumes ok: "series_ok s" "time_ok (duration s) (latestTime s)"
  shows "forEachBucket fn s a =
    visit fn s (length (buckets s)) (cell_of s (latestTime s) + 1 - size_of s) a"
proof -
  define n D c where nD: "n = size_of s" "D = duration s" and c: "c = cell_of s (latestTime s)"
  have b: "0 < n" "0 < D" "D * n + n < 2 ^ 63" "0 \<le> latestTime s" "latestTime s + D < 2 ^ 63"
    using ok nD by (simp_all add: series_ok_def time_ok_def)
  let ?r = "latestTime s mod D"
  have r: "0 \<le> ?r" "?r < D" using b by simp_all
  note sc = scaled_bounds [OF b(1,2) r]
  have cm: "c mod n = ?r * n div D" "c div n = latestTime s div D"
    using b by (simp_all add: c cell_mod cell_div flip: nD)
  have off: "?r * n - ?r * n mod D = c mod n * D" by (simp add: cm minus_mod_eq_div_mult)
  note ms = mod_scaled [OF ok(1), of c, folded nD]
  have m: "cxx_mod (latestTime s) D = Some ?r" "cxx_div (latestTime s) D = Some (c div n)"
    "cxx_div (?r * n) D = Some (c mod n)" "cxx_mod (?r * n) D = Some (?r * n mod D)"
    using b sc cm by (simp_all add: cxx_mod_pos cxx_div_pos)
  have q: "(c - n) div n = c div n - 1" "(c - n) mod n = c mod n"
    using div_add_self2 [of n "c - n"] b by (simp_all add: mod_simps)
  then have prev: "c div n * D - D = (c - n) div n * D" by (simp add: left_diff_distrib)
  have "c - n \<le> c" using b by simp
  note cy = cycle_bounds [OF ok, folded nD c, OF _ this] cycle_bounds [OF ok, folded nD c, OF _ order_refl]
  have ar: "arith int64 (?r * n) = Some (?r * n)" "arith int64 (c mod n * D) = Some (c mod n * D)"
    "arith int64 (c mod n * D + D) = Some (c mod n * D + D)"
    "arith int64 (c div n * D) = Some (c div n * D)" "arith int64 ((c - n) div n * D) = Some ((c - n) div n * D)"
    by (intro int64_arith; use b sc ms cy in linarith)+
  have nb: "arith int64 (cell_start n D (c mod n + 1) + (c - n) div n * D) = Some (cell_start n D (c - n + 1))"
    using cell_start_mod [OF b(1), of D "c - n" 1] window_bounds [OF ok, folded nD c, of "c - n + 1"] b q
    by (simp add: int64_arith)
  have ca: "cast int64 n = n" "cast uint64 (c mod n) = c mod n"
    by (intro int64_cast uint64_cast; use sc b r pos_mod_bound [OF b(1), of c] pos_mod_sign [OF b(1), of c] in linarith)+
  have len: "length (buckets s) = Suc (nat (n - 1))" using b(1) nD(1) by (cases "buckets s") (simp_all add: size_of_def)
  have "forEachBucket fn s a = forEachBucket_loop fn s (nat (c mod n)) (nat ((c - n) mod n)) ((c - n) div n * D)
      ((c - n) mod n * D + D) (cell_start n D (c - n + 1)) a"
    unfolding forEachBucket_def isAllTime_def nD [symmetric] q(2) Let_def
    using b(2) by (simp only: m ar off prev nb ca unscale_cell [OF ok(1), of c, folded nD] Option.bind.simps) simp
  also have "\<dots> = visit fn s (Suc (nat (n - 1))) (c - n + 1) a"
    by (rule loop_visits [OF ok nD c]) (use b in simp_all)
  finally show ?thesis by (simp only: len c nD diff_add_eq)
qed


section \<open>Sums over a range\<close>

definition aligned :: "int \<Rightarrow> int \<Rightarrow> int \<Rightarrow> bool" where
  "aligned n D u \<longleftrightarrow> cell_start n D (cell n D u) = u"

definition in_span :: "int \<Rightarrow> int \<Rightarrow> sample \<Rightarrow> bool" where
  "in_span start stop e \<longleftrightarrow> start \<le> time_of e \<and> time_of e < stop"

lemma aligned_inside:
  assumes "0 < n" "0 < D" and "aligned n D start" "aligned n D stop"
    and "\<not> cell_start n D (g + 1) \<le> start" and "\<not> stop \<le> cell_start n D g"
  shows "start \<le> cell_start n D g" and "cell_start n D (g + 1) \<le> stop"
proof -
  have "cell n D start \<le> g" using assms(5) cell_start_le_iff [OF assms(1,2), of "g + 1" start] by simp
  then show "start \<le> cell_start n D g"
    using cell_start_mono [OF assms(1,2)] assms(3) by (metis aligned_def)
  have "\<not> cell n D stop \<le> g"
    using cell_start_mono [OF assms(1,2), of "cell n D stop" g] assms(4,6) by (auto simp: aligned_def)
  then show "cell_start n D (g + 1) \<le> stop" using cell_start_le_iff [OF assms(1,2)] by simp
qed

text \<open>A cell lies before, after or within a span of aligned times.\<close>

lemma cell_in_span:
  assumes "0 < n" "0 < D" and "aligned n D start" "aligned n D stop" and "cell n D (time_of e) = g"
  shows "cell_start n D (g + 1) \<le> start \<Longrightarrow> \<not> in_span start stop e"
    and "stop \<le> cell_start n D g \<Longrightarrow> \<not> in_span start stop e"
    and "\<not> cell_start n D (g + 1) \<le> start \<Longrightarrow> \<not> stop \<le> cell_start n D g \<Longrightarrow> in_span start stop e"
proof -
  have e: "cell_start n D g \<le> time_of e" "\<not> cell_start n D (g + 1) \<le> time_of e"
    using cell_start_le_iff [OF assms(1,2)] assms(5) by simp_all
  then show "cell_start n D (g + 1) \<le> start \<Longrightarrow> \<not> in_span start stop e"
    "stop \<le> cell_start n D g \<Longrightarrow> \<not> in_span start stop e" by (auto simp: in_span_def)
  assume "\<not> cell_start n D (g + 1) \<le> start" "\<not> stop \<le> cell_start n D g"
  then show "in_span start stop e"
    using e aligned_inside [OF assms(1-4), of g] by (simp add: in_span_def)
qed

lemma sum_filter_split:
  assumes "\<And>x. x \<in> set xs \<Longrightarrow> R x \<longleftrightarrow> P x \<or> Q x" and "\<And>x. x \<in> set xs \<Longrightarrow> \<not> (P x \<and> Q x)"
  shows "(\<Sum>x \<leftarrow> filter R xs. w x) = (\<Sum>x \<leftarrow> filter P xs. w x) + (\<Sum>x \<leftarrow> filter Q xs. (w x :: int))"
  using assms by (induction xs) auto

lemma plus_assign_exact: "integral t \<Longrightarrow> in_range t (a + x) \<Longrightarrow> plus_assign t a x = Some (a + x)"
  using promote_props(1) [of t "a + x"]
  by (simp add: plus_assign_def arith_Some cast_id integral_width)

text \<open>The samples of a bucket are those of its cell.\<close>

lemma bucket_of_cell:
  assumes "represents s es c" and "0 < size_of s" and "c - size_of s < g" "g \<le> c"
  shows "buckets s ! nat (g mod size_of s) =
    tally (filter (\<lambda>e. cell_of s (time_of e) = g) (filter (kept s c) es))"
proof -
  let ?n = "size_of s"
  have i: "nat (g mod ?n) < length (buckets s)" using assms(2) by (simp add: size_of_def nat_less_iff)
  have "in_bucket s (nat (g mod ?n)) e \<longleftrightarrow> cell_of s (time_of e) = g" if "e \<in> set (filter (kept s c) es)" for e
    using that assms mod_window_unique [of ?n "cell_of s (time_of e)" g c]
    by (auto simp: in_bucket_def kept_def represents_def)
  then have "filter (in_bucket s (nat (g mod ?n))) (filter (kept s c) es) =
      filter (\<lambda>e. cell_of s (time_of e) = g) (filter (kept s c) es)"
    by (intro filter_cong) auto
  then show ?thesis using assms(1) i by (simp add: represents_def)
qed

lemma rangeAdjust_whole:
  assumes ok: "series_ok s" "time_ok (duration s) (latestTime s)" and nD: "n = size_of s" "D = duration s"
    and g: "g \<le> cell_of s (latestTime s)" and st: "start \<le> cell_start n D g" "cell_start n D (g + 1) \<le> stop"
  shows "rangeAdjust scale s (cell_start n D g) (cell_start n D (g + 1)) start stop x = Some x"
proof -
  have b: "0 < n" "0 < D" "latestTime s + D < 2 ^ 63" "0 \<le> latestTime s"
    using ok nD by (simp_all add: series_ok_def time_ok_def)
  have le: "cell_start n D g \<le> latestTime s" using cell_start_le_iff [OF b(1,2)] g nD by simp
  have "arith int64 (latestTime s + 1) = Some (latestTime s + 1)"
    by (intro int64_arith; use b in linarith)
  then show ?thesis using le st by (simp add: rangeAdjust_def)
qed


text \<open>The function that \<open>sum\<close> and \<open>count\<close> apply to each bucket, for the part \<open>p\<close> of a bucket.\<close>

definition summing :: "(int \<Rightarrow> int \<Rightarrow> int \<Rightarrow> int) \<Rightarrow> ctype \<Rightarrow> (bucket \<Rightarrow> int) \<Rightarrow> int \<Rightarrow> int \<Rightarrow> series \<Rightarrow>
    int \<Rightarrow> bucket \<Rightarrow> int \<Rightarrow> int \<Rightarrow> (bool \<times> int) option" where
  "summing scale u p start stop s a b bucketStart nextBucketStart =
     (if start \<ge> nextBucketStart then Some (True, a)
      else if stop \<le> bucketStart then Some (False, a)
      else do { x \<leftarrow> rangeAdjust scale s bucketStart nextBucketStart start stop (p b);
                a \<leftarrow> plus_assign u a x;
                Some (True, a) })"

lemma series_sum_summing: "series_sum scale t start stop s = forEachBucket (summing scale t b_sum start stop s) s 0"
  by (simp add: series_sum_def forEachBucket_range_def summing_def [abs_def])

lemma series_count_summing:
  "series_count scale start stop s = forEachBucket (summing scale uint64 b_count start stop s) s 0"
  by (simp add: series_count_def forEachBucket_range_def summing_def [abs_def])

lemma summing_cell:
  assumes ok: "series_ok s" "time_ok (duration s) (latestTime s)" and rep: "represents s es (cell_of s (latestTime s))"
    and al: "aligned (size_of s) (duration s) start" "aligned (size_of s) (duration s) stop"
    and u: "integral u" "\<And>xs. p (tally xs) = (\<Sum>e \<leftarrow> xs. w e)"
    and K: "K = filter (kept s (cell_of s (latestTime s))) es" "\<And>P. in_range u (\<Sum>e \<leftarrow> filter P K. w e)"
    and g: "cell_of s (latestTime s) - size_of s < g" "g \<le> cell_of s (latestTime s)"
    and acc: "\<And>g. acc g = (\<Sum>e \<leftarrow> filter (\<lambda>e. in_span start stop e \<and> cell_of s (time_of e) < g) K. w e)"
  shows "summing scale u p start stop s (acc g) (buckets s ! nat (g mod size_of s))
      (cell_start (size_of s) (duration s) g) (cell_start (size_of s) (duration s) (g + 1)) =
    (if cell_start (size_of s) (duration s) (g + 1) \<le> start then Some (True, acc (g + 1))
     else if stop \<le> cell_start (size_of s) (duration s) g then Some (False, acc (cell_of s (latestTime s) + 1))
     else Some (True, acc (g + 1)))"
proof -
  define n D c where nD: "n = size_of s" "D = duration s" and c: "c = cell_of s (latestTime s)"
  have b: "0 < n" "0 < D" using ok nD by (simp_all add: series_ok_def)
  note span = cell_in_span [OF b al [folded nD]]
  consider (before) "cell_start n D (g + 1) \<le> start"
    | (after) "\<not> cell_start n D (g + 1) \<le> start" "stop \<le> cell_start n D g"
    | (within) "\<not> cell_start n D (g + 1) \<le> start" "\<not> stop \<le> cell_start n D g" by blast
  then show ?thesis
  proof cases
    case before
    have "in_span start stop e \<and> cell n D (time_of e) < g + 1 \<longleftrightarrow> in_span start stop e \<and> cell n D (time_of e) < g" for e
      using span(1) [OF refl, of e] before by (cases "cell n D (time_of e) = g") auto
    then show ?thesis using before acc by (simp add: summing_def flip: nD)
  next
    case after
    have "\<not> (in_span start stop e \<and> g \<le> cell n D (time_of e))" for e
      using after(2) cell_start_le_iff [OF b, of g "time_of e"] by (auto simp: in_span_def)
    then have "in_span start stop e \<and> cell n D (time_of e) < c + 1 \<longleftrightarrow> in_span start stop e \<and> cell n D (time_of e) < g" for e
      using g unfolding c [symmetric] by (meson linorder_not_less less_trans order_le_less_trans zless_add1_eq)
    then show ?thesis using after acc by (simp add: summing_def c [folded nD] flip: nD)
  next
    case within
    have "acc (g + 1) = acc g + (\<Sum>e \<leftarrow> filter (\<lambda>e. cell n D (time_of e) = g) K. w e)"
      unfolding acc nD [symmetric] using span(3) [OF refl] within by (intro sum_filter_split) auto
    moreover have "p (buckets s ! nat (g mod n)) = (\<Sum>e \<leftarrow> filter (\<lambda>e. cell n D (time_of e) = g) K. w e)"
      using bucket_of_cell [OF rep _ g] b u(2) K(1) nD by simp
    ultimately have eq: "acc (g + 1) = acc g + p (buckets s ! nat (g mod n))" by simp
    moreover have "in_range u (acc (g + 1))" using K(2) acc by simp
    ultimately have "plus_assign u (acc g) (p (buckets s ! nat (g mod n))) = Some (acc (g + 1))"
      using plus_assign_exact [OF u(1)] by simp
    moreover note rangeAdjust_whole [OF ok nD g(2) aligned_inside [OF b al [folded nD] within]]
    ultimately show ?thesis using within by (simp add: summing_def flip: nD)
  qed
qed

lemma visit_sums:
  assumes "series_ok s" "time_ok (duration s) (latestTime s)" and "represents s es c"
    and "aligned (size_of s) (duration s) start" "aligned (size_of s) (duration s) stop"
    and "integral u" "\<And>xs. p (tally xs) = (\<Sum>e \<leftarrow> xs. w e)"
    and "K = filter (kept s c) es" "\<And>P. in_range u (\<Sum>e \<leftarrow> filter P K. w e)"
    and acc: "\<And>g. acc g = (\<Sum>e \<leftarrow> filter (\<lambda>e. in_span start stop e \<and> cell_of s (time_of e) < g) K. w e)"
    and c: "c = cell_of s (latestTime s)" and "c - size_of s < g" "g + int k = c + 1"
  shows "visit (summing scale u p start stop s) s k g (acc g) = Some (acc (c + 1))"
  using assms(12,13)
proof (induction k arbitrary: g)
  case 0
  then show ?case by simp
next
  case (Suc k)
  then have g: "c - size_of s < g" "g \<le> c" "c - size_of s < g + 1" "g + 1 + int k = c + 1" by simp_all
  show ?case
    unfolding visit.simps(2)
      summing_cell [OF assms(1,2) assms(3) [unfolded c] assms(4-7) assms(8) [unfolded c] assms(9) g(1,2) [unfolded c] acc]
    using Suc.IH [OF g(3,4)] c by simp
qed

lemma range_sum:
  assumes "series_ok s" "time_ok (duration s) (latestTime s)" and "represents s es (cell_of s (latestTime s))"
    and "aligned (size_of s) (duration s) start" "aligned (size_of s) (duration s) stop"
    and "integral u" "\<And>xs. p (tally xs) = (\<Sum>e \<leftarrow> xs. w e)" 
    and K: "\<And>P. in_range u (\<Sum>e \<leftarrow> filter P (filter (kept s (cell_of s (latestTime s))) es). w e)"
  shows "forEachBucket (summing scale u p start stop s) s 0 =
    Some (p (tally (filter (in_span start stop) (filter (kept s (cell_of s (latestTime s))) es))))"
proof -
  let ?c = "cell_of s (latestTime s)"
  let ?K = "filter (kept s ?c) es"
  define acc where "acc g = (\<Sum>e \<leftarrow> filter (\<lambda>e. in_span start stop e \<and> cell_of s (time_of e) < g) ?K. w e)" for g
  have n: "0 < size_of s" using assms(1) by (simp add: series_ok_def)
  have "filter (\<lambda>e. in_span start stop e \<and> cell_of s (time_of e) < ?c + 1 - size_of s) ?K = []"
    by (auto simp: filter_empty_conv kept_def)
  then have "acc (?c + 1 - size_of s) = 0" by (simp only: acc_def list.map sum_list.Nil)
  moreover have "filter (\<lambda>e. in_span start stop e \<and> cell_of s (time_of e) < ?c + 1) ?K = filter (in_span start stop) ?K"
    using assms(3) by (intro filter_cong) (auto simp: represents_def)
  then have "acc (?c + 1) = p (tally (filter (in_span start stop) ?K))" by (simp only: acc_def assms(7))
  moreover have "visit (summing scale u p start stop s) s (length (buckets s)) (?c + 1 - size_of s) (acc (?c + 1 - size_of s)) =
      Some (acc (?c + 1))"
    by (rule visit_sums [OF assms(1-7) refl K acc_def refl]) (simp_all add: size_of_def)
  ultimately show ?thesis by (simp only: forEachBucket_visits [OF assms(1,2)])
qed

section \<open>Ranges of a history\<close>

lemma agrees_represents:
  assumes "agrees s r" and "duration s \<noteq> 0" and "time_ok (duration s) 0"
  shows "represents s (snd r) (cell_of s (latestTime s))" and "time_ok (duration s) (latestTime s)"
    and "filter (kept s (cell_of s (latestTime s))) (snd r) = ref_alive (size_of s) (duration s) r"
proof -
  obtain L es where r: "r = (L, es)" by (cases r)
  show "represents s (snd r) (cell_of s (latestTime s))" "time_ok (duration s) (latestTime s)"
    using assms r by (cases L; auto simp: agrees_def intro!: represents_empty)+
  show "filter (kept s (cell_of s (latestTime s))) (snd r) = ref_alive (size_of s) (duration s) r"
    using assms r by (cases L) (auto simp: agrees_def kept_def alive_def intro!: filter_cong)
qed

text \<open>
  C35. The sum and the count of a range of time whose two ends are bucket boundaries are exact, under the
  conditions of the window: integral values of at most 64 bits, a positive duration with
  \<open>(D + 1) * n < 2\<^sup>6\<^sup>3\<close>, non-negative times with \<open>time + D < 2\<^sup>6\<^sup>3\<close>, and a window whose absolute values and
  counts add up within the type after each operation. After every such sequence of operations, walking the
  circular array bucket by bucket passes its check that no bucket starts after the latest time, and gives the sum and the
  number of the accepted samples in the range that are still in the window; no bucket of such a
  range is scaled, so the result does not depend on the floating-point arithmetic of \<open>rangeAdjust\<close>.
\<close>

theorem bucketed_time_series_range:
  assumes "value_type t" and "config_ok nB D" and "0 < D" and "\<forall>op \<in> set ops. op_time_ok D op"
    and "n = min (int nB) D" and "window_fits t n D ops (None, [])" and "aligned n D start" "aligned n D stop"
  shows "\<exists>s. series_run bi t ops (BucketedTimeSeries_init nB D) = Some (fst (ref_run n D ops (None, [])), s) \<and>
    series_sum scale t start stop s =
      Some (b_sum (tally (filter (in_span start stop) (ref_alive n D (snd (ref_run n D ops (None, []))))))) \<and>
    series_count scale start stop s =
      Some (b_count (tally (filter (in_span start stop) (ref_alive n D (snd (ref_run n D ops (None, [])))))))"
proof -
  let ?r = "snd (ref_run n D ops (None, []))"
  have D: "0 \<le> D" "D < 2 ^ 63" using assms(2) by (simp_all add: config_ok_def)
  have "n = (if D = 0 then 0 else min (int nB) D)" using assms(3,5) by simp
  then obtain s where run: "series_run bi t ops (BucketedTimeSeries_init nB D) = Some (fst (ref_run n D ops (None, [])), s)"
    and s: "agrees s ?r" "shape_ok s" "size_of s = n" "duration s = D"
    using init_run [OF assms(1,2,4) _ assms(6), of bi] by blast
  have "duration s \<noteq> 0" "time_ok (duration s) 0" "series_ok s"
    using s assms(3) D by (simp_all add: time_ok_def shape_ok_def)
  note rep = this(3) agrees_represents(2,1) [OF s(1) this(1,2)] and alive = agrees_represents(3) [OF s(1) this(1,2)]
  have "fits t (ref_alive n D ?r)" using run_fits [OF _ assms(6)] by (simp add: fits_Nil)
  then have r: "in_range t (b_sum (tally (filter P (ref_alive n D ?r))))"
    "in_range uint64 (b_count (tally (filter P (ref_alive n D ?r))))" for P
    using fits_range [OF fits_filter] by blast+
  have "integral t" "integral uint64" using assms(1) uint64_value by (simp_all add: value_type_def)
  note sums = range_sum [OF rep, of start stop, unfolded s(3,4), OF assms(7,8)]
  have "series_sum scale t start stop s = Some (b_sum (tally (filter (in_span start stop) (ref_alive n D ?r))))"
    using sums [OF \<open>integral t\<close>, of b_sum val_of scale] r(1) alive s(3,4)
    by (simp add: series_sum_summing tally_def del: filter_filter)
  moreover have "series_count scale start stop s = Some (b_count (tally (filter (in_span start stop) (ref_alive n D ?r))))"
    using sums [OF \<open>integral uint64\<close>, of b_count num_of scale] r(2) alive s(3,4)
    by (simp add: series_count_summing tally_def del: filter_filter)
  ultimately show ?thesis using run by blast
qed

text \<open>Three buckets of three seconds: the range from 3 to 9 has the samples at times 4 and 8.\<close>

theorem bucketed_time_series_range_witness:
  "\<exists>s. series_run True int64 [Add (1, 10, 1), Add (4, -7, 2), Add (8, 5, 1), Add (9, 6, 1)]
      (BucketedTimeSeries_init 3 9) = Some ([True, True, True, True], s) \<and>
    series_sum (\<lambda>num den x. x) int64 3 9 s = Some (- 2) \<and> series_count (\<lambda>num den x. x) 3 9 s = Some 3"
proof -
  let ?ops = "[Add (1, 10, 1), Add (4, -7, 2), Add (8, 5, 1), Add (9, 6, 1)]"
  have "ref_run 3 9 ?ops (None, []) =
      ([True, True, True, True], (Some 9, [(1, 10, 1), (4, -7, 2), (8, 5, 1), (9, 6, 1)]))"
    by (simp add: alive_def cell_def)
  moreover have "config_ok 3 9" "\<forall>op \<in> set ?ops. op_time_ok 9 op" "window_fits int64 3 9 ?ops (None, [])"
    "aligned 3 9 3" "aligned 3 9 9"
    by (simp_all add: window_eval aligned_def cell_start_def)
  ultimately show ?thesis
    using bucketed_time_series_range [OF int64_value_type, of 3 9 ?ops 3 3 9 True "\<lambda>num den x. x"]
    by (simp add: alive_def cell_def in_span_def tally_def del: series_run.simps)
qed


section \<open>Elapsed time\<close>

lemma elapsed_bound:
  assumes "series_ok s" "time_ok (duration s) (latestTime s)"
  shows "\<exists>d. elapsed s = Some d \<and> 0 \<le> d \<and> d \<le> duration s"
proof (cases "series_empty s")
  case True
  then show ?thesis using series_ok_pos(2) [OF assms(1)] by (simp add: elapsed_def)
next
  case False
  let ?n = "size_of s" and ?D = "duration s" and ?l = "latestTime s"
  let ?c = "cell_of s ?l"
  let ?e = "cell_start ?n ?D (?c + 1 - ?n)"
  have b: "0 < ?n" "0 < ?D" "0 \<le> ?l" "?l + ?D < 2 ^ 63" using assms by (simp_all add: series_ok_def time_ok_def)
  have "?e = cell_start ?n ?D (?c + 1) - ?D"
    using cell_start_shift [OF b(1), of ?D "?c + 1" "-1"] by simp
  moreover have "\<not> cell_start ?n ?D (?c + 1) \<le> ?l" using cell_start_le_iff [OF b(1,2)] by simp
  moreover have "?e \<le> ?l" using cell_start_le_iff [OF b(1,2)] b by simp
  ultimately have e: "?l < ?e + ?D" "?e \<le> ?l" by simp_all
  define f where "f = max ?e (firstTime s)"
  have f: "?l < f + ?D" "f \<le> ?l" using e False by (auto simp: f_def series_empty_def)
  have "getEarliestTime s = Some f"
    using False series_ok_pos(3) [OF assms(1)] earliest_eq [OF assms] by (simp add: getEarliestTime_def f_def)
  moreover have "arith int64 (?l - f) = Some (?l - f)" "arith int64 (?l - f + 1) = Some (?l - f + 1)"
    by (intro int64_arith; use f b in linarith)+
  ultimately show ?thesis using False f by (simp add: elapsed_def)
qed

text \<open>
  The time that a series with a window says it has tracked is never more than its duration. It is
  computed without overflow after every sequence of additions, updates and clears.
\<close>

theorem bucketed_time_series_elapsed:
  assumes "value_type t" and "config_ok nB D" and "0 < D" and "\<forall>op \<in> set ops. op_time_ok D op"
    and "window_fits t (min (int nB) D) D ops (None, [])"
  shows "\<exists>r s d. series_run bi t ops (BucketedTimeSeries_init nB D) = Some (r, s) \<and> elapsed s = Some d \<and> 0 \<le> d \<and> d \<le> D"
proof -
  define n where "n = min (int nB) D"
  have D: "0 \<le> D" "D < 2 ^ 63" using assms(2) by (simp_all add: config_ok_def)
  have "n = (if D = 0 then 0 else min (int nB) D)" using assms(3) n_def by simp
  then obtain r s where run: "series_run bi t ops (BucketedTimeSeries_init nB D) = Some (fst r, s)"
    and s: "agrees s (snd r)" "shape_ok s" "duration s = D"
    using init_run [OF assms(1,2,4) _ assms(5) [folded n_def], of bi] by blast
  have "duration s \<noteq> 0" "time_ok (duration s) 0" "series_ok s"
    using s assms(3) D by (simp_all add: time_ok_def shape_ok_def)
  then show ?thesis
    using elapsed_bound agrees_represents(2) [OF s(1)] run s(3) by blast
qed

theorem bucketed_time_series_elapsed_witness:
  "\<exists>r s d. series_run True int64 [Add (1, 10, 1), Add (4, -7, 2), Update 40] (BucketedTimeSeries_init 3 9) = Some (r, s) \<and>
    elapsed s = Some d \<and> 0 \<le> d \<and> d \<le> 9"
proof -
  let ?ops = "[Add (1, 10, 1), Add (4, -7, 2), Update 40]"
  have "config_ok 3 9" "\<forall>op \<in> set ?ops. op_time_ok 9 op" "window_fits int64 3 9 ?ops (None, [])"
    by (simp_all add: window_eval)
  then show ?thesis
    using bucketed_time_series_elapsed [OF int64_value_type, of 3 9 ?ops True] by (simp del: series_run.simps)
qed

text \<open>
  A late sample that is still in the window is accepted without lowering \<open>firstTime_\<close>, so
  \<open>getEarliestTime\<close> may be later than a sample that is tracked.
\<close>

lemma late_sample_before_first:
  "case series_run True int64 [Add (8, 1, 1), Add (4, 1, 1)] (BucketedTimeSeries_init 3 9) of
     None \<Rightarrow> False
   | Some (r, s) \<Rightarrow> r = [True, True] \<and> getEarliestTime s = Some 8 \<and> b_count (total_bucket s) = 2"
  by code_simp

section \<open>Times before the epoch\<close>

lemma smod_negative: "(t::int) < 0 \<Longrightarrow> 0 < D \<Longrightarrow> t smod D = - ((- t) mod D)"
  by (simp add: signed_modulo_int_def signed_divide_int_def minus_mult_div_eq_mod [symmetric] mult.commute)

text \<open>
  The remainder of a negative time is negative; as an unsigned number it makes the scaled time, and the index,
  larger than the array.
\<close>

lemma uint64_mod: "cast uint64 x = x mod 2 ^ 64" "arith uint64 x = Some (x mod 2 ^ 64)"
  by (auto simp: arith_def cast_def in_range_def lim_defs uint64_def)

lemma minus_mod_wrap:
  assumes "0 < a * n" and "a * n < (2 ^ 64 :: int)"
  shows "(2 ^ 64 - a) * n mod 2 ^ 64 = 2 ^ 64 - a * n"
proof -
  have "(2 ^ 64 - a) * n = 2 ^ 64 - a * n + 2 ^ 64 * (n - 1)" by (simp add: algebra_simps)
  then have "(2 ^ 64 - a) * n mod 2 ^ 64 = (2 ^ 64 - a * n) mod 2 ^ 64" by (simp only: mod_mult_self2)
  also have "\<dots> = 2 ^ 64 - a * n" using assms by (intro mod_pos_pos_trivial) simp_all
  finally show ?thesis .
qed

lemma getBucketIdx_negative:
  assumes "series_ok s" and "t < 0" "\<not> duration s dvd t"
  shows "\<exists>i. getBucketIdx s t = Some i \<and> length (buckets s) \<le> i"
proof -
  let ?n = "size_of s" and ?D = "duration s"
  have b: "0 < ?n" "0 < ?D" "?D * ?n + ?n < 2 ^ 63" using assms(1) by (simp_all add: series_ok_def)
  define a where "a = (- t) mod ?D"
  have "a \<noteq> 0" using assms(3) by (simp add: a_def mod_eq_0_iff_dvd)
  then have a: "0 < a" "a < ?D" using pos_mod_sign [OF b(2), of "- t"] pos_mod_bound [OF b(2), of "- t"] unfolding a_def by linarith+
  have an: "a * ?n < ?D * ?n" "0 < a * ?n" "a \<le> a * ?n" "?D \<le> ?D * ?n" using a b by simp_all
  have w: "(2 ^ 64 :: int) = 2 * 2 ^ 63" by simp
  have lt: "a < 2 ^ 64" "a * ?n < 2 ^ 64" using an b w by linarith+
  define p where "p = (2 ^ 64 - a * ?n :: int)"
  have "?D * ?n < p" "p < 2 ^ 64" using an b w unfolding p_def by linarith+
  have "cast uint64 (- a) = 2 ^ 64 - a"
    using mod_pos_pos_trivial [of "2 ^ 64 - a" "2 ^ 64"] a lt by (simp add: uint64_mod mod_simps)
  moreover have "arith uint64 ((2 ^ 64 - a) * ?n) = Some p"
    using minus_mod_wrap [of a ?n] an(2) lt by (simp add: uint64_mod p_def)
  moreover have "cast uint64 ?D = ?D" by (intro uint64_cast; use an b in linarith)
  moreover have "cxx_div p ?D = Some (p div ?D)"
    using cxx_div_pos [of p ?D] \<open>?D * ?n < p\<close> b an by simp
  moreover have "cxx_mod t ?D = Some (- a)" using smod_negative [OF assms(2) b(2)] b by (simp add: cxx_mod_def a_def)
  moreover have "?n \<le> p div ?D" 
    using zdiv_mono1 [of "?D * ?n" p ?D] \<open>?D * ?n < p\<close> b by simp
  ultimately show ?thesis by (auto simp: getBucketIdx_def size_of_def)
qed
lemma add_to_None: "length (buckets s) \<le> i \<Longrightarrow> add_to bi t v k i s = None"
  by (cases "Bucket_add bi t v k (total_bucket s)") (simp_all add: add_to_def)

lemma add_negative:
  assumes ok: "series_ok s" and agr: "agrees s r" and e: "time_of e < 0" "\<not> duration s dvd time_of e"
  shows "addValueAggregated bi t (time_of e) (val_of e) (num_of e) s =
    (if fst (ref_add (size_of s) (duration s) e r) then None else Some (False, s))"
proof -
  note pos = series_ok_pos [OF ok]
  obtain L es where r: "r = (L, es)" by (cases r)
  show ?thesis
  proof (cases L)
    case None
    let ?s = "s\<lparr>firstTime := time_of e, latestTime := time_of e\<rparr>"
    have "series_ok ?s" using ok by (simp add: series_ok_def size_of_def)
    then obtain i where "getBucketIdx ?s (time_of e) = Some i" "length (buckets ?s) \<le> i"
      using getBucketIdx_negative [of ?s "time_of e"] e by auto
    then show ?thesis
      using agr r None pos add_to_None [of ?s i] by (simp add: addValueAggregated_def agrees_def)
  next
    case (Some l)
    then have a: "\<not> series_empty s" "latestTime s = l" "time_ok (duration s) l"
      using agr r pos by (simp_all add: agrees_Some)
    then have l: "time_of e < l" using e(1) by (simp add: time_ok_def)
    obtain i where i: "getBucketIdx s (time_of e) = Some i" "length (buckets s) \<le> i"
      using getBucketIdx_negative [OF ok e] by blast
    have "cell_start (size_of s) (duration s) (cell_of s l + 1 - size_of s) \<le> time_of e \<longleftrightarrow>
        alive (size_of s) (duration s) l e"
      unfolding cell_start_le_iff [OF pos(1,2)] using pos by (auto simp: alive_def)
    then show ?thesis
      using i a l pos r Some earliest_eq [OF ok] add_to_None [OF i(2)] by (auto simp: addValueAggregated_def)
  qed
qed



text \<open>
  Outside these conditions the running total drifts. With 8-bit values the second addition is
  clamped to 127; when the first bucket expires its 100 is subtracted from the clamped total, which is then
  27 while the window holds one sample of 100.
\<close>

lemma clamped_total_drifts:
  "map_option (b_sum \<circ> total_bucket \<circ> snd)
      (series_run True int8 [Add (1, 100, 1), Add (4, 100, 1), Update 10] (BucketedTimeSeries_init 3 9)) = Some 27"
  by code_simp

end
