(* ===== verification/EvictingCacheMap.thy ===== *)
theory EvictingCacheMap
  imports Folly_Prelude "HOL-Library.AList"
begin

text \<open>
  \<open>EvictingCacheMap\<close> of \<open>folly/container/EvictingCacheMap.h\<close>: a cache that evicts the entries used least
  recently. Its entries are nodes on the heap, owned by an intrusive list in the order of use and
  indexed by a hash set of node pointers. The heap is explicit, so that a dangling pointer shows:
  reading or deleting a node that is not there, or asking the list for the position of a node that is not
  on it, is \<^term>\<open>None\<close>. Addresses are not used again, so no dangling pointer is hidden by a new node.
  A hook is a function on a state of its own that may throw; it does not call the cache. Keys are compared
  with equality.
\<close>

section \<open>Nodes, the index and the list\<close>

type_synonym node = nat

type_synonym ('k, 'v, 'w) hook = "'k \<Rightarrow> 'v \<Rightarrow> 'w \<Rightarrow> bool \<times> 'w"

record ('k, 'v, 'w) cache =
  pruneHook :: "('k, 'v, 'w) hook option"
  index :: "node list"
  lru :: "node list"
  maxSize :: nat
  clearSize :: nat
  nodes :: "node \<rightharpoonup> 'k \<times> 'v"
  fresh :: node
  world :: 'w

datatype cache_error = OutOfRange | HookThrew

type_synonym ('r, 'k, 'v, 'w) outcome = "((cache_error + 'r) \<times> ('k, 'v, 'w) cache) option"

text \<open>
  The hash set of node pointers: two nodes are equal when their keys are, and every comparison
  reads the nodes.
\<close>

fun index_find :: "(node \<rightharpoonup> 'k \<times> 'v) \<Rightarrow> 'k \<Rightarrow> node list \<Rightarrow> node option option" where
  "index_find ns key [] = Some None"
| "index_find ns key (a # idx) =
     do { (k, _) \<leftarrow> ns a; if k = key then Some (Some a) else index_find ns key idx }"

definition index_insert :: "(node \<rightharpoonup> 'k \<times> 'v) \<Rightarrow> node \<Rightarrow> node list \<Rightarrow> (node \<times> bool \<times> node list) option" where
  "index_insert ns node idx =
     do { (k, _) \<leftarrow> ns node;
          found \<leftarrow> index_find ns k idx;
          Some (case found of Some a \<Rightarrow> (a, False, idx) | None \<Rightarrow> (node, True, idx @ [node])) }"

definition index_erase :: "(node \<rightharpoonup> 'k \<times> 'v) \<Rightarrow> node \<Rightarrow> node list \<Rightarrow> node list option" where
  "index_erase ns node idx =
     do { (k, _) \<leftarrow> ns node;
          found \<leftarrow> index_find ns k idx;
          Some (case found of Some a \<Rightarrow> remove1 a idx | None \<Rightarrow> idx) }"

text \<open>The intrusive list: positions are those of nodes on it.\<close>

definition iterator_to :: "node \<Rightarrow> node list \<Rightarrow> node option" where
  "iterator_to a l = (if a \<in> set l then Some a else None)"

definition splice_front :: "node \<Rightarrow> node list \<Rightarrow> node list option" where
  "splice_front a l = do { it \<leftarrow> iterator_to a l; Some (it # remove1 it l) }"

definition next_of :: "node \<Rightarrow> node list \<Rightarrow> node option" where
  "next_of a l = (case dropWhile (\<lambda>b. b \<noteq> a) l of _ # b # _ \<Rightarrow> Some b | _ \<Rightarrow> None)"

definition list_erase :: "node \<Rightarrow> node list \<Rightarrow> (node option \<times> node list) option" where
  "list_erase a l = do { it \<leftarrow> iterator_to a l; Some (next_of it l, remove1 it l) }"

text \<open>Allocation and deletion of a node, and a call of a hook with the contents of a node.\<close>

definition new_node :: "'k \<Rightarrow> 'v \<Rightarrow> ('k, 'v, 'w) cache \<Rightarrow> node \<times> ('k, 'v, 'w) cache" where
  "new_node key val c = (fresh c, c\<lparr>nodes := (nodes c)(fresh c \<mapsto> (key, val)), fresh := Suc (fresh c)\<rparr>)"

definition delete_node :: "node \<Rightarrow> ('k, 'v, 'w) cache \<Rightarrow> ('k, 'v, 'w) cache option" where
  "delete_node a c = do { _ \<leftarrow> nodes c a; Some (c\<lparr>nodes := (nodes c)(a := None)\<rparr>) }"

definition call_hook ::
    "('k, 'v, 'w) hook option \<Rightarrow> node \<Rightarrow> ('k, 'v, 'w) cache \<Rightarrow> (bool \<times> ('k, 'v, 'w) cache) option" where
  "call_hook ph a c =
     (case ph of
        None \<Rightarrow> Some (True, c)
      | Some h \<Rightarrow> do { (k, v) \<leftarrow> nodes c a; let (ok, w) = h k v (world c); Some (ok, c\<lparr>world := w\<rparr>) })"

section \<open>Operations\<close>

definition EvictingCacheMap_init :: "nat \<Rightarrow> nat \<Rightarrow> 'w \<Rightarrow> ('k, 'v, 'w) cache" where
  "EvictingCacheMap_init maxSize' clearSize' w =
     \<lparr>pruneHook = None, index = [], lru = [], maxSize = maxSize', clearSize = clearSize',
      nodes = Map.empty, fresh = 0, world = w\<rparr>"

definition cache_size :: "('k, 'v, 'w) cache \<Rightarrow> nat" where
  "cache_size c = length (index c)"

definition cache_empty :: "('k, 'v, 'w) cache \<Rightarrow> bool" where
  "cache_empty c \<longleftrightarrow> index c = []"

definition findInIndex :: "'k \<Rightarrow> ('k, 'v, 'w) cache \<Rightarrow> node option option" where
  "findInIndex key c = index_find (nodes c) key (index c)"

text \<open>The loop of \<open>prune\<close>; the node is deleted at the end of each turn, also when the hook throws.\<close>

primrec prune_loop :: "nat \<Rightarrow> ('k, 'v, 'w) hook option \<Rightarrow> ('k, 'v, 'w) cache \<Rightarrow> (unit, 'k, 'v, 'w) outcome" where
  "prune_loop 0 ph c = Some (Inr (), c)"
| "prune_loop (Suc n) ph c =
     (if lru c = [] then Some (Inr (), c)
      else let node = last (lru c)
           in do { (_, l) \<leftarrow> list_erase node (lru c);
                   let c = c\<lparr>lru := l\<rparr>;
                   idx \<leftarrow> index_erase (nodes c) node (index c);
                   let c = c\<lparr>index := idx\<rparr>;
                   (ok, c) \<leftarrow> call_hook ph node c;
                   c \<leftarrow> delete_node node c;
                   if ok then prune_loop n ph c else Some (Inl HookThrew, c) })"

definition prune :: "nat \<Rightarrow> ('k, 'v, 'w) hook option \<Rightarrow> ('k, 'v, 'w) cache \<Rightarrow> (unit, 'k, 'v, 'w) outcome" where
  "prune pruneSize ph c = prune_loop pruneSize (case ph of None \<Rightarrow> pruneHook c | Some h \<Rightarrow> Some h) c"

definition cache_clear :: "('k, 'v, 'w) hook option \<Rightarrow> ('k, 'v, 'w) cache \<Rightarrow> (unit, 'k, 'v, 'w) outcome" where
  "cache_clear ph c = prune (cache_size c) ph c"

definition setMaxSize :: "nat \<Rightarrow> ('k, 'v, 'w) hook option \<Rightarrow> ('k, 'v, 'w) cache \<Rightarrow> (unit, 'k, 'v, 'w) outcome" where
  "setMaxSize n ph c =
     do { (r, c) \<leftarrow> (if n \<noteq> 0 \<and> n < cache_size c
                      then prune (max (cache_size c - n) (clearSize c)) ph c
                      else Some (Inr (), c));
          case r of Inl e \<Rightarrow> Some (Inl e, c) | Inr _ \<Rightarrow> Some (Inr (), c\<lparr>maxSize := n\<rparr>) }"

definition setClearSize :: "nat \<Rightarrow> ('k, 'v, 'w) cache \<Rightarrow> ('k, 'v, 'w) cache" where
  "setClearSize n c = c\<lparr>clearSize := n\<rparr>"

definition setPruneHook :: "('k, 'v, 'w) hook option \<Rightarrow> ('k, 'v, 'w) cache \<Rightarrow> ('k, 'v, 'w) cache" where
  "setPruneHook ph c = c\<lparr>pruneHook := ph\<rparr>"

definition existsImpl :: "'k \<Rightarrow> ('k, 'v, 'w) cache \<Rightarrow> bool option" where
  "existsImpl key c = do { ptr \<leftarrow> findInIndex key c; Some (ptr \<noteq> None) }"

text \<open>An iterator is a node, or \<^term>\<open>None\<close> for \<open>end()\<close>.\<close>

definition findImpl :: "'k \<Rightarrow> ('k, 'v, 'w) cache \<Rightarrow> (node option \<times> ('k, 'v, 'w) cache) option" where
  "findImpl key c =
     do { ptr \<leftarrow> findInIndex key c;
          case ptr of
            None \<Rightarrow> Some (None, c)
          | Some a \<Rightarrow> do { l \<leftarrow> splice_front a (lru c);
                          let c = c\<lparr>lru := l\<rparr>;
                          it \<leftarrow> iterator_to a (lru c);
                          Some (Some it, c) } }"

definition getImpl :: "'k \<Rightarrow> ('k, 'v, 'w) cache \<Rightarrow> ('v, 'k, 'v, 'w) outcome" where
  "getImpl key c =
     do { (it, c) \<leftarrow> findImpl key c;
          case it of
            None \<Rightarrow> Some (Inl OutOfRange, c)
          | Some a \<Rightarrow> do { (_, v) \<leftarrow> nodes c a; Some (Inr v, c) } }"

definition findWithoutPromotionImpl :: "'k \<Rightarrow> ('k, 'v, 'w) cache \<Rightarrow> node option option" where
  "findWithoutPromotionImpl key c =
     do { ptr \<leftarrow> findInIndex key c;
          case ptr of
            Some a \<Rightarrow> do { it \<leftarrow> iterator_to a (lru c); Some (Some it) }
          | None \<Rightarrow> Some None }"

definition getWithoutPromotionImpl :: "'k \<Rightarrow> ('k, 'v, 'w) cache \<Rightarrow> (cache_error + 'v) option" where
  "getWithoutPromotionImpl key c =
     do { it \<leftarrow> findWithoutPromotionImpl key c;
          case it of
            None \<Rightarrow> Some (Inl OutOfRange)
          | Some a \<Rightarrow> do { (_, v) \<leftarrow> nodes c a; Some (Inr v) } }"

definition eraseImpl ::
    "node \<Rightarrow> ('k, 'v, 'w) hook option \<Rightarrow> ('k, 'v, 'w) cache \<Rightarrow> (node option, 'k, 'v, 'w) outcome" where
  "eraseImpl ptr eraseHook c =
     do { idx \<leftarrow> index_erase (nodes c) ptr (index c);
          let c = c\<lparr>index := idx\<rparr>;
          (next_iter, l) \<leftarrow> list_erase ptr (lru c);
          let c = c\<lparr>lru := l\<rparr>;
          (ok, c) \<leftarrow> call_hook eraseHook ptr c;
          c \<leftarrow> delete_node ptr c;
          Some (if ok then Inr next_iter else Inl HookThrew, c) }"

definition eraseKeyImpl ::
    "'k \<Rightarrow> ('k, 'v, 'w) hook option \<Rightarrow> ('k, 'v, 'w) cache \<Rightarrow> (bool, 'k, 'v, 'w) outcome" where
  "eraseKeyImpl key eraseHook c =
     do { ptr \<leftarrow> findInIndex key c;
          case ptr of
            Some a \<Rightarrow> do { it \<leftarrow> iterator_to a (lru c);
                          (r, c) \<leftarrow> eraseImpl it eraseHook c;
                          Some (case r of Inl e \<Rightarrow> Inl e | Inr _ \<Rightarrow> Inr True, c) }
          | None \<Rightarrow> Some (Inr False, c) }"

text \<open>The overload for an iterator; \<open>end()\<close> may not be dereferenced.\<close>

definition erase_at ::
    "node option \<Rightarrow> ('k, 'v, 'w) hook option \<Rightarrow> ('k, 'v, 'w) cache \<Rightarrow> (node option, 'k, 'v, 'w) outcome" where
  "erase_at pos eraseHook c = do { ptr \<leftarrow> pos; eraseImpl ptr eraseHook c }"

text \<open>The eviction at the end of \<open>setImpl\<close> and \<open>insertImpl\<close>.\<close>

definition evict :: "('k, 'v, 'w) hook option \<Rightarrow> ('k, 'v, 'w) cache \<Rightarrow> (unit, 'k, 'v, 'w) outcome" where
  "evict ph c = (if maxSize c > 0 \<and> cache_size c > maxSize c then prune (clearSize c) ph c else Some (Inr (), c))"

definition setImpl ::
    "'k \<Rightarrow> 'v \<Rightarrow> bool \<Rightarrow> ('k, 'v, 'w) hook option \<Rightarrow> ('k, 'v, 'w) cache \<Rightarrow> (unit, 'k, 'v, 'w) outcome" where
  "setImpl key val promote ph c =
     do { ptr \<leftarrow> findInIndex key c;
          case ptr of
            Some a \<Rightarrow>
              do { (k, _) \<leftarrow> nodes c a;
                   let c = c\<lparr>nodes := (nodes c)(a \<mapsto> (k, val))\<rparr>;
                   if promote then do { l \<leftarrow> splice_front a (lru c); Some (Inr (), c\<lparr>lru := l\<rparr>) }
                   else Some (Inr (), c) }
          | None \<Rightarrow>
              do { let (node, c) = new_node key val c;
                   (_, _, idx) \<leftarrow> index_insert (nodes c) node (index c);
                   let c = c\<lparr>index := idx\<rparr>;
                   let c = c\<lparr>lru := node # lru c\<rparr>;
                   evict ph c } }"

definition insertImpl_node ::
    "node \<Rightarrow> ('k, 'v, 'w) hook option \<Rightarrow> ('k, 'v, 'w) cache \<Rightarrow> (node \<times> bool, 'k, 'v, 'w) outcome" where
  "insertImpl_node node ph c =
     do { (a, inserted, idx) \<leftarrow> index_insert (nodes c) node (index c);
          let c = c\<lparr>index := idx\<rparr>;
          if \<not> inserted then
            do { it \<leftarrow> iterator_to a (lru c); c \<leftarrow> delete_node node c; Some (Inr (it, False), c) }
          else
            do { let c = c\<lparr>lru := node # lru c\<rparr>;
                 (r, c) \<leftarrow> evict ph c;
                 case r of
                   Inl e \<Rightarrow> Some (Inl e, c)
                 | Inr _ \<Rightarrow> do { it \<leftarrow> iterator_to node (lru c); Some (Inr (it, True), c) } } }"

definition insertImpl ::
    "'k \<Rightarrow> 'v \<Rightarrow> ('k, 'v, 'w) hook option \<Rightarrow> ('k, 'v, 'w) cache \<Rightarrow> (node \<times> bool, 'k, 'v, 'w) outcome" where
  "insertImpl key val ph c = (let (node, c) = new_node key val c in insertImpl_node node ph c)"

definition emplaceWithPruneHook ::
    "'k \<Rightarrow> 'v \<Rightarrow> ('k, 'v, 'w) hook option \<Rightarrow> ('k, 'v, 'w) cache \<Rightarrow> (node \<times> bool, 'k, 'v, 'w) outcome" where
  "emplaceWithPruneHook key val ph c = (let (node, c) = new_node key val c in insertImpl_node node ph c)"

definition try_emplace :: "'k \<Rightarrow> 'v \<Rightarrow> ('k, 'v, 'w) cache \<Rightarrow> (node \<times> bool, 'k, 'v, 'w) outcome" where
  "try_emplace key val c = emplaceWithPruneHook key val None c"

text \<open>The destructor of the list deletes its nodes.\<close>

fun clear_nodes :: "node list \<Rightarrow> ('k, 'v, 'w) cache \<Rightarrow> ('k, 'v, 'w) cache option" where
  "clear_nodes [] c = Some (c\<lparr>lru := []\<rparr>)"
| "clear_nodes (a # l) c = do { c \<leftarrow> delete_node a c; clear_nodes l c }"

definition EvictingCacheMap_destroy :: "('k, 'v, 'w) cache \<Rightarrow> ('k, 'v, 'w) cache option" where
  "EvictingCacheMap_destroy c = clear_nodes (lru c) c"

end
