(* ===== verification/EvictingCacheMap_Correct.thy ===== *)
theory EvictingCacheMap_Correct
  imports EvictingCacheMap
begin

text \<open>
  An \<open>EvictingCacheMap\<close> is a list of entries in the order of their last use. The list, the index and the
  heap are shown to stay consistent, and each operation to do on the entries what it says.
\<close>

section \<open>Simulation\<close>

text \<open>Running a list of operations, each of which may go wrong.\<close>

primrec run_ops :: "('op \<Rightarrow> 's \<Rightarrow> ('r \<times> 's) option) \<Rightarrow> 'op list \<Rightarrow> 's \<Rightarrow> ('r list \<times> 's) option" where
  "run_ops step [] s = Some ([], s)"
| "run_ops step (op # ops) s = do { (r, s) \<leftarrow> step op s; (rs, s) \<leftarrow> run_ops step ops s; Some (r # rs, s) }"

text \<open>A simulation: the steps of an implementation are those of a specification, seen through \<open>abs\<close>.\<close>

locale simulation =
  fixes step :: "'op \<Rightarrow> 's \<Rightarrow> ('r \<times> 's) option"
    and spec :: "'op \<Rightarrow> 'a \<Rightarrow> ('r \<times> 'a) option"
    and abs :: "'s \<Rightarrow> 'a"
    and ok :: "'s \<Rightarrow> bool"
  assumes step_spec: "ok s \<Longrightarrow> spec op (abs s) = map_option (\<lambda>(r, s'). (r, abs s')) (step op s)"
    and step_ok: "ok s \<Longrightarrow> step op s = Some (r, s') \<Longrightarrow> ok s'"
begin

lemma run_spec:
  "ok s \<Longrightarrow> run_ops spec ops (abs s) = map_option (\<lambda>(rs, s'). (rs, abs s')) (run_ops step ops s)"
proof (induction ops arbitrary: s)
  case (Cons op ops)
  show ?case
  proof (cases "step op s")
    case None
    then show ?thesis using step_spec [OF Cons.prems, of op] by simp
  next
    case (Some p)
    then obtain r s' where s': "step op s = Some (r, s')" by (cases p) auto
    note IH = Cons.IH [OF step_ok [OF Cons.prems s']]
    show ?thesis
      using step_spec [OF Cons.prems, of op] s' IH
      by (cases "run_ops step ops s'") auto
  qed
qed simp

lemma run_ok: "ok s \<Longrightarrow> run_ops step ops s = Some (rs, s') \<Longrightarrow> ok s'"
proof (induction ops arbitrary: s rs)
  case (Cons op ops)
  then obtain r s1 rs1 where "step op s = Some (r, s1)" "run_ops step ops s1 = Some (rs1, s')"
    by (auto split: bind_splits)
  then show ?case using Cons.IH step_ok Cons.prems(1) by blast
qed simp

end

section \<open>Specification\<close>

record ('k, 'v, 'w) lru_cache =
  entries :: "('k \<times> 'v) list"
  l_max :: nat
  l_clear :: nat
  l_hook :: "('k, 'v, 'w) hook option"
  l_world :: 'w

definition lru_init :: "nat \<Rightarrow> nat \<Rightarrow> 'w \<Rightarrow> ('k, 'v, 'w) lru_cache" where
  "lru_init m n w = \<lparr>entries = [], l_max = m, l_clear = n, l_hook = None, l_world = w\<rparr>"

fun lru_call :: "('k, 'v, 'w) hook option \<Rightarrow> 'k \<times> 'v \<Rightarrow> ('k, 'v, 'w) lru_cache \<Rightarrow> bool \<times> ('k, 'v, 'w) lru_cache" where
  "lru_call None e s = (True, s)"
| "lru_call (Some h) (k, v) s = (case h k v (l_world s) of (ok, w) \<Rightarrow> (ok, s\<lparr>l_world := w\<rparr>))"

primrec lru_prune_loop ::
    "nat \<Rightarrow> ('k, 'v, 'w) hook option \<Rightarrow> ('k, 'v, 'w) lru_cache \<Rightarrow> (cache_error + unit) \<times> ('k, 'v, 'w) lru_cache" where
  "lru_prune_loop 0 ph s = (Inr (), s)"
| "lru_prune_loop (Suc n) ph s =
     (if entries s = [] then (Inr (), s)
      else case lru_call ph (last (entries s)) (s\<lparr>entries := butlast (entries s)\<rparr>) of
             (ok, s) \<Rightarrow> if ok then lru_prune_loop n ph s else (Inl HookThrew, s))"

definition lru_prune ::
    "nat \<Rightarrow> ('k, 'v, 'w) hook option \<Rightarrow> ('k, 'v, 'w) lru_cache \<Rightarrow> (cache_error + unit) \<times> ('k, 'v, 'w) lru_cache" where
  "lru_prune n ph s = lru_prune_loop n (case ph of None \<Rightarrow> l_hook s | Some h \<Rightarrow> Some h) s"

definition lru_evict ::
    "('k, 'v, 'w) hook option \<Rightarrow> ('k, 'v, 'w) lru_cache \<Rightarrow> (cache_error + unit) \<times> ('k, 'v, 'w) lru_cache" where
  "lru_evict ph s = (if l_max s > 0 \<and> length (entries s) > l_max s then lru_prune (l_clear s) ph s else (Inr (), s))"

definition lru_touch :: "'k \<Rightarrow> 'v \<Rightarrow> ('k, 'v, 'w) lru_cache \<Rightarrow> ('k, 'v, 'w) lru_cache" where
  "lru_touch k v s = s\<lparr>entries := (k, v) # AList.delete k (entries s)\<rparr>"

text \<open>The entry after the one with key \<open>k\<close>.\<close>

definition entry_after :: "'k \<Rightarrow> ('k \<times> 'v) list \<Rightarrow> ('k \<times> 'v) option" where
  "entry_after k es = (case dropWhile (\<lambda>e. fst e \<noteq> k) es of _ # e # _ \<Rightarrow> Some e | _ \<Rightarrow> None)"

datatype ('k, 'v, 'w) cache_op =
    Exists 'k | Get 'k | Find 'k | GetWithoutPromotion 'k | FindWithoutPromotion 'k
  | EraseKey 'k "('k, 'v, 'w) hook option"
  | EraseAt 'k "('k, 'v, 'w) hook option"
  | SetValue 'k 'v bool "('k, 'v, 'w) hook option"
  | Insert 'k 'v "('k, 'v, 'w) hook option"
  | Prune nat "('k, 'v, 'w) hook option"
  | ClearAll "('k, 'v, 'w) hook option"
  | SetMaxSize nat "('k, 'v, 'w) hook option"
  | SetClearSize nat
  | SetPruneHook "('k, 'v, 'w) hook option"
  | Size

datatype ('k, 'v) cache_result =
    Threw cache_error | Done | Bool bool | Value 'v | Iter "('k \<times> 'v) option" | Inserted "'k \<times> 'v" bool | Count nat

definition lru_result :: "(cache_error + unit) \<times> 's \<Rightarrow> (('k, 'v) cache_result \<times> 's) option" where
  "lru_result p = Some (case fst p of Inl e \<Rightarrow> Threw e | Inr _ \<Rightarrow> Done, snd p)"

definition lru_erase ::
    "'k \<Rightarrow> ('k, 'v, 'w) hook option \<Rightarrow> ('k, 'v) cache_result \<Rightarrow> 'v \<Rightarrow> ('k, 'v, 'w) lru_cache \<Rightarrow>
     ('k, 'v) cache_result \<times> ('k, 'v, 'w) lru_cache" where
  "lru_erase k ph res v s =
     (case lru_call ph (k, v) (s\<lparr>entries := AList.delete k (entries s)\<rparr>) of
        (ok, s) \<Rightarrow> (if ok then res else Threw HookThrew, s))"

text \<open>An insertion that evicts the new entry itself has no entry to point to.\<close>

fun lru_step :: "('k, 'v, 'w) cache_op \<Rightarrow> ('k, 'v, 'w) lru_cache \<Rightarrow>
    (('k, 'v) cache_result \<times> ('k, 'v, 'w) lru_cache) option" where
  "lru_step (Exists k) s = Some (Bool (map_of (entries s) k \<noteq> None), s)"
| "lru_step (Get k) s = Some (case map_of (entries s) k of
     None \<Rightarrow> (Threw OutOfRange, s) | Some v \<Rightarrow> (Value v, lru_touch k v s))"
| "lru_step (Find k) s = Some (case map_of (entries s) k of
     None \<Rightarrow> (Iter None, s) | Some v \<Rightarrow> (Iter (Some (k, v)), lru_touch k v s))"
| "lru_step (GetWithoutPromotion k) s = Some (case map_of (entries s) k of
     None \<Rightarrow> (Threw OutOfRange, s) | Some v \<Rightarrow> (Value v, s))"
| "lru_step (FindWithoutPromotion k) s = Some (Iter (map_option (Pair k) (map_of (entries s) k)), s)"
| "lru_step (EraseKey k ph) s = Some (case map_of (entries s) k of
     None \<Rightarrow> (Bool False, s) | Some v \<Rightarrow> lru_erase k ph (Bool True) v s)"
| "lru_step (EraseAt k ph) s = (case map_of (entries s) k of
     None \<Rightarrow> None | Some v \<Rightarrow> Some (lru_erase k ph (Iter (entry_after k (entries s))) v s))"
| "lru_step (SetValue k v promote ph) s = (case map_of (entries s) k of
     Some _ \<Rightarrow> Some (Done, if promote then lru_touch k v s else s\<lparr>entries := AList.update k v (entries s)\<rparr>)
   | None \<Rightarrow> lru_result (lru_evict ph (s\<lparr>entries := (k, v) # entries s\<rparr>)))"
| "lru_step (Insert k v ph) s = (case map_of (entries s) k of
     Some v' \<Rightarrow> Some (Inserted (k, v') False, s)
   | None \<Rightarrow> (case lru_evict ph (s\<lparr>entries := (k, v) # entries s\<rparr>) of
                (Inl e, s) \<Rightarrow> Some (Threw e, s)
              | (Inr _, s) \<Rightarrow> if entries s = [] then None else Some (Inserted (k, v) True, s)))"
| "lru_step (Prune n ph) s = lru_result (lru_prune n ph s)"
| "lru_step (ClearAll ph) s = lru_result (lru_prune (length (entries s)) ph s)"
| "lru_step (SetMaxSize n ph) s =
     (case (if n \<noteq> 0 \<and> n < length (entries s)
            then lru_prune (max (length (entries s) - n) (l_clear s)) ph s else (Inr (), s)) of
        (Inl e, s) \<Rightarrow> Some (Threw e, s)
      | (Inr _, s) \<Rightarrow> Some (Done, s\<lparr>l_max := n\<rparr>))"
| "lru_step (SetClearSize n) s = Some (Done, s\<lparr>l_clear := n\<rparr>)"
| "lru_step (SetPruneHook ph) s = Some (Done, s\<lparr>l_hook := ph\<rparr>)"
| "lru_step Size s = Some (Count (length (entries s)), s)"

section \<open>The cache as such a list\<close>

text \<open>The entry that an iterator points to.\<close>

definition deref :: "('k, 'v, 'w) cache \<Rightarrow> node option \<Rightarrow> ('k \<times> 'v) option option" where
  "deref c it = (case it of None \<Rightarrow> Some None | Some a \<Rightarrow> map_option Some (nodes c a))"

definition unit_result :: "(unit, 'k, 'v, 'w) outcome \<Rightarrow> (('k, 'v) cache_result \<times> ('k, 'v, 'w) cache) option" where
  "unit_result p = map_option (\<lambda>(r, c). (case r of Inl e \<Rightarrow> Threw e | Inr _ \<Rightarrow> Done, c)) p"

fun cache_step :: "('k, 'v, 'w) cache_op \<Rightarrow> ('k, 'v, 'w) cache \<Rightarrow>
    (('k, 'v) cache_result \<times> ('k, 'v, 'w) cache) option" where
  "cache_step (Exists k) c = do { b \<leftarrow> existsImpl k c; Some (Bool b, c) }"
| "cache_step (Get k) c =
     do { (r, c) \<leftarrow> getImpl k c; Some (case r of Inl e \<Rightarrow> Threw e | Inr v \<Rightarrow> Value v, c) }"
| "cache_step (Find k) c = do { (it, c) \<leftarrow> findImpl k c; e \<leftarrow> deref c it; Some (Iter e, c) }"
| "cache_step (GetWithoutPromotion k) c =
     do { r \<leftarrow> getWithoutPromotionImpl k c; Some (case r of Inl e \<Rightarrow> Threw e | Inr v \<Rightarrow> Value v, c) }"
| "cache_step (FindWithoutPromotion k) c =
     do { it \<leftarrow> findWithoutPromotionImpl k c; e \<leftarrow> deref c it; Some (Iter e, c) }"
| "cache_step (EraseKey k ph) c =
     do { (r, c) \<leftarrow> eraseKeyImpl k ph c; Some (case r of Inl e \<Rightarrow> Threw e | Inr b \<Rightarrow> Bool b, c) }"
| "cache_step (EraseAt k ph) c =
     do { it \<leftarrow> findWithoutPromotionImpl k c;
          (r, c) \<leftarrow> erase_at it ph c;
          case r of Inl e \<Rightarrow> Some (Threw e, c) | Inr it \<Rightarrow> do { e \<leftarrow> deref c it; Some (Iter e, c) } }"
| "cache_step (SetValue k v promote ph) c = unit_result (setImpl k v promote ph c)"
| "cache_step (Insert k v ph) c =
     do { (r, c) \<leftarrow> insertImpl k v ph c;
          case r of Inl e \<Rightarrow> Some (Threw e, c)
                  | Inr (a, b) \<Rightarrow> do { e \<leftarrow> nodes c a; Some (Inserted e b, c) } }"
| "cache_step (Prune n ph) c = unit_result (prune n ph c)"
| "cache_step (ClearAll ph) c = unit_result (cache_clear ph c)"
| "cache_step (SetMaxSize n ph) c = unit_result (setMaxSize n ph c)"
| "cache_step (SetClearSize n) c = Some (Done, setClearSize n c)"
| "cache_step (SetPruneHook ph) c = Some (Done, setPruneHook ph c)"
| "cache_step Size c = Some (Count (cache_size c), c)"

section \<open>Consistency\<close>

definition entries_of :: "(node \<rightharpoonup> 'k \<times> 'v) \<Rightarrow> node list \<Rightarrow> ('k \<times> 'v) list" where
  "entries_of ns l = map (\<lambda>a. the (ns a)) l"

definition lru_of :: "('k, 'v, 'w) cache \<Rightarrow> ('k, 'v, 'w) lru_cache" where
  "lru_of c = \<lparr>entries = entries_of (nodes c) (lru c), l_max = maxSize c, l_clear = clearSize c,
     l_hook = pruneHook c, l_world = world c\<rparr>"

definition cache_ok :: "('k, 'v, 'w) cache \<Rightarrow> bool" where
  "cache_ok c \<longleftrightarrow> distinct (lru c) \<and> distinct (index c) \<and> set (index c) = set (lru c) \<and>
     dom (nodes c) = set (lru c) \<and> (\<forall>a \<in> set (lru c). a < fresh c) \<and>
     distinct (map fst (entries_of (nodes c) (lru c)))"

lemma entries_of_simps [simp]:
  "entries_of ns [] = []" "entries_of ns (a # l) = the (ns a) # entries_of ns l"
  "entries_of ns (l @ m) = entries_of ns l @ entries_of ns m" "length (entries_of ns l) = length l"
  "entries_of ns l = [] \<longleftrightarrow> l = []"
  by (simp_all add: entries_of_def)

lemma entries_of_upd [simp]: "a \<notin> set l \<Longrightarrow> entries_of (ns(a := x)) l = entries_of ns l"
  by (auto simp: entries_of_def)

lemma lru_of_simps [simp]:
  "l_max (lru_of c) = maxSize c" "l_clear (lru_of c) = clearSize c" "l_hook (lru_of c) = pruneHook c"
  "length (entries (lru_of c)) = length (lru c)" "entries (lru_of c) = [] \<longleftrightarrow> lru c = []"
  by (simp_all add: lru_of_def)

lemma size_ok: "cache_ok c \<Longrightarrow> cache_size c = length (lru c)"
  by (metis cache_ok_def cache_size_def distinct_card)

lemma index_find_eq: "set idx \<subseteq> dom ns \<Longrightarrow> index_find ns k idx = Some (find (\<lambda>a. fst (the (ns a)) = k) idx)"
  by (induction idx) (auto simp: split_beta)

lemma key_unique:
  assumes "cache_ok c" and "a \<in> set (lru c)" "b \<in> set (lru c)" and "fst (the (nodes c a)) = fst (the (nodes c b))"
  shows "a = b"
proof -
  have "inj_on (\<lambda>a. fst (the (nodes c a))) (set (lru c))"
    using assms(1) by (simp add: cache_ok_def entries_of_def distinct_map comp_def)
  then show ?thesis using assms by (simp add: inj_on_def)
qed

text \<open>A key is in the cache or not; in the cache, its node splits the list.\<close>

lemma lookup_cases:
  assumes ok: "cache_ok c"
  obtains (missing) "findInIndex k c = Some None" "map_of (entries (lru_of c)) k = None"
      "k \<notin> fst ` set (entries_of (nodes c) (lru c))"
    | (found) a v xs ys where "findInIndex k c = Some (Some a)" "nodes c a = Some (k, v)" "lru c = xs @ a # ys"
proof (cases "find (\<lambda>a. fst (the (nodes c a)) = k) (index c)")
  case None
  then have "k \<notin> fst ` set (entries_of (nodes c) (lru c))"
    using ok by (auto simp: find_None_iff cache_ok_def entries_of_def)
  moreover have "findInIndex k c = Some None"
    using None ok by (simp add: findInIndex_def index_find_eq cache_ok_def)
  ultimately show ?thesis using missing by (simp add: lru_of_def map_of_eq_None_iff)
next
  case (Some a)
  then have a: "a \<in> set (lru c)" "fst (the (nodes c a)) = k"
    using ok by (auto simp: find_Some_iff cache_ok_def)
  then obtain xs ys where "lru c = xs @ a # ys" by (auto simp: in_set_conv_decomp)
  moreover have "a \<in> dom (nodes c)" using a(1) ok by (simp add: cache_ok_def)
  then obtain v where "nodes c a = Some (k, v)" using a(2) by auto
  moreover have "findInIndex k c = Some (Some a)"
    using Some ok by (simp add: findInIndex_def index_find_eq cache_ok_def)
  ultimately show ?thesis using found by blast
qed

lemma delete_key: "k \<notin> fst ` set es \<Longrightarrow> AList.delete k es = es"
  by (induction es) auto

lemma delete_append: "AList.delete k (es @ fs) = AList.delete k es @ AList.delete k fs"
  by (simp add: AList.delete_eq)

lemma update_append: "k \<notin> fst ` set es \<Longrightarrow> AList.update k v (es @ fs) = es @ AList.update k v fs"
  by (induction es) auto

lemma found_split:
  assumes ok: "cache_ok c" and a: "nodes c a = Some (k, v)" "lru c = xs @ a # ys"
  shows "entries (lru_of c) = entries_of (nodes c) xs @ (k, v) # entries_of (nodes c) ys"
    and "k \<notin> fst ` set (entries_of (nodes c) xs)" and "k \<notin> fst ` set (entries_of (nodes c) ys)"
    and "a \<notin> set xs" "a \<notin> set ys" "a \<in> set (index c)"
    and "index_erase (nodes c) a (index c) = Some (remove1 a (index c))"
proof -
  show "entries (lru_of c) = entries_of (nodes c) xs @ (k, v) # entries_of (nodes c) ys"
    using a by (simp add: lru_of_def)
  show k: "k \<notin> fst ` set (entries_of (nodes c) xs)" "k \<notin> fst ` set (entries_of (nodes c) ys)"
    using ok a by (auto simp: cache_ok_def)
  show "a \<notin> set xs" "a \<notin> set ys" "a \<in> set (index c)" using ok a by (auto simp: cache_ok_def)
  have "findInIndex k c = Some (Some a)"
  proof (cases rule: lookup_cases [OF ok, of k])
    case 1
    then show ?thesis using a by auto
  next
    case (2 b w us vs)
    have "b \<in> set (lru c)" unfolding 2(3) by simp
    moreover have "a \<in> set (lru c)" unfolding a(2) by simp
    ultimately have "b = a" by (rule key_unique [OF ok]) (simp add: a 2)
    then show ?thesis using 2 by simp
  qed
  then show "index_erase (nodes c) a (index c) = Some (remove1 a (index c))"
    using a by (simp add: index_erase_def findInIndex_def)
qed

lemma found_lookup:
  assumes "cache_ok c" and "nodes c a = Some (k, v)" "lru c = xs @ a # ys"
  shows "map_of (entries (lru_of c)) k = Some v"
    and "AList.delete k (entries (lru_of c)) = entries_of (nodes c) xs @ entries_of (nodes c) ys"
    and "AList.update k v' (entries (lru_of c)) = entries_of (nodes c) xs @ (k, v') # entries_of (nodes c) ys"
    and "remove1 a (lru c) = xs @ ys" and "a \<in> set (lru c)"
proof -
  note f = found_split [OF assms]
  show "map_of (entries (lru_of c)) k = Some v"
    using f(1,2) by (simp add: map_add_dom_app_simps dom_map_of_conv_image_fst map_add_Some_iff map_of_eq_None_iff)
  show "AList.delete k (entries (lru_of c)) = entries_of (nodes c) xs @ entries_of (nodes c) ys"
    using f(1-3) by (simp add: delete_append delete_key)
  show "AList.update k v' (entries (lru_of c)) = entries_of (nodes c) xs @ (k, v') # entries_of (nodes c) ys"
    using f(1,2) by (simp add: update_append)
  show "remove1 a (lru c) = xs @ ys" "a \<in> set (lru c)" using assms(3) f(4) by (simp_all add: remove1_append)
qed

section \<open>The changes of a cache\<close>

lemma touch_ok:
  assumes "cache_ok c" and "nodes c a = Some (k, v)" "lru c = xs @ a # ys"
  shows "splice_front a (lru c) = Some (a # xs @ ys)" and "cache_ok (c\<lparr>lru := a # xs @ ys\<rparr>)"
    and "lru_of (c\<lparr>lru := a # xs @ ys\<rparr>) = lru_touch k v (lru_of c)"
proof -
  note f = found_split [OF assms] found_lookup [OF assms]
  show "splice_front a (lru c) = Some (a # xs @ ys)"
    using f(11,12) by (simp add: splice_front_def iterator_to_def)
  show "cache_ok (c\<lparr>lru := a # xs @ ys\<rparr>)" using assms f(2,3) by (auto simp: cache_ok_def)
  show "lru_of (c\<lparr>lru := a # xs @ ys\<rparr>) = lru_touch k v (lru_of c)"
    using assms(2) f(9) by (simp add: lru_touch_def) (simp add: lru_of_def)
qed

lemma remove_ok:
  assumes "cache_ok c" and "nodes c a = Some (k, v)" "lru c = xs @ a # ys"
    and "c' = c\<lparr>index := remove1 a (index c), lru := xs @ ys, nodes := (nodes c)(a := None), world := w\<rparr>"
  shows "cache_ok c'"
    and "lru_of c' = (lru_of c)\<lparr>entries := entries_of (nodes c) xs @ entries_of (nodes c) ys, l_world := w\<rparr>"
proof -
  note f = found_split [OF assms(1-3)]
  show "cache_ok c'" using assms f(4,5) by (auto simp: cache_ok_def distinct_remove1)
  show "lru_of c' = (lru_of c)\<lparr>entries := entries_of (nodes c) xs @ entries_of (nodes c) ys, l_world := w\<rparr>"
    using assms(4) f(4,5) by (simp add: lru_of_def)
qed

lemma add_ok:
  assumes "cache_ok c" and "k \<notin> fst ` set (entries_of (nodes c) (lru c))"
    and "c' = c\<lparr>index := index c @ [fresh c], lru := fresh c # lru c,
      nodes := (nodes c)(fresh c \<mapsto> (k, v)), fresh := Suc (fresh c)\<rparr>"
  shows "cache_ok c'" and "lru_of c' = (lru_of c)\<lparr>entries := (k, v) # entries (lru_of c)\<rparr>"
proof -
  have f: "fresh c \<notin> set (lru c)" using assms(1) by (auto simp: cache_ok_def)
  then show "cache_ok c'" using assms by (auto simp: cache_ok_def)
  show "lru_of c' = (lru_of c)\<lparr>entries := (k, v) # entries (lru_of c)\<rparr>"
    using f assms(3) by (simp add: lru_of_def)
qed

lemma replace_ok:
  assumes "cache_ok c" and "nodes c a = Some (k, v)" "lru c = xs @ a # ys" and "c' = c\<lparr>nodes := (nodes c)(a \<mapsto> (k, v'))\<rparr>"
  shows "cache_ok c'" and "lru_of c' = (lru_of c)\<lparr>entries := AList.update k v' (entries (lru_of c))\<rparr>"
    and "nodes c' a = Some (k, v')" "lru c' = xs @ a # ys"
proof -
  note f = found_split [OF assms(1-3)] found_lookup [OF assms(1-3)]
  show "cache_ok c'" using assms f(2-5) by (auto simp: cache_ok_def)
  show "lru_of c' = (lru_of c)\<lparr>entries := AList.update k v' (entries (lru_of c))\<rparr>"
    unfolding f(10) using assms(3,4) f(4,5) by (simp add: lru_of_def)
  show "nodes c' a = Some (k, v')" "lru c' = xs @ a # ys" using assms(3,4) by simp_all
qed

text \<open>Removing a node with a call of a hook, as \<open>prune\<close> and \<open>eraseImpl\<close> do.\<close>

lemma call_hook_eq:
  assumes "nodes c a = Some e"
  shows "\<exists>w. call_hook ph a c = Some (fst (lru_call ph e (lru_of c)), c\<lparr>world := w\<rparr>) \<and>
    (\<forall>es. lru_call ph e ((lru_of c)\<lparr>entries := es\<rparr>) =
       (fst (lru_call ph e (lru_of c)), (lru_of c)\<lparr>entries := es, l_world := w\<rparr>))"
proof (cases ph)
  case None
  then show ?thesis by (intro exI [of _ "world c"]) (simp add: call_hook_def lru_of_def)
next
  case (Some h)
  obtain k v where "e = (k, v)" by (cases e)
  then show ?thesis
    using Some assms by (cases "h k v (world c)") (auto simp: call_hook_def lru_of_def)
qed

lemma drop_node:
  assumes ok: "cache_ok c" and a: "nodes c a = Some (k, v)" "lru c = xs @ a # ys"
    and c1: "c1 = c\<lparr>index := remove1 a (index c), lru := xs @ ys\<rparr>"
  obtains b c2 c' where "call_hook ph a c1 = Some (b, c2)" "delete_node a c2 = Some c'" "cache_ok c'"
    "lru_call ph (k, v) ((lru_of c)\<lparr>entries := entries_of (nodes c) xs @ entries_of (nodes c) ys\<rparr>) = (b, lru_of c')"
    "lru c' = xs @ ys" "nodes c' = (nodes c)(a := None)"
proof -
  have "nodes c1 a = Some (k, v)" using a c1 by simp
  then obtain w where w: "call_hook ph a c1 = Some (fst (lru_call ph (k, v) (lru_of c1)), c1\<lparr>world := w\<rparr>)"
    "\<And>es. lru_call ph (k, v) ((lru_of c1)\<lparr>entries := es\<rparr>) =
       (fst (lru_call ph (k, v) (lru_of c1)), (lru_of c1)\<lparr>entries := es, l_world := w\<rparr>)"
    using call_hook_eq [of c1 a "(k, v)" ph] by blast
  let ?es = "entries_of (nodes c) xs @ entries_of (nodes c) ys"
  define c' where "c' = c\<lparr>index := remove1 a (index c), lru := xs @ ys, nodes := (nodes c)(a := None), world := w\<rparr>"
  have "delete_node a (c1\<lparr>world := w\<rparr>) = Some c'" using a c1 by (simp add: delete_node_def c'_def)
  moreover have "(lru_of c1)\<lparr>entries := ?es\<rparr> = (lru_of c)\<lparr>entries := ?es\<rparr>" by (simp add: lru_of_def c1)
  then have "lru_call ph (k, v) ((lru_of c)\<lparr>entries := ?es\<rparr>) = (fst (lru_call ph (k, v) (lru_of c1)), lru_of c')"
    using w(2) [of ?es] remove_ok(2) [OF ok a c'_def] by (simp add: lru_of_def c1)
  ultimately show ?thesis
    using that [OF w(1)] remove_ok(1) [OF ok a c'_def] by (simp add: c'_def)
qed

lemma erase_spec:
  assumes ok: "cache_ok c" and a: "nodes c a = Some (k, v)" "lru c = xs @ a # ys"
  obtains b c' where "eraseImpl a ph c = Some (if b then Inr (next_of a (lru c)) else Inl HookThrew, c')" "cache_ok c'"
    "lru_call ph (k, v) ((lru_of c)\<lparr>entries := AList.delete k (entries (lru_of c))\<rparr>) = (b, lru_of c')"
    "nodes c' = (nodes c)(a := None)"
proof -
  note f = found_split(6,7) [OF assms] found_lookup [OF assms]
  obtain b c2 c' where d: "call_hook ph a (c\<lparr>index := remove1 a (index c), lru := xs @ ys\<rparr>) = Some (b, c2)"
    "delete_node a c2 = Some c'" "cache_ok c'"
    "lru_call ph (k, v) ((lru_of c)\<lparr>entries := entries_of (nodes c) xs @ entries_of (nodes c) ys\<rparr>) = (b, lru_of c')"
    "nodes c' = (nodes c)(a := None)"
    using drop_node [OF ok a refl, of ph] by metis
  have "eraseImpl a ph c = Some (if b then Inr (next_of a (lru c)) else Inl HookThrew, c')"
    using f(2,6,7) d(1,2) by (simp add: eraseImpl_def list_erase_def iterator_to_def)
  then show ?thesis using that d(3-5) f(4) by simp
qed

text \<open>Pruning keeps a prefix of the list.\<close>

lemma prune_turn:
  assumes ok: "cache_ok c" and ne: "lru c \<noteq> []"
  obtains b c' where "prune_loop (Suc n) ph c = (if b then prune_loop n ph c' else Some (Inl HookThrew, c'))" "cache_ok c'"
    "lru_call ph (last (entries (lru_of c))) ((lru_of c)\<lparr>entries := butlast (entries (lru_of c))\<rparr>) = (b, lru_of c')"
    "lru c' = butlast (lru c)" "nodes c' = (nodes c)(last (lru c) := None)"
proof -
  let ?a = "last (lru c)" and ?xs = "butlast (lru c)"
  have l: "lru c = ?xs @ ?a # []" using ne by simp
  have "?a \<in> dom (nodes c)" using ok ne by (simp add: cache_ok_def)
  then obtain k v where a: "nodes c ?a = Some (k, v)" by auto
  note f = found_split(1,6,7) [OF ok a l] found_lookup(4,5) [OF ok a l]
  obtain b c2 c' where d: "call_hook ph ?a (c\<lparr>index := remove1 ?a (index c), lru := ?xs\<rparr>) = Some (b, c2)"
    "delete_node ?a c2 = Some c'" "cache_ok c'"
    "lru_call ph (k, v) ((lru_of c)\<lparr>entries := entries_of (nodes c) ?xs\<rparr>) = (b, lru_of c')"
    "lru c' = ?xs" "nodes c' = (nodes c)(?a := None)"
    using drop_node [OF ok a l refl, of ph] by (metis append_Nil2 entries_of_simps(1))
  have upd: "c\<lparr>lru := ?xs, index := remove1 ?a (index c)\<rparr> = c\<lparr>index := remove1 ?a (index c), lru := ?xs\<rparr>" by simp
  have hook: "call_hook ph ?a (c\<lparr>lru := ?xs, index := remove1 ?a (index c)\<rparr>) = Some (b, c2)"
    unfolding upd by (rule d(1))
  have "prune_loop (Suc n) ph c = (if b then prune_loop n ph c' else Some (Inl HookThrew, c'))"
    using ne f(3-5) hook d(2) by (simp add: list_erase_def iterator_to_def Let_def)
  then show ?thesis using that d(3-6) f(1) by simp
qed

definition prunes_to :: "('k, 'v, 'w) cache \<Rightarrow> (unit, 'k, 'v, 'w) outcome \<Rightarrow>
    (cache_error + unit) \<times> ('k, 'v, 'w) lru_cache \<Rightarrow> bool" where
  "prunes_to c r p \<longleftrightarrow> (\<exists>c' m. r = Some (fst p, c') \<and> cache_ok c' \<and> lru_of c' = snd p \<and>
     lru c' = take m (lru c) \<and> (\<forall>a \<in> set (lru c'). nodes c' a = nodes c a))"

lemma prune_loop_spec:
  assumes "cache_ok c"
  shows "prunes_to c (prune_loop n ph c) (lru_prune_loop n ph (lru_of c))"
  using assms unfolding prunes_to_def
proof (induction n arbitrary: c)
  case 0
  then show ?case by (auto intro: exI [of _ "length (lru c)"])
next
  case (Suc n)
  show ?case
  proof (cases "lru c = []")
    case True
    then show ?thesis using Suc.prems by (simp add: lru_of_def)
  next
    case False
    then obtain b c1 where t: "prune_loop (Suc n) ph c = (if b then prune_loop n ph c1 else Some (Inl HookThrew, c1))"
      "cache_ok c1" "lru_call ph (last (entries (lru_of c))) ((lru_of c)\<lparr>entries := butlast (entries (lru_of c))\<rparr>) = (b, lru_of c1)"
      "lru c1 = butlast (lru c)" "nodes c1 = (nodes c)(last (lru c) := None)"
      using prune_turn [OF Suc.prems False, of n ph] by metis
    have ne: "entries (lru_of c) \<noteq> []" using False by (simp add: lru_of_def)
    have keep: "nodes c1 a = nodes c a" if "a \<in> set (butlast (lru c))" for a
    proof -
      have "distinct (butlast (lru c) @ [last (lru c)])" using Suc.prems False by (simp add: cache_ok_def)
      then show ?thesis using that t(5) by auto
    qed
    obtain c' m where i: "prune_loop n ph c1 = Some (fst (lru_prune_loop n ph (lru_of c1)), c')" "cache_ok c'"
      "lru_of c' = snd (lru_prune_loop n ph (lru_of c1))" "lru c' = take m (lru c1)"
      "\<forall>a \<in> set (lru c'). nodes c' a = nodes c1 a"
      using Suc.IH [OF t(2)] by blast
    show ?thesis
    proof (cases b)
      case True
      have "lru c' = take (min m (length (lru c) - 1)) (lru c)" using i(4) t(4) by (simp add: butlast_conv_take min.commute)
      moreover have "\<forall>a \<in> set (lru c'). nodes c' a = nodes c a"
        using i(4,5) t(4) keep by (metis in_set_takeD)
      ultimately show ?thesis using True t i(1-3) ne by auto
    next
      case b: False
      have "lru c1 = take (length (lru c) - 1) (lru c)" using t(4) by (simp add: butlast_conv_take)
      then show ?thesis using b t ne keep by auto
    qed
  qed
qed

lemma prune_spec: "cache_ok c \<Longrightarrow> prunes_to c (prune n ph c) (lru_prune n ph (lru_of c))"
  using prune_loop_spec [of c n "case ph of None \<Rightarrow> pruneHook c | Some h \<Rightarrow> Some h"]
  by (cases ph) (simp_all add: prune_def lru_prune_def)

lemma prunes_to_refl: "cache_ok c \<Longrightarrow> prunes_to c (Some (Inr (), c)) (Inr (), lru_of c)"
  by (auto simp: prunes_to_def intro: exI [of _ "length (lru c)"])

lemma evict_spec: "cache_ok c \<Longrightarrow> prunes_to c (evict ph c) (lru_evict ph (lru_of c))"
  using prune_spec [of c "clearSize c" ph] prunes_to_refl [of c] size_ok [of c]
  by (simp add: evict_def lru_evict_def)

section \<open>Steps\<close>

definition simulates :: "('k, 'v, 'w) cache_op \<Rightarrow> ('k, 'v, 'w) cache \<Rightarrow> bool" where
  "simulates op c \<longleftrightarrow> lru_step op (lru_of c) = map_option (\<lambda>(r, c'). (r, lru_of c')) (cache_step op c) \<and>
     (\<forall>r c'. cache_step op c = Some (r, c') \<longrightarrow> cache_ok c')"

lemma simulatesI:
  "cache_step op c = Some (r, c') \<Longrightarrow> cache_ok c' \<Longrightarrow> lru_step op (lru_of c) = Some (r, lru_of c') \<Longrightarrow> simulates op c"
  by (simp add: simulates_def)

lemma simulates_prune:
  assumes "prunes_to c r p" and "cache_step op c' = unit_result r" and "lru_step op (lru_of c') = lru_result p"
  shows "simulates op c'"
  using assms by (auto simp: prunes_to_def unit_result_def lru_result_def intro!: simulatesI split: sum.splits)

text \<open>Operations on a key that is missing, and on one that is there.\<close>

lemma simulates_lookup:
  assumes "cache_ok c" and op: "op \<in> {Exists k, Get k, Find k, GetWithoutPromotion k, FindWithoutPromotion k}"
  shows "simulates op c"
proof (cases rule: lookup_cases [OF assms(1), of k])
  case 1
  then show ?thesis
    using op assms(1)
    by (auto intro!: simulatesI simp: existsImpl_def getImpl_def findImpl_def getWithoutPromotionImpl_def
        findWithoutPromotionImpl_def deref_def)
next
  case (2 a v xs ys)
  note t = touch_ok [OF assms(1) 2(2,3)] and f = found_lookup [OF assms(1) 2(2,3)]
  have "findImpl k c = Some (Some a, c\<lparr>lru := a # xs @ ys\<rparr>)"
    using 2(1) t(1) by (simp add: findImpl_def iterator_to_def)
  moreover have "findWithoutPromotionImpl k c = Some (Some a)"
    using 2(1) f(5) by (simp add: findWithoutPromotionImpl_def iterator_to_def)
  ultimately show ?thesis
    using op assms(1) 2(1,2) f(1) t(2,3)
    by (auto intro!: simulatesI simp: existsImpl_def getImpl_def getWithoutPromotionImpl_def deref_def)
qed

lemma next_entry:
  assumes ok: "cache_ok c" and a: "nodes c a = Some (k, v)" "lru c = xs @ a # ys" and c': "nodes c' = (nodes c)(a := None)"
  shows "deref c' (next_of a (lru c)) = Some (entry_after k (entries (lru_of c)))"
proof -
  note f = found_split [OF assms(1-3)]
  have "\<forall>b \<in> set xs. b \<noteq> a" using f(4) by auto
  then have l: "dropWhile (\<lambda>b. b \<noteq> a) (lru c) = a # ys" using a(2) by (simp add: dropWhile_append3)
  have "\<forall>e \<in> set (entries_of (nodes c) xs). fst e \<noteq> k" using f(2) by force
  then have e: "dropWhile (\<lambda>e. fst e \<noteq> k) (entries (lru_of c)) = (k, v) # entries_of (nodes c) ys"
    using f(1) by (simp add: dropWhile_append3)
  show ?thesis
  proof (cases ys)
    case Nil
    then show ?thesis using l e by (simp add: next_of_def entry_after_def deref_def)
  next
    case (Cons b zs)
    then have "b \<in> dom (nodes c)" "b \<noteq> a" using ok a f(5) by (auto simp: cache_ok_def)
    then show ?thesis using Cons l e c' by (auto simp: next_of_def entry_after_def deref_def)
  qed
qed

lemma simulates_erase:
  assumes ok: "cache_ok c" and op: "op \<in> {EraseKey k ph, EraseAt k ph}"
  shows "simulates op c"
proof (cases rule: lookup_cases [OF ok, of k])
  case 1
  then show ?thesis
    using op ok
    by (auto simp: simulates_def eraseKeyImpl_def findWithoutPromotionImpl_def erase_at_def)
next
  case (2 a v xs ys)
  note f = found_lookup [OF ok 2(2,3)]
  obtain b c' where e: "eraseImpl a ph c = Some (if b then Inr (next_of a (lru c)) else Inl HookThrew, c')" "cache_ok c'"
    "lru_call ph (k, v) ((lru_of c)\<lparr>entries := AList.delete k (entries (lru_of c))\<rparr>) = (b, lru_of c')"
    "nodes c' = (nodes c)(a := None)"
    using erase_spec [OF ok 2(2,3), of ph] by metis
  note n = next_entry [OF ok 2(2,3) e(4)]
  have "iterator_to a (lru c) = Some a" using f(5) by (simp add: iterator_to_def)
  then have "eraseKeyImpl k ph c = Some (if b then Inr True else Inl HookThrew, c')"
    "findWithoutPromotionImpl k c = Some (Some a)"
    using 2(1) e(1) by (simp_all add: eraseKeyImpl_def findWithoutPromotionImpl_def)
  then show ?thesis
    using op e n f(1) by (auto intro!: simulatesI simp: erase_at_def lru_erase_def)
qed

text \<open>Adding an entry.\<close>

lemma new_entry:
  assumes ok: "cache_ok c" and k: "k \<notin> fst ` set (entries_of (nodes c) (lru c))"
  obtains c1 idx where "index_insert ((nodes c)(fresh c \<mapsto> (k, v))) (fresh c) (index c) = Some (fresh c, True, idx)"
    "c1 = c\<lparr>nodes := (nodes c)(fresh c \<mapsto> (k, v)), fresh := Suc (fresh c), index := idx, lru := fresh c # lru c\<rparr>"
    "cache_ok c1" "lru_of c1 = (lru_of c)\<lparr>entries := (k, v) # entries (lru_of c)\<rparr>"
    "lru c1 = fresh c # lru c" "nodes c1 (fresh c) = Some (k, v)"
proof -
  let ?ns = "(nodes c)(fresh c \<mapsto> (k, v))"
  define c1 where "c1 = c\<lparr>index := index c @ [fresh c], lru := fresh c # lru c, nodes := ?ns, fresh := Suc (fresh c)\<rparr>"
  have s: "set (index c) = set (lru c)" "dom (nodes c) = set (lru c)" "fresh c \<notin> set (lru c)"
    using ok by (auto simp: cache_ok_def)
  have "fst (the (?ns a)) \<noteq> k" if "a \<in> set (index c)" for a
    using that k s by (auto simp: entries_of_def)
  then have "find (\<lambda>a. fst (the (?ns a)) = k) (index c) = None" by (simp add: find_None_iff del: fun_upd_apply)
  moreover have "set (index c) \<subseteq> dom ?ns" using s by auto
  ultimately have "index_insert ?ns (fresh c) (index c) = Some (fresh c, True, index c @ [fresh c])"
    by (simp add: index_insert_def index_find_eq)
  then show ?thesis using that [of "index c @ [fresh c]" c1] add_ok [OF ok k c1_def] by (simp add: c1_def)
qed

lemma simulates_set:
  assumes ok: "cache_ok c"
  shows "simulates (SetValue k v promote ph) c"
proof (cases rule: lookup_cases [OF ok, of k])
  case 1
  obtain c1 idx where n: "index_insert ((nodes c)(fresh c \<mapsto> (k, v))) (fresh c) (index c) = Some (fresh c, True, idx)"
    "c1 = c\<lparr>nodes := (nodes c)(fresh c \<mapsto> (k, v)), fresh := Suc (fresh c), index := idx, lru := fresh c # lru c\<rparr>"
    "cache_ok c1" "lru_of c1 = (lru_of c)\<lparr>entries := (k, v) # entries (lru_of c)\<rparr>"
    using new_entry [OF ok 1(3), of v] by metis
  have "setImpl k v promote ph c = evict ph c1"
    using 1(1) n(1,2) by (simp add: setImpl_def new_node_def)
  then show ?thesis using simulates_prune [OF evict_spec [OF n(3), of ph]] 1(2) n(4) by simp
next
  case (2 a w xs ys)
  define c1 where "c1 = c\<lparr>nodes := (nodes c)(a \<mapsto> (k, v))\<rparr>"
  note r = replace_ok [OF ok 2(2,3) c1_def] and f = found_lookup [OF ok 2(2,3)]
  note t = touch_ok [OF r(1,3,4)] and g = found_lookup [OF r(1,3,4)] and g2 = f(2) found_split(4,5) [OF ok 2(2,3)]
  have del: "AList.delete k (entries (lru_of c1)) = AList.delete k (entries (lru_of c))"
    using g(2) g2 by (simp add: c1_def)
  then have "lru_touch k v (lru_of c1) = lru_touch k v (lru_of c)"
    using r(2) by (simp add: lru_touch_def)
  then show ?thesis
    using 2(1,2) r(1,2) t f(1) by (cases promote) (auto intro!: simulatesI simp: setImpl_def unit_result_def c1_def)
qed

lemma index_find_upd: "a \<notin> set idx \<Longrightarrow> index_find (ns(a := x)) k idx = index_find ns k idx"
  by (induction idx) (auto intro!: Option.bind_cong)

lemma insert_new:
  assumes ok: "cache_ok c" and k: "k \<notin> fst ` set (entries_of (nodes c) (lru c))"
  obtains r c' where "lru_evict ph ((lru_of c)\<lparr>entries := (k, v) # entries (lru_of c)\<rparr>) = (r, lru_of c')" "cache_ok c'"
    "insertImpl k v ph c = (case r of Inl x \<Rightarrow> Some (Inl x, c')
      | Inr _ \<Rightarrow> if lru c' = [] then None else Some (Inr (fresh c, True), c'))"
    "lru c' \<noteq> [] \<longrightarrow> nodes c' (fresh c) = Some (k, v)"
proof -
  obtain c1 idx where n: "index_insert ((nodes c)(fresh c \<mapsto> (k, v))) (fresh c) (index c) = Some (fresh c, True, idx)"
    "c1 = c\<lparr>nodes := (nodes c)(fresh c \<mapsto> (k, v)), fresh := Suc (fresh c), index := idx, lru := fresh c # lru c\<rparr>"
    "cache_ok c1" "lru_of c1 = (lru_of c)\<lparr>entries := (k, v) # entries (lru_of c)\<rparr>"
    "lru c1 = fresh c # lru c" "nodes c1 (fresh c) = Some (k, v)"
    using new_entry [OF ok k, of v] by metis
  obtain r s where p: "lru_evict ph (lru_of c1) = (r, s)" by (cases "lru_evict ph (lru_of c1)")
  obtain c' m where e: "evict ph c1 = Some (r, c')" "cache_ok c'" "lru_of c' = s" "lru c' = take m (lru c1)"
    "\<forall>a \<in> set (lru c'). nodes c' a = nodes c1 a"
    using evict_spec [OF n(3), of ph] p by (auto simp: prunes_to_def)
  have it: "iterator_to (fresh c) (lru c') = (if lru c' = [] then None else Some (fresh c))"
    using e(4) n(5) by (cases m) (simp_all add: iterator_to_def)
  have "lru c' \<noteq> [] \<longrightarrow> nodes c' (fresh c) = Some (k, v)"
    using e(4,5) n(5,6) by (cases m) simp_all
  moreover have "insertImpl k v ph c = (case r of Inl x \<Rightarrow> Some (Inl x, c')
      | Inr _ \<Rightarrow> if lru c' = [] then None else Some (Inr (fresh c, True), c'))"
    using n(1,2) e(1) it
    by (cases r; cases "lru c' = []") (simp_all add: insertImpl_def insertImpl_node_def new_node_def)
  ultimately show ?thesis using that [of r c'] p e(2,3) n(4) by simp
qed

lemma simulates_insert:
  assumes ok: "cache_ok c"
  shows "simulates (Insert k v ph) c"
proof (cases rule: lookup_cases [OF ok, of k])
  case 1
  obtain r c' where n: "lru_evict ph ((lru_of c)\<lparr>entries := (k, v) # entries (lru_of c)\<rparr>) = (r, lru_of c')" "cache_ok c'"
    "insertImpl k v ph c = (case r of Inl x \<Rightarrow> Some (Inl x, c')
      | Inr _ \<Rightarrow> if lru c' = [] then None else Some (Inr (fresh c, True), c'))"
    "lru c' \<noteq> [] \<longrightarrow> nodes c' (fresh c) = Some (k, v)"
    by (rule insert_new [OF ok 1(3), of ph v])
  then show ?thesis using 1(2) by (cases r) (auto simp: simulates_def)
next
  case (2 a w xs ys)
  have f: "fresh c \<notin> set (index c)" "nodes c (fresh c) = None" "a \<noteq> fresh c"
    using ok 2(2) by (auto simp: cache_ok_def)
  define c' where "c' = c\<lparr>fresh := Suc (fresh c)\<rparr>"
  have ns: "(nodes c)(fresh c := None) = nodes c" using f(2) by (simp add: fun_upd_idem)
  have "insertImpl k v ph c = Some (Inr (a, False), c')"
    using 2(1) f found_lookup(5) [OF ok 2(2,3)] index_find_upd [OF f(1), of "nodes c"] ns
    by (simp add: insertImpl_def insertImpl_node_def new_node_def index_insert_def findInIndex_def
        iterator_to_def delete_node_def c'_def)
  moreover have "cache_ok c'" "lru_of c' = lru_of c" using ok by (auto simp: c'_def cache_ok_def lru_of_def)
  ultimately show ?thesis
    using found_lookup(1) [OF ok 2(2,3)] 2(2) by (auto intro!: simulatesI simp: c'_def)
qed

lemma simulates_setMaxSize:
  assumes ok: "cache_ok c"
  shows "simulates (SetMaxSize n ph) c"
proof -
  let ?r = "if n \<noteq> 0 \<and> n < cache_size c then prune (max (cache_size c - n) (clearSize c)) ph c else Some (Inr (), c)"
  let ?p = "if n \<noteq> 0 \<and> n < length (entries (lru_of c))
    then lru_prune (max (length (entries (lru_of c)) - n) (l_clear (lru_of c))) ph (lru_of c) else (Inr (), lru_of c)"
  have "prunes_to c ?r ?p"
    using prune_spec [OF ok] prunes_to_refl [OF ok] size_ok [OF ok] by simp
  then obtain c' where c': "?r = Some (fst ?p, c')" "cache_ok c'" "lru_of c' = snd ?p"
    unfolding prunes_to_def by blast
  have m: "cache_ok (c'\<lparr>maxSize := n\<rparr>)" "lru_of (c'\<lparr>maxSize := n\<rparr>) = (snd ?p)\<lparr>l_max := n\<rparr>"
    using c'(2) unfolding c'(3) [symmetric] by (simp_all add: cache_ok_def lru_of_def)
  show ?thesis
  proof (cases "fst ?p")
    case (Inl e)
    then show ?thesis
      using c' by (intro simulatesI [of _ _ "Threw e" c'])
        (simp_all only: cache_step.simps lru_step.simps setMaxSize_def unit_result_def split_beta, simp_all)
  next
    case (Inr u)
    then show ?thesis
      using c' m by (intro simulatesI [of _ _ Done "c'\<lparr>maxSize := n\<rparr>"])
        (simp_all only: cache_step.simps lru_step.simps setMaxSize_def unit_result_def split_beta, simp_all)
  qed
qed

lemma cache_simulates:
  assumes ok: "cache_ok c"
  shows "simulates op c"
proof (cases op)
  case (Prune n ph)
  then show ?thesis using simulates_prune [OF prune_spec [OF ok]] by simp
next
  case (ClearAll ph)
  then show ?thesis
    using simulates_prune [OF prune_spec [OF ok, of "cache_size c" ph]] size_ok [OF ok] by (simp add: cache_clear_def)
next
  case (SetClearSize n)
  then show ?thesis using ok by (auto intro!: simulatesI simp: setClearSize_def cache_ok_def lru_of_def)
next
  case (SetPruneHook ph)
  then show ?thesis using ok by (auto intro!: simulatesI simp: setPruneHook_def cache_ok_def lru_of_def)
next
  case Size
  then show ?thesis using ok size_ok [OF ok] by (auto intro!: simulatesI)
qed (simp_all add: simulates_lookup [OF ok] simulates_erase [OF ok] simulates_set [OF ok] simulates_insert [OF ok]
  simulates_setMaxSize [OF ok])

interpretation ecm: simulation cache_step lru_step lru_of cache_ok
  by unfold_locales (use cache_simulates in \<open>auto simp: simulates_def\<close>)

lemma cache_init: "cache_ok (EvictingCacheMap_init m n w)" "lru_of (EvictingCacheMap_init m n w) = lru_init m n w"
  by (simp_all add: EvictingCacheMap_init_def cache_ok_def lru_of_def lru_init_def)

lemma run_lifts:
  assumes "run_ops lru_step ops (lru_init m n w) = Some (rs, s)"
  obtains c where "run_ops cache_step ops (EvictingCacheMap_init m n w) = Some (rs, c)" "cache_ok c" "lru_of c = s"
proof (cases "run_ops cache_step ops (EvictingCacheMap_init m n w)")
  case None
  then show ?thesis
    using ecm.run_spec [OF cache_init(1), unfolded cache_init(2), of ops m n w] assms by simp
next
  case (Some p)
  then obtain rs' c where r: "run_ops cache_step ops (EvictingCacheMap_init m n w) = Some (rs', c)" by (cases p) simp
  have "rs' = rs" "lru_of c = s"
    using ecm.run_spec [OF cache_init(1), unfolded cache_init(2), of ops m n w] assms r by simp_all
  then show ?thesis using that r ecm.run_ok [OF cache_init(1) r] by simp
qed

section \<open>Properties\<close>

text \<open>
  C5. A cache is a list of entries ordered by their last use. For every sequence of lookups, insertions,
  assignments, erasures, prunings and changes of its limits, with hooks that may throw, the cache returns
  what the list returns, hands the same entries to the hooks in the same order, and ends with the
  same entries in the same order. In particular neither the index nor the list ever leads to a deleted node,
  except where the list itself has no answer: an insertion that evicts its own entry, or an
  erasure at \<open>end()\<close>.
\<close>

theorem cache_is_lru_list:
  "map_option (\<lambda>(rs, c). (rs, lru_of c)) (run_ops cache_step ops (EvictingCacheMap_init m n w)) =
   run_ops lru_step ops (lru_init m n w)"
  by (rule ecm.run_spec [OF cache_init(1), unfolded cache_init(2), symmetric])

lemma clear_nodes_all:
  "distinct l \<Longrightarrow> set l \<subseteq> dom (nodes c) \<Longrightarrow> \<exists>c'. clear_nodes l c = Some c' \<and> dom (nodes c') = dom (nodes c) - set l"
proof (induction l arbitrary: c)
  case (Cons a l)
  then obtain c1 where "delete_node a c = Some c1" "dom (nodes c1) = dom (nodes c) - {a}"
    by (auto simp: delete_node_def)
  moreover from this have "set l \<subseteq> dom (nodes c1)" using Cons.prems by auto
  ultimately obtain c' where "clear_nodes l c1 = Some c'" "dom (nodes c') = dom (nodes c) - {a} - set l"
    using Cons.IH [of c1] Cons.prems(1) by auto
  then show ?case using \<open>delete_node a c = Some c1\<close> by auto
qed auto

text \<open>
  C38. A cache neither leaks nor deletes a node twice. After every sequence of operations that returns, hooks
  that throw included, the nodes on the heap are exactly those on the list, the index has the same nodes, and
  the destructor deletes them all.
\<close>

theorem cache_memory_safe:
  assumes "run_ops cache_step ops (EvictingCacheMap_init m n w) = Some (rs, c)"
  shows "dom (nodes c) = set (lru c) \<and> set (index c) = set (lru c) \<and> cache_size c = length (lru c) \<and>
    (\<exists>c'. EvictingCacheMap_destroy c = Some c' \<and> nodes c' = Map.empty)"
proof -
  have ok: "cache_ok c" by (rule ecm.run_ok [OF cache_init(1) assms])
  then obtain c' where "EvictingCacheMap_destroy c = Some c'" "dom (nodes c') = dom (nodes c) - set (lru c)"
    using clear_nodes_all [of "lru c" c] by (auto simp: EvictingCacheMap_destroy_def cache_ok_def)
  then show ?thesis using ok size_ok [OF ok] by (auto simp: cache_ok_def)
qed

text \<open>A hook that throws on the second eviction.\<close>

theorem cache_memory_safe_witness:
  "\<exists>rs c c'. run_ops cache_step [Insert (1::nat) True None, Insert 2 True None, Insert 3 True None,
       Prune (Suc (Suc 0)) (Some (\<lambda>k v w. (w = 0, w + 1)))] (EvictingCacheMap_init 0 1 (0::nat)) = Some (rs, c) \<and>
     last rs = Threw HookThrew \<and> cache_size c = 1 \<and> card (dom (nodes c)) = 1 \<and>
     EvictingCacheMap_destroy c = Some c' \<and> nodes c' = Map.empty"
proof -
  let ?ops = "[Insert (1::nat) True None, Insert 2 True None, Insert 3 True None,
    Prune (Suc (Suc 0)) (Some (\<lambda>k v w. (w = 0, w + 1)))]"
  have eval: "run_ops lru_step ?ops (lru_init 0 1 (0::nat)) =
      Some ([Inserted (1, True) True, Inserted (2, True) True, Inserted (3, True) True, Threw HookThrew],
        \<lparr>entries = [(3, True)], l_max = 0, l_clear = 1, l_hook = None, l_world = 2\<rparr>)"
    by (simp add: lru_init_def lru_evict_def lru_prune_def lru_result_def)
  obtain c where r: "run_ops cache_step ?ops (EvictingCacheMap_init 0 1 (0::nat)) =
      Some ([Inserted (1, True) True, Inserted (2, True) True, Inserted (3, True) True, Threw HookThrew], c)"
    and c: "lru_of c = \<lparr>entries = [(3, True)], l_max = 0, l_clear = 1, l_hook = None, l_world = 2\<rparr>"
    by (rule run_lifts [OF eval])
  have "length (lru c) = 1" using lru_of_simps(4) [of c] c by simp
  then obtain a where "lru c = [a]" by (auto simp: length_Suc_conv)
  then show ?thesis using cache_memory_safe [OF r] r by (auto simp del: run_ops.simps)
qed

section \<open>Limits\<close>

lemma lru_call_keeps:
  "entries (snd (lru_call ph e s)) = entries s \<and> l_max (snd (lru_call ph e s)) = l_max s \<and>
   l_clear (snd (lru_call ph e s)) = l_clear s \<and> l_hook (snd (lru_call ph e s)) = l_hook s"
  by (cases "(ph, e, s)" rule: lru_call.cases) (simp_all split: prod.splits)

text \<open>Pruning drops some of the last entries, one at least and all unless a hook throws.\<close>

lemma lru_prune_loop_keeps:
  "\<exists>j \<le> n. entries (snd (lru_prune_loop n ph s)) = take (length (entries s) - j) (entries s) \<and>
     (0 < n \<longrightarrow> 0 < j) \<and> (fst (lru_prune_loop n ph s) = Inr () \<longrightarrow> j = n) \<and>
     l_max (snd (lru_prune_loop n ph s)) = l_max s \<and> l_clear (snd (lru_prune_loop n ph s)) = l_clear s \<and>
     l_hook (snd (lru_prune_loop n ph s)) = l_hook s"
proof (induction n arbitrary: s)
  case (Suc n)
  show ?case
  proof (cases "entries s = []")
    case True
    then show ?thesis by (intro exI [of _ "Suc n"]) simp
  next
    case False
    obtain b s1 where s1: "lru_call ph (last (entries s)) (s\<lparr>entries := butlast (entries s)\<rparr>) = (b, s1)"
      by (cases "lru_call ph (last (entries s)) (s\<lparr>entries := butlast (entries s)\<rparr>)")
    then have k: "entries s1 = butlast (entries s)" "l_max s1 = l_max s" "l_clear s1 = l_clear s" "l_hook s1 = l_hook s"
      using lru_call_keeps [of ph "last (entries s)" "s\<lparr>entries := butlast (entries s)\<rparr>"] by simp_all
    show ?thesis
    proof (cases b)
      case True
      obtain j where j: "j \<le> n" "entries (snd (lru_prune_loop n ph s1)) = take (length (entries s1) - j) (entries s1)"
        "fst (lru_prune_loop n ph s1) = Inr () \<longrightarrow> j = n" "l_max (snd (lru_prune_loop n ph s1)) = l_max s1"
        "l_clear (snd (lru_prune_loop n ph s1)) = l_clear s1" "l_hook (snd (lru_prune_loop n ph s1)) = l_hook s1"
        using Suc.IH [of s1] by blast
      have "take (length (entries s1) - j) (entries s1) = take (length (entries s) - Suc j) (entries s)"
        using k(1) by (simp add: butlast_conv_take)
      then show ?thesis using True False s1 k j by (intro exI [of _ "Suc j"]) simp
    next
      case b: False
      then show ?thesis
        using False s1 k by (intro exI [of _ 1]) (simp add: butlast_conv_take)
    qed
  qed
qed simp

lemma lru_prune_keeps:
  obtains j where "j \<le> n" "entries (snd (lru_prune n ph s)) = take (length (entries s) - j) (entries s)"
    "0 < n \<longrightarrow> 0 < j" "fst (lru_prune n ph s) = Inr () \<longrightarrow> j = n"
    "l_max (snd (lru_prune n ph s)) = l_max s" "l_clear (snd (lru_prune n ph s)) = l_clear s"
  using lru_prune_loop_keeps [of n "case ph of None \<Rightarrow> l_hook s | Some h \<Rightarrow> Some h" s] unfolding lru_prune_def by blast

definition lru_within :: "('k, 'v, 'w) lru_cache \<Rightarrow> bool" where
  "lru_within s \<longleftrightarrow> 0 < l_clear s \<and> (l_max s = 0 \<or> length (entries s) \<le> l_max s)"

lemma lru_prune_within:
  assumes "lru_within s"
  shows "lru_within (snd (lru_prune n ph s))"
  by (rule lru_prune_keeps [of n ph s]) (use assms in \<open>auto simp: lru_within_def\<close>)

lemma lru_evict_within:
  assumes "lru_within s"
  shows "lru_within (snd (lru_evict ph (s\<lparr>entries := e # entries s\<rparr>)))"
proof -
  let ?s = "s\<lparr>entries := e # entries s\<rparr>"
  have "lru_within (snd (lru_prune (l_clear s) ph ?s))"
    by (rule lru_prune_keeps [of "l_clear s" ph ?s]) (use assms in \<open>auto simp: lru_within_def\<close>)
  then show ?thesis using assms by (auto simp: lru_evict_def lru_within_def)
qed

lemma lru_setMax_within:
  assumes "lru_within s" and "lru_step (SetMaxSize n ph) s = Some (r, s')"
  shows "lru_within s'"
proof -
  let ?m = "max (length (entries s) - n) (l_clear s)"
  obtain r1 s1 where p: "lru_prune ?m ph s = (r1, s1)" by (cases "lru_prune ?m ph s")
  have "lru_within (s1\<lparr>l_max := n\<rparr>)" if "r1 = Inr ()"
    by (rule lru_prune_keeps [of ?m ph s]) (use assms(1) p that in \<open>auto simp: lru_within_def\<close>)
  then show ?thesis
    using assms p lru_prune_within [OF assms(1), of ?m ph]
    by (auto simp: lru_within_def split: if_splits sum.splits)
qed

lemma delete_length: "length (AList.delete k es) \<le> length es"
  by (simp add: AList.delete_eq)

lemma touch_length: "map_of es k = Some v \<Longrightarrow> length (AList.delete k es) < length es"
  by (induction es) (auto simp: less_Suc_eq_le delete_length split: if_splits)

lemma update_length: "map_of es k = Some v \<Longrightarrow> length (AList.update k w es) = length es"
  by (induction es) (auto split: if_splits)

lemma lru_erase_within:
  assumes "lru_within s"
  shows "lru_within (snd (lru_erase k ph res v s))"
proof -
  let ?s = "s\<lparr>entries := AList.delete k (entries s)\<rparr>"
  have "lru_within ?s" using assms delete_length [of k "entries s"] by (auto simp: lru_within_def)
  then show ?thesis
    using lru_call_keeps [of ph "(k, v)" ?s] by (auto simp: lru_erase_def lru_within_def split: prod.splits)
qed

lemma lru_touch_within: "lru_within s \<Longrightarrow> map_of (entries s) k = Some w \<Longrightarrow> lru_within (lru_touch k v s)"
  using touch_length [of "entries s" k w] by (auto simp: lru_within_def lru_touch_def)

fun keeps_clearing :: "('k, 'v, 'w) cache_op \<Rightarrow> bool" where
  "keeps_clearing (SetClearSize n) \<longleftrightarrow> 0 < n"
| "keeps_clearing _ \<longleftrightarrow> True"

lemma lru_step_within:
  assumes w: "lru_within s" and "keeps_clearing op" and st: "lru_step op s = Some (r, s')"
  shows "lru_within s'"
proof (cases op)
  case (SetValue k v b ph)
  then show ?thesis
    using w st lru_evict_within [OF w, of ph "(k, v)"] lru_touch_within [OF w, of k _ v] update_length [of "entries s" k _ v]
    by (auto simp: lru_result_def lru_within_def split: option.splits if_splits)
next
  case (Insert k v ph)
  then show ?thesis
    using w st lru_evict_within [OF w, of ph "(k, v)"]
    by (auto split: option.splits if_splits prod.splits sum.splits)
next
  case (SetMaxSize n ph)
  then show ?thesis using lru_setMax_within [OF w] st by simp
next
  case (EraseKey k ph)
  then show ?thesis
    using w st lru_erase_within [OF w, of k ph "Bool True"] by (auto split: option.splits) (metis snd_conv)
next
  case (EraseAt k ph)
  then show ?thesis
    using w st lru_erase_within [OF w, of k ph "Iter (entry_after k (entries s))"] by (auto split: option.splits) (metis snd_conv)
next
  case (SetClearSize n)
  then show ?thesis using assms by (auto simp: lru_within_def)
next
  case (SetPruneHook ph)
  then show ?thesis using assms by (auto simp: lru_within_def)
qed (use w st lru_prune_within [OF w] in \<open>auto simp: lru_result_def intro: lru_touch_within split: option.splits\<close>)

lemma lru_run_within:
  "lru_within s \<Longrightarrow> list_all keeps_clearing ops \<Longrightarrow> run_ops lru_step ops s = Some (rs, s') \<Longrightarrow> lru_within s'"
proof (induction ops arbitrary: s rs)
  case (Cons op ops)
  then obtain r s1 rs1 where "lru_step op s = Some (r, s1)" "run_ops lru_step ops s1 = Some (rs1, s')"
    by (auto split: bind_splits)
  then show ?case using Cons lru_step_within [of s op r s1] by simp
qed simp

lemma run_abs:
  assumes "run_ops cache_step ops (EvictingCacheMap_init m n w) = Some (rs, c)"
  shows "cache_ok c" and "run_ops lru_step ops (lru_init m n w) = Some (rs, lru_of c)"
  using ecm.run_ok [OF cache_init(1) assms] ecm.run_spec [OF cache_init(1), unfolded cache_init(2), of ops m n w] assms
  by simp_all

text \<open>
  C39. A cache with a limit never has more entries than its limit between two operations, whatever the
  operations are and even when a hook throws in the middle of an eviction, as long as at least
  one entry is cleared at a time.
\<close>

theorem cache_within_limit:
  assumes "run_ops cache_step ops (EvictingCacheMap_init m n w) = Some (rs, c)"
    and "0 < n" and "list_all keeps_clearing ops"
  shows "maxSize c = 0 \<or> cache_size c \<le> maxSize c"
proof -
  have "lru_within (lru_init m n w)" using assms(2) by (simp add: lru_within_def lru_init_def)
  then have "lru_within (lru_of c)" using lru_run_within [OF _ assms(3) run_abs(2) [OF assms(1)]] by blast
  then show ?thesis using size_ok [OF run_abs(1) [OF assms(1)]] by (simp add: lru_within_def)
qed

theorem cache_within_limit_witness:
  "\<exists>rs c. run_ops cache_step [Insert (1::nat) True None, Insert 2 False None, Get 1, Insert 3 True None]
     (EvictingCacheMap_init 2 1 ()) = Some (rs, c) \<and> maxSize c = 2 \<and> cache_size c \<le> 2 \<and>
     map fst (entries (lru_of c)) = [3, 1]"
proof -
  let ?ops = "[Insert (1::nat) True None, Insert 2 False None, Get 1, Insert 3 True None]"
  have eval: "run_ops lru_step ?ops (lru_init 2 1 ()) =
      Some ([Inserted (1, True) True, Inserted (2, False) True, Value True, Inserted (3, True) True],
        \<lparr>entries = [(3, True), (1, True)], l_max = 2, l_clear = 1, l_hook = None, l_world = ()\<rparr>)"
    by (simp add: lru_init_def lru_evict_def lru_prune_def lru_touch_def)
  obtain c where r: "run_ops cache_step ?ops (EvictingCacheMap_init 2 1 ()) =
      Some ([Inserted (1, True) True, Inserted (2, False) True, Value True, Inserted (3, True) True], c)"
    and c: "lru_of c = \<lparr>entries = [(3, True), (1, True)], l_max = 2, l_clear = 1, l_hook = None, l_world = ()\<rparr>"
    by (rule run_lifts [OF eval])
  have "maxSize c = 2" using lru_of_simps(1) [of c] c by simp
  then show ?thesis using cache_within_limit [OF r] r c by (auto simp del: run_ops.simps)
qed

text \<open>
  C40. In a cache without a prune hook \<open>insert\<close> returns an iterator to a deleted entry exactly when it evicts its own entry: the key is new, the
  cache has a limit and is full, and more entries are cleared at a time than the cache holds.
\<close>

theorem cache_insert_dangles:
  assumes "run_ops cache_step ops (EvictingCacheMap_init m n w) = Some (rs, c)" and "pruneHook c = None"
  shows "insertImpl k v None c = None \<longleftrightarrow>
    existsImpl k c = Some False \<and> 0 < maxSize c \<and> maxSize c \<le> cache_size c \<and> cache_size c < clearSize c"
proof -
  note ok = run_abs(1) [OF assms(1)]
  show ?thesis
  proof (cases rule: lookup_cases [OF ok, of k])
    case 1
    let ?s = "(lru_of c)\<lparr>entries := (k, v) # entries (lru_of c)\<rparr>"
    obtain r c' where i: "lru_evict None ?s = (r, lru_of c')"
      "insertImpl k v None c = (case r of Inl x \<Rightarrow> Some (Inl x, c')
        | Inr _ \<Rightarrow> if lru c' = [] then None else Some (Inr (fresh c, True), c'))"
      by (rule insert_new [OF ok 1(3), of None v])
    have p: "fst (lru_prune_loop j None s) = Inr ()" for j and s :: "('k, 'v, 'w) lru_cache"
      by (induction j arbitrary: s) simp_all
    then have none: "fst (lru_prune (clearSize c) None ?s) = Inr ()" by (simp add: lru_prune_def assms(2))
    then have e: "entries (snd (lru_prune (clearSize c) None ?s)) = take (Suc (length (lru c)) - clearSize c) (entries ?s)"
      by (rule_tac lru_prune_keeps [of "clearSize c" None ?s]) auto
    have "r = fst (lru_evict None ?s)" "lru c' = [] \<longleftrightarrow> entries (snd (lru_evict None ?s)) = []"
      using i(1) lru_of_simps(5) [of c'] by simp_all
    then have "r = Inr () \<and> (lru c' = [] \<longleftrightarrow> 0 < maxSize c \<and> maxSize c \<le> length (lru c) \<and> length (lru c) < clearSize c)"
      using e none by (simp add: lru_evict_def) linarith
    then show ?thesis using i(2) 1(1) size_ok [OF ok] by (simp add: existsImpl_def)
  next
    case (2 a u xs ys)
    then have "simulates (Insert k v None) c" "existsImpl k c = Some True"
      using cache_simulates [OF ok] by (simp_all add: existsImpl_def)
    moreover from this(1) have "insertImpl k v None c \<noteq> None"
      using found_lookup(1) [OF ok 2(2,3)] by (cases "insertImpl k v None c") (auto simp: simulates_def)
    ultimately show ?thesis by simp
  qed
qed

lemma exists_spec: "cache_ok c \<Longrightarrow> existsImpl k c = Some (map_of (entries (lru_of c)) k \<noteq> None)"
  using cache_simulates [of c "Exists k"] by (cases "existsImpl k c") (auto simp: simulates_def)

theorem cache_insert_dangles_witness:
  "\<exists>rs c. run_ops cache_step [Insert (1::nat) True None] (EvictingCacheMap_init 1 2 ()) = Some (rs, c) \<and>
     rs = [Inserted (1, True) True] \<and> insertImpl 2 True None c = None"
proof -
  have eval: "run_ops lru_step [Insert (1::nat) True None] (lru_init 1 2 ()) =
      Some ([Inserted (1, True) True],
        \<lparr>entries = [(1, True)], l_max = 1, l_clear = 2, l_hook = None, l_world = ()\<rparr>)"
    by (simp add: lru_init_def lru_evict_def)
  obtain c where r: "run_ops cache_step [Insert (1::nat) True None] (EvictingCacheMap_init 1 2 ()) =
      Some ([Inserted (1, True) True], c)" "cache_ok c"
    and c: "lru_of c = \<lparr>entries = [(1, True)], l_max = 1, l_clear = 2, l_hook = None, l_world = ()\<rparr>"
    by (rule run_lifts [OF eval])
  have "maxSize c = 1" "clearSize c = 2" "pruneHook c = None" "cache_size c = 1" "existsImpl 2 c = Some False"
    using lru_of_simps [of c] c size_ok [OF r(2)] exists_spec [OF r(2), of 2] by simp_all
  then show ?thesis using cache_insert_dangles [OF r(1), of 2 True] r(1) by (simp del: run_ops.simps)
qed

section \<open>The entries used last\<close>

lemma run_ops_append:
  "run_ops step (xs @ ys) s = do { (rs, s) \<leftarrow> run_ops step xs s; (rs', s) \<leftarrow> run_ops step ys s; Some (rs @ rs', s) }"
  by (induction xs arbitrary: s) (auto simp: split_beta bind_assoc intro!: Option.bind_cong)

definition last_used :: "nat \<Rightarrow> ('k \<times> 'v) list \<Rightarrow> ('k \<times> 'v) list" where
  "last_used m kvs = map (\<lambda>k. (k, the (map_of (rev kvs) k))) (take m (rev (remdups (map fst kvs))))"

lemma remdups_snoc: "remdups (xs @ [x]) = filter (\<lambda>y. y \<noteq> x) (remdups xs) @ [x]"
  by (induction xs) auto

lemma take_without:
  assumes "distinct R" and "0 < m"
  shows "k \<in> set (take m R) \<Longrightarrow> take (m - 1) (filter (\<lambda>y. y \<noteq> k) R) = filter (\<lambda>y. y \<noteq> k) (take m R)"
    and "k \<notin> set (take m R) \<Longrightarrow> take (m - 1) (filter (\<lambda>y. y \<noteq> k) R) = take (m - 1) R"
proof -
  have id: "filter (\<lambda>y. y \<noteq> k) ys = ys" if "k \<notin> set ys" for ys using that by (induction ys) auto
  { assume "k \<in> set (take m R)"
    then obtain xs ys where t: "take m R = xs @ k # ys" by (auto simp: in_set_conv_decomp)
    have R: "R = xs @ k # ys @ drop m R" using append_take_drop_id [of m R] t by simp
    then have k: "k \<notin> set xs" "k \<notin> set ys" "k \<notin> set (drop m R)"
      using assms(1) by (metis distinct_append distinct.simps(2) Un_iff disjoint_iff list.set_intros(1) set_append)+
    have l: "length xs + length ys + 1 = min m (length R)" using arg_cong [OF t, of length] by simp
    have "filter (\<lambda>y. y \<noteq> k) R = xs @ ys @ drop m R" by (subst R) (simp add: id k)
    then show "take (m - 1) (filter (\<lambda>y. y \<noteq> k) R) = filter (\<lambda>y. y \<noteq> k) (take m R)"
      using t l k nat_le_linear [of m "length R"] by (simp add: id) }
  { assume k: "k \<notin> set (take m R)"
    have "filter (\<lambda>y. y \<noteq> k) R = take m R @ filter (\<lambda>y. y \<noteq> k) (drop m R)"
      using id [OF k] append_take_drop_id [of m R] by (metis filter_append)
    then show "take (m - 1) (filter (\<lambda>y. y \<noteq> k) R) = take (m - 1) R"
      by (cases "m \<le> length R") (simp_all add: id) }
qed

lemma last_used_snoc:
  assumes "0 < m"
  shows "last_used m (kvs @ [(k, v)]) = (k, v) #
    (if k \<in> fst ` set (last_used m kvs) then AList.delete k (last_used m kvs) else take (m - 1) (last_used m kvs))"
proof -
  let ?R = "rev (remdups (map fst kvs))" and ?f = "\<lambda>x. (x, the (map_of (rev kvs) x))"
  let ?g = "\<lambda>x. (x, the (map_of (rev (kvs @ [(k, v)])) x))"
  have R: "rev (remdups (map fst (kvs @ [(k, v)]))) = k # filter (\<lambda>y. y \<noteq> k) ?R"
    by (simp add: remdups_snoc rev_filter)
  have "take m (k # filter (\<lambda>y. y \<noteq> k) ?R) = k # take (m - 1) (filter (\<lambda>y. y \<noteq> k) ?R)"
    using assms by (cases m) simp_all
  then have "last_used m (kvs @ [(k, v)]) = ?g k # map ?g (take (m - 1) (filter (\<lambda>y. y \<noteq> k) ?R))"
    by (simp only: last_used_def R list.map)
  also have "map ?g (take (m - 1) (filter (\<lambda>y. y \<noteq> k) ?R)) = map ?f (take (m - 1) (filter (\<lambda>y. y \<noteq> k) ?R))"
    by (rule map_cong [OF refl]) (auto dest!: in_set_takeD)
  finally have eq: "last_used m (kvs @ [(k, v)]) = (k, v) # map ?f (take (m - 1) (filter (\<lambda>y. y \<noteq> k) ?R))" by simp
  have del: "AList.delete k (map ?f ys) = map ?f (filter (\<lambda>y. y \<noteq> k) ys)" for ys
    by (induction ys) auto
  have keys: "k \<in> fst ` set (last_used m kvs) \<longleftrightarrow> k \<in> set (take m ?R)" by (force simp: last_used_def)
  show ?thesis
  proof (cases "k \<in> set (take m ?R)")
    case True
    then have "take (m - 1) (filter (\<lambda>y. y \<noteq> k) ?R) = filter (\<lambda>y. y \<noteq> k) (take m ?R)"
      using take_without(1) [of ?R m k] assms by simp
    then have "map ?f (take (m - 1) (filter (\<lambda>y. y \<noteq> k) ?R)) = AList.delete k (last_used m kvs)"
      by (simp only: last_used_def del)
    then show ?thesis using eq keys True by simp
  next
    case False
    then have "take (m - 1) (filter (\<lambda>y. y \<noteq> k) ?R) = take (m - 1) ?R"
      using take_without(2) [of ?R m k] assms by simp
    moreover have "take (m - 1) (last_used m kvs) = map ?f (take (m - 1) ?R)"
      unfolding last_used_def take_map take_take by (simp add: min_def)
    ultimately show ?thesis using eq keys False by simp
  qed
qed

lemma last_used_length: "length (last_used m kvs) \<le> m"
  by (simp add: last_used_def)

definition lru_at :: "nat \<Rightarrow> 'w \<Rightarrow> ('k \<times> 'v) list \<Rightarrow> ('k, 'v, 'w) lru_cache" where
  "lru_at m w es = \<lparr>entries = es, l_max = m, l_clear = 1, l_hook = None, l_world = w\<rparr>"

lemma lru_set_last:
  assumes "0 < m"
  shows "lru_step (SetValue k v True None) (lru_at m w (last_used m kvs)) =
    Some (Done, lru_at m w (last_used m (kvs @ [(k, v)])))"
proof (cases "map_of (last_used m kvs) k")
  case None
  let ?es = "last_used m kvs"
  have k: "k \<notin> fst ` set ?es" using None by (simp add: map_of_eq_None_iff)
  have "lru_evict None (lru_at m w ((k, v) # ?es)) = (Inr (), lru_at m w ((k, v) # take (m - 1) ?es))"
  proof (cases "length ?es < m")
    case True
    then show ?thesis by (simp add: lru_at_def lru_evict_def)
  next
    case False
    then have "length ?es = m" using last_used_length [of m kvs] by simp
    then show ?thesis
      using assms by (auto simp: lru_at_def lru_evict_def lru_prune_def butlast_conv_take take_Cons')
  qed
  then show ?thesis
    using None k last_used_snoc [OF assms, of kvs k v] by (simp add: lru_at_def lru_result_def)
next
  case (Some u)
  then have "k \<in> fst ` set (last_used m kvs)" by (metis map_of_eq_None_iff option.distinct(1))
  then show ?thesis
    using Some last_used_snoc [OF assms, of kvs k v] by (simp add: lru_at_def lru_touch_def)
qed

abbreviation sets :: "('k \<times> 'v) list \<Rightarrow> ('k, 'v, 'w) cache_op list" where
  "sets kvs \<equiv> map (\<lambda>(k, v). SetValue k v True None) kvs"

lemma lru_run_sets:
  assumes "0 < m"
  shows "run_ops lru_step (sets kvs) (lru_init m 1 w) = Some (replicate (length kvs) Done, lru_at m w (last_used m kvs))"
proof (induction kvs rule: rev_induct)
  case Nil
  then show ?case by (simp add: lru_init_def lru_at_def last_used_def)
next
  case (snoc e kvs)
  then show ?case
    using lru_set_last [OF assms, of "fst e" "snd e" w kvs]
    by (simp add: run_ops_append split_beta replicate_append_same del: lru_step.simps)
qed

text \<open>
  C37. After any sequence of assignments that promote (\<open>set\<close> with its default arguments and no hook), a cache with
  limit \<open>m > 0\<close> that clears one entry at a time holds exactly the last \<open>m\<close> distinct keys that were
  assigned, most recent first, each with the value assigned to it last.
\<close>

theorem cache_keeps_last_used:
  assumes "0 < m"
  shows "\<exists>c. run_ops cache_step (sets kvs) (EvictingCacheMap_init m 1 w) = Some (replicate (length kvs) Done, c) \<and>
    map (\<lambda>a. the (nodes c a)) (lru c) =
      map (\<lambda>k. (k, the (map_of (rev kvs) k))) (take m (rev (remdups (map fst kvs))))"
proof -
  obtain c where "run_ops cache_step (sets kvs) (EvictingCacheMap_init m 1 w) = Some (replicate (length kvs) Done, c)"
    and c: "lru_of c = lru_at m w (last_used m kvs)"
    by (rule run_lifts [OF lru_run_sets [OF assms]])
  moreover have "entries_of (nodes c) (lru c) = last_used m kvs" using c by (simp add: lru_of_def lru_at_def)
  ultimately show ?thesis by (auto simp: entries_of_def last_used_def)
qed

theorem cache_keeps_last_used_witness:
  "\<exists>c. run_ops cache_step (sets [(1::nat, True), (2, True), (1, False), (3, True)]) (EvictingCacheMap_init 2 1 ()) =
     Some (replicate 4 Done, c) \<and> map (\<lambda>a. the (nodes c a)) (lru c) = [(3, True), (1, False)]"
proof -
  let ?kvs = "[(1::nat, True), (2, True), (1, False), (3, True)]"
  have eval: "length ?kvs = 4"
    "map (\<lambda>k. (k, the (map_of (rev ?kvs) k))) (take 2 (rev (remdups (map fst ?kvs)))) = [(3, True), (1, False)]"
    by simp_all
  show ?thesis using cache_keeps_last_used [of 2 ?kvs "()"] unfolding eval by (simp del: run_ops.simps list.map)
qed

end
