(* ===== verification/Spec2Isabelle.thy ===== *)
theory Spec2Isabelle
  imports Folly_Prelude Codec Varint Unicode Base64 Base64_Api SpookyHashV1 SpookyHashV2
    ProducerConsumerQueue CInt CheckedMath ConstexprMath ToAscii Traits Conv Conv_Correct
    Thread_Pool RWSpinLock RWTicketSpinLock
    FutureCore FutureCore_Correct FutureInterrupt DeferredExecutor
    BucketedTimeSeries BucketedTimeSeries_Correct BucketedTimeSeries_Range
    EvictingCacheMap EvictingCacheMap_Correct
begin

text \<open>
  A verification library for parts of Folly. Source files are named relative to \<open>src/folly\<close>.

  \<^bold>\<open>The program.\<close> Folly is a library of mostly independent components. The ones treated here fall into
  six layers. \<^bold>\<open>Codecs and hashes\<close> turn values into bytes: \<open>Varint.h\<close>, \<open>Unicode.cpp\<close>, \<open>base64.h\<close> with
  \<open>detail/base64_detail\<close>, and \<open>hash/SpookyHashV1\<close> and \<open>V2\<close>. \<^bold>\<open>Integer arithmetic and conversion\<close>:
  \<open>lang/CheckedMath.h\<close>, \<open>ConstexprMath.h\<close>, \<open>lang/ToAscii.h\<close>, the comparisons of \<open>Traits.h\<close>, and \<open>Conv\<close>,
  which calls all of these to convert between integers and strings. \<^bold>\<open>Lock-free communication and
  locks\<close>: \<open>ProducerConsumerQueue.h\<close> and \<open>synchronization/RWSpinLock.h\<close>. \<^bold>\<open>Futures\<close>: the object that a promise
  and a future share, \<open>futures/detail/Core\<close>, with its interrupt word and the deferred executor of a
  \<open>SemiFuture\<close>. \<^bold>\<open>Statistics\<close>: \<open>stats/BucketedTimeSeries\<close>, which calls the clamped arithmetic of
  \<open>ConstexprMath.h\<close>. \<^bold>\<open>Containers\<close>: \<open>container/EvictingCacheMap.h\<close>.

  \<^bold>\<open>Conventions.\<close> Machine integers are words of their width. C++ templates over integer types take a
  description of the type as an argument (theory \<open>CInt\<close>: signedness and width; \<open>arith\<close> is \<open>None\<close> where
  signed arithmetic overflows, which is undefined behaviour). A byte buffer with a moving
  position is a cursor, and reading or writing outside of it makes the result \<open>None\<close>; so each theorem
  that a function returns \<open>Some\<close> value also says that it stays in bounds. Errors that the code
  reports, by a code, by \<open>Expected\<close> or by an exception, are values of a sum type. Loops are recursive
  functions with termination proofs; the few whose end is not visible in their arguments are partial
  functions into \<open>option\<close>, and the theorems say that they return. Nothing depends on fuel. Concurrent code is cut into its single
  accesses to shared memory: program points are a datatype, the rules of an inductive relation are
  the accesses, and any number of threads interleave (\<open>Thread_Pool\<close>). This is sequential
  consistency; the memory orders of the code are not modelled.

  \<^bold>\<open>Theories, what they model and what is shown.\<close>

  \<^item> \<open>Folly_Prelude\<close>, \<open>Codec\<close>: cursors, byte lists, bit lengths; the contract of an encoder and decoder
    pair, interpreted for varints, UTF-8 and base64.
  \<^item> \<open>Varint\<close> (\<open>Varint.h\<close>, every function): \<open>encodeVarint\<close>, \<open>encodeVarintSize\<close> in both versions,
    \<open>tryDecodeVarint\<close> with its unrolled and its slow path, ZigZag. Round trips, agreement of the fast
    path with base-128 reading on every input, bounds.
  \<^item> \<open>Unicode\<close> (\<open>Unicode.cpp\<close>): \<open>codePointToUtf8\<close>, \<open>utf8ToCodePoint\<close> with all its errors, surrogates. Round trip;
    strictness, so overlong forms and surrogates are refused; skipping never throws.
  \<^item> \<open>Base64\<close>, \<open>Base64_Api\<close> (\<open>detail/base64_detail\<close>, \<open>base64.h\<close>): scalar and SWAR codecs and the string
    interface. SWAR equals scalar; strict decoding accepts exactly the encodings.
  \<^item> \<open>SpookyHash_Common\<close>, \<open>SpookyHashV1\<close>, \<open>SpookyHashV2\<close> (\<open>hash/SpookyHashV1\<close>, \<open>V2\<close>): all member functions.
    Streaming equals one-shot hashing for any chunking; the mixing functions are injective.
  \<^item> \<open>CInt\<close>, \<open>CheckedMath\<close>, \<open>ConstexprMath\<close>, \<open>Traits\<close>: checked operations in both implementations are exact; clamped
    operations never overflow on the way; bit positions; mixed-sign comparisons.
  \<^item> \<open>ToAscii\<close> (\<open>lang/ToAscii.h\<close>): digit counting in three ways, printing in every base, 128-bit values.
  \<^item> \<open>Conv\<close>, \<open>Conv_Correct\<close> (\<open>Conv.h\<close>, \<open>Conv.cpp\<close>): \<open>str_to_integral\<close>, \<open>digits_to\<close>, \<open>str_to_bool\<close>, \<open>convertTo\<close>,
    \<open>toAppend\<close> (a \<open>char\<close> as itself, other integers as numerals) and error messages. The parser accepts exactly the numerals of the type; printing and
    parsing are inverse.
  \<^item> \<open>Bounded_Fifo\<close>, \<open>ProducerConsumerQueue\<close>: the contract of a bounded queue and the ring buffer that
    refines it; with one producer and one consumer interleaving, reads are a prefix of the writes.
  \<^item> \<open>Thread_Pool\<close>: reachability in a pool of threads, and the contracts \<open>thread_pool\<close> (an invariant kept by
    every access), \<open>measured_pool\<close> and \<open>draining_pool\<close> (a state of rest can be reached) and \<open>rw_lock\<close>.
    Invariants count, with \<open>total\<close>, what program points stand for.
  \<^item> \<open>RWSpinLock\<close>, \<open>RWTicketSpinLock\<close> (\<open>synchronization/RWSpinLock.h\<close>): all member functions. Mutual exclusion,
    availability, the order of writers, and the failure of the version without vector instructions
    when a ticket wraps around.
  \<^item> \<open>FutureCore\<close>, \<open>FutureCore_Correct\<close> (\<open>CoreBase\<close> and \<open>Core\<close> in \<open>futures/detail/Core\<close>): \<open>setCallback_\<close>, \<open>setResult_\<close>,
    \<open>setProxy_\<close>, \<open>doCallback\<close>, \<open>proxyCallback\<close>, the two reference counts and destruction. No check fails, no use after
    deletion, the callback is delivered exactly once, and the steps follow the documented diagram.
  \<^item> \<open>FutureInterrupt\<close> (\<open>raise\<close>, \<open>setInterruptHandler\<close>, \<open>initCopyInterruptHandlerFrom\<close>, \<open>~CoreBase\<close>): the tagged
    interrupt word; one delivery, no leak, no double deletion.
  \<^item> \<open>DeferredExecutor\<close> (\<open>addFrom\<close>, \<open>setExecutor\<close>, \<open>detach\<close>): a function that is present goes exactly one way.
  \<^item> \<open>BucketedTimeSeries\<close>, \<open>BucketedTimeSeries_Correct\<close>, \<open>BucketedTimeSeries_Range\<close> (\<open>stats/BucketedTimeSeries-inl.h\<close>,
    \<open>stats/detail/Bucket.h\<close>): constructors, \<open>addValue\<close>, \<open>update\<close>, \<open>clear\<close>, \<open>forEachBucket\<close>, \<open>sum\<close>, \<open>count\<close>, \<open>elapsed\<close>. The
    circular array refines the list of all accepted samples: under the bounds below totals are exact, bucket-aligned
    ranges are exact, and the elapsed time never exceeds the duration. Outside of them, a sample before the epoch
    leaves the array unless its time is a multiple of the duration, and a clamped total drifts.
  \<^item> \<open>EvictingCacheMap\<close>, \<open>EvictingCacheMap_Correct\<close> (\<open>container/EvictingCacheMap.h\<close>): lookups, \<open>set\<close>, \<open>insert\<close>, \<open>erase\<close>, \<open>prune\<close>,
    limits and hooks, on an explicit heap of nodes; the contract \<open>simulation\<close> of an implementation by a
    specification. The cache refines a list of entries in the order of use, keeps the keys used last, does not
    leak or dangle but for an insertion that evicts itself, and stays within its limit.

  \<^bold>\<open>Bounds.\<close> The theorems on the spin locks assume fewer threads than the counters hold (\<open>2 ^ 30\<close> for
  \<open>RWSpinLock\<close>, the number of tickets for the ticket lock), as their comments demand; \<open>sizeGuess\<close> of the
  queue is exact up to \<open>2 ^ 31\<close> slots. A time series has integral values of at most 64 bits, non-negative
  times that stay below \<open>2 ^ 63\<close> with the duration added, a product of duration and number of
  buckets below \<open>2 ^ 63\<close>, and after each operation a window whose absolute values and counts add up within their
  types, so that nothing is clamped. Each hypothesis of this kind has a witness.

  \<^bold>\<open>Not modelled.\<close> In the parts above: the SSE 4.2 version of base64, conversions of floating-point
  numbers (they call double-conversion and fast_float), memory orders, the counts that keep an
  interrupt handler or deferred executor alive across several cores, callbacks of a core that throw, moves of a cache, and the averages
  and rates of a time series, which are floating-point. Of the rest
  of the library: the other containers, strings and buffers that manage raw memory need a
  byte-level object model; F14 and the checksums use vector instructions; sockets, event loops,
  subprocesses, logging and the symbolizer are system calls; executors, fibers and coroutines switch stacks
  or start threads; compression, TLS and address parsing call external libraries; the remaining locks
  and queues park threads in the kernel or rely on asymmetric fences; generators, \<open>Poly\<close>, \<open>Function\<close> and the
  futures interface are templates over user code.
\<close>

end
